(* ===== verification/Prelude.thy ===== *)
theory Prelude
  imports Main "HOL-Library.Word" "HOL-Library.Monad_Syntax"
begin

text \<open>
  Shared vocabulary of the development: the machine integers of the i386 target, the flat
  little-endian byte memory that every pointer of the C code refers to, counting loops over
  unsigned counters, and the lemmas about them that the component theories use.

  Conventions of all theories.  A C function that cannot fail and always returns is a HOL
  function on the state.  A C function that can loop for ever, or whose behaviour C leaves
  undefined for some input (reading a variadic argument that was not passed, indexing a fixed
  table outside its bounds, running over the end of a format string), returns an option:
  \<open>None\<close> means that the call has no defined return.  An intentional endless loop, such as the
  end of the kernel's main function, is the outcome \<open>Halts\<close> of the state it loops in.
\<close>

unbundle bit_operations_syntax

named_theorems mem_simps \<open>reads after writes of the flat memory\<close>
named_theorems frame_simps \<open>fields that an operation leaves alone\<close>

type_synonym u8 = "8 word"
type_synonym u16 = "16 word"
type_synonym u32 = "32 word"
type_synonym memory = "u32 \<Rightarrow> u8"

datatype 's outcome = Returns 's | Halts 's

section \<open>Word arithmetic\<close>

lemma unat_u32_lt: "unat (w :: u32) < 4294967296"
  using unsigned_less[where w = w and ?'a = nat] by simp

lemma unat_of_nat_u32: "n < 4294967296 \<Longrightarrow> unat (of_nat n :: u32) = n"
  by (simp add: unsigned_of_nat take_bit_nat_eq_self_iff)

lemma unat_plus_u32: "unat (a :: u32) + unat b < 4294967296 \<Longrightarrow> unat (a + b) = unat a + unat b"
  by (simp add: unat_word_ariths)

lemma unat_minus_u32: "b \<le> a \<Longrightarrow> unat (a - b :: u32) = unat a - unat b"
  by (simp add: unat_sub)

lemma unat_suc_u32: "i < n \<Longrightarrow> unat (i + 1 :: u32) = Suc (unat i)"
proof -
  assume "i < n"
  then have "unat i < unat n" by (simp add: word_less_nat_alt)
  moreover have "unat n < 4294967296" by (rule unat_u32_lt)
  ultimately show ?thesis using unat_plus_u32 [of i 1] by simp
qed

lemma unat_diff_wrap_u32:
  "unat x < unat y \<Longrightarrow> unat (x - y :: u32) = unat x + 4294967296 - unat y"
  by (simp add: unat_sub_if')

lemma unat_diff_eqD: "unat (x - p) = unat i \<Longrightarrow> x = p + (i :: u32)"
proof -
  assume "unat (x - p) = unat i"
  then have "x - p = i" by (simp only: word_unat_eq_iff)
  then show ?thesis by (simp add: algebra_simps)
qed

lemma unat_diff_eq_iff: "unat (x - p) = unat i \<longleftrightarrow> x = p + (i :: u32)"
  by (auto dest: unat_diff_eqD)

lemma unat_pred_u32: "i \<noteq> 0 \<Longrightarrow> unat (i :: u32) = Suc (unat (i - 1))"
  by (simp add: unat_minus_one unat_gt_0)

lemma unat_mult_u32: "unat (a :: u32) * unat b < 4294967296 \<Longrightarrow> unat (a * b) = unat a * unat b"
  by (simp add: unat_word_ariths)

text \<open>A byte widened to an integer and back; it is never the integer -1.\<close>

lemma ucast_u8_u32 [simp]: "(ucast (ucast (b :: u8) :: u32) :: u8) = b"
  by (rule bit_word_eqI) (auto simp: bit_simps)

lemma ucast_u8_neq_minus_1: "(ucast (b :: u8) :: u32) \<noteq> - 1"
proof
  assume "(ucast b :: u32) = - 1"
  then have "bit (ucast b :: u32) 31 = bit (- 1 :: u32) 31" by simp
  then show False by (auto simp: bit_simps dest: bit_imp_le_length)
qed

text \<open>Signed and unsigned readings of a word.\<close>

lemma uint_of_sint: "uint (a :: u32) = (if sint a < 0 then sint a + 4294967296 else sint a)"
proof -
  have u: "uint a = sint a mod 4294967296" by (simp add: uint_sint take_bit_eq_mod)
  have "- 2147483648 \<le> sint a" "sint a < 2147483648" using sint_ge [of a] sint_lt [of a] by simp_all
  show ?thesis
  proof (cases "sint a < 0")
    case True
    have "sint a mod 4294967296 = (sint a + 4294967296) mod 4294967296" by simp
    also have "\<dots> = sint a + 4294967296"
      using True \<open>- 2147483648 \<le> sint a\<close> by (intro mod_pos_pos_trivial) auto
    finally show ?thesis using True u by simp
  next
    case False
    then show ?thesis using u \<open>sint a < 2147483648\<close> by simp
  qed
qed

lemma unat_of_sint:
  "unat (a :: u32) = nat (if sint a < 0 then sint a + 4294967296 else sint a)"
  using uint_of_sint [of a] by (simp add: unat_eq_nat_uint)

lemma sint_bounds: "- 2147483648 \<le> sint (a :: u32)" "sint (a :: u32) < 2147483648"
  using sint_ge [of a] sint_lt [of a] by simp_all

lemma sint_nonneg_iff: "0 \<le> sint (a :: u32) \<longleftrightarrow> unat a < 2147483648"
  using unat_of_sint [of a] sint_bounds [of a] by (auto split: if_splits)

section \<open>The flat memory\<close>

definition load16 :: "memory \<Rightarrow> u32 \<Rightarrow> u16" where
  "load16 m a = ucast (m a) OR push_bit 8 (ucast (m (a + 1)))"

definition store16 :: "memory \<Rightarrow> u32 \<Rightarrow> u16 \<Rightarrow> memory" where
  "store16 m a v = m(a := ucast v, a + 1 := ucast (drop_bit 8 v))"

definition load32 :: "memory \<Rightarrow> u32 \<Rightarrow> u32" where
  "load32 m a = ucast (m a) OR push_bit 8 (ucast (m (a + 1)))
     OR push_bit 16 (ucast (m (a + 2))) OR push_bit 24 (ucast (m (a + 3)))"

definition store32 :: "memory \<Rightarrow> u32 \<Rightarrow> u32 \<Rightarrow> memory" where
  "store32 m a v = m(a := ucast v, a + 1 := ucast (drop_bit 8 v),
     a + 2 := ucast (drop_bit 16 v), a + 3 := ucast (drop_bit 24 v))"

text \<open>
  The regions of \<open>n\<close> bytes from \<open>a\<close> and of \<open>k\<close> bytes from \<open>b\<close> do not meet.  Distances
  are taken modulo the size of the address space, so no side condition about wrap-around is
  needed.
\<close>

definition apart :: "u32 \<Rightarrow> nat \<Rightarrow> u32 \<Rightarrow> nat \<Rightarrow> bool" where
  "apart a n b k \<longleftrightarrow> n \<le> unat (b - a) \<and> k \<le> unat (a - b)"

lemma apart_sym: "apart a n b k \<Longrightarrow> apart b k a n"
  by (simp add: apart_def)

lemma apart_mono: "apart a n b k \<Longrightarrow> n' \<le> n \<Longrightarrow> k' \<le> k \<Longrightarrow> apart a n' b k'"
  by (simp add: apart_def)

lemma apart_neq:
  assumes "apart a n b k" "i < n" "j < k"
  shows "a + of_nat i \<noteq> b + of_nat j"
proof
  assume eq: "a + of_nat i = b + of_nat j"
  have n: "n < 4294967296" "k < 4294967296"
    using assms(1) unat_u32_lt [of "b - a"] unat_u32_lt [of "a - b"] by (auto simp: apart_def)
  show False
  proof (cases "j \<le> i")
    case True
    have "b - a = of_nat (i - j)" using eq True by (simp add: algebra_simps of_nat_diff)
    then have "unat (b - a) = i - j" using n assms(2) by (simp add: unat_of_nat_u32)
    then show False using assms by (auto simp: apart_def)
  next
    case False
    have "a - b = of_nat (j - i)" using eq False by (simp add: algebra_simps of_nat_diff)
    then have "unat (a - b) = j - i" using n assms(3) by (simp add: unat_of_nat_u32)
    then show False using assms by (auto simp: apart_def)
  qed
qed

text \<open>Regions ordered in the address space without wrap-around are apart.\<close>

lemma apart_ordered:
  assumes "0 < n" "unat a + n \<le> unat b" "unat b + k \<le> unat a + 4294967296"
  shows "apart a n b k"
proof -
  have le: "a \<le> b" using assms(2) by (simp add: word_le_nat_alt)
  have d: "unat (b - a) = unat b - unat a" using le by (rule unat_minus_u32)
  have "unat (a - b) = unat a + 4294967296 - unat b"
    using assms(1,2) by (intro unat_diff_wrap_u32) auto
  then show ?thesis using assms d le by (auto simp: apart_def word_le_nat_alt)
qed

text \<open>Regions at different offsets from one base, and the elements of one array.\<close>

lemma apart_offsets:
  assumes "i + n \<le> j" "j + k \<le> i + 4294967296" "0 < n" "0 < k"
  shows "apart (p + of_nat i) n (p + of_nat j) k"
proof -
  have d: "p + of_nat j - (p + of_nat i) = of_nat (j - i)" using assms(1) by (simp add: of_nat_diff)
  have u: "unat (of_nat (j - i) :: u32) = j - i" using assms by (intro unat_of_nat_u32) auto
  have e: "p + of_nat i - (p + of_nat j) = 0 - of_nat (j - i)" using assms(1) by (simp add: of_nat_diff)
  have "unat (0 - of_nat (j - i) :: u32) = unat (0 :: u32) + 4294967296 - unat (of_nat (j - i) :: u32)"
    using assms u by (intro unat_diff_wrap_u32) simp
  then have v: "unat (0 - of_nat (j - i) :: u32) = 4294967296 - (j - i)" unfolding u by simp
  show ?thesis unfolding apart_def d e u v using assms by arith
qed

lemma apart_elems:
  assumes "i \<noteq> j" "(i + 1) * k \<le> 4294967296" "(j + 1) * k \<le> 4294967296" "0 < k"
  shows "apart (p + of_nat (i * k)) k (p + of_nat (j * k)) k"
proof -
  have le: "a * k + k \<le> b * k" if "a < b" for a b :: nat
    using mult_le_mono1 [of "Suc a" b k] that by simp
  have "i < j \<or> j < i" using assms(1) by auto
  then show ?thesis
  proof
    assume "i < j"
    then show ?thesis using le [of i j] assms by (intro apart_offsets) auto
  next
    assume "j < i"
    then show ?thesis using le [of j i] assms by (intro apart_sym [OF apart_offsets]) auto
  qed
qed

text \<open>Parts of regions that are apart are apart.\<close>

lemma apart_parts:
  assumes "apart a n b k" "i + n' \<le> n" "j + k' \<le> k" "0 < n'" "0 < k'"
  shows "apart (a + of_nat i) n' (b + of_nat j) k'"
proof -
  have D: "n \<le> unat (b - a)" and E: "k \<le> unat (a - b)" using assms(1) by (simp_all add: apart_def)
  have "0 < unat (b - a)" using D assms by simp
  moreover have "a - b = 0 - (b - a)" by simp
  ultimately have sum: "unat (a - b) + unat (b - a) = 4294967296"
    using unat_diff_wrap_u32 [of 0 "b - a"] unat_u32_lt [of "b - a"] by simp
  have ui: "unat (of_nat i :: u32) = i" and uj: "unat (of_nat j :: u32) = j"
    using D E assms sum by (auto intro!: unat_of_nat_u32)
  have shift: "unat (y + of_nat q - (x + of_nat p)) = unat (y - x) + q - p"
    if "unat (of_nat p :: u32) = p" "unat (of_nat q :: u32) = q" "p \<le> unat (y - x)"
      "unat (y - x) + q < 4294967296" for x y :: u32 and p q
  proof -
    have e: "y + of_nat q - (x + of_nat p) = (y - x + of_nat q) - of_nat p" by simp
    have "unat (y - x + of_nat q) = unat (y - x) + q" using that by (subst unat_plus_u32) simp_all
    then show ?thesis
      using unat_minus_u32 [of "of_nat p" "y - x + of_nat q"] that by (simp only: e word_le_nat_alt)
  qed
  have d: "unat (b + of_nat j - (a + of_nat i)) = unat (b - a) + j - i"
    using D E assms sum ui uj by (intro shift) simp_all
  have e: "unat (a + of_nat i - (b + of_nat j)) = unat (a - b) + i - j"
    using D E assms sum ui uj by (intro shift) simp_all
  show ?thesis unfolding apart_def d e using D E assms(2,3) by arith
qed

text \<open>Addresses up to \<open>n\<close> bytes above \<open>a\<close>; the store operations change only these.\<close>

definition in_region :: "u32 \<Rightarrow> nat \<Rightarrow> u32 \<Rightarrow> bool" where
  "in_region a n x \<longleftrightarrow> unat (x - a) < n"

lemma unat_add_of_nat_u32: "unat (a :: u32) + k < 4294967296 \<Longrightarrow> unat (a + of_nat k) = unat a + k"
  by (subst unat_plus_u32) (simp_all add: unat_of_nat_u32)

lemma in_region_offset: "i < n \<Longrightarrow> i < 4294967296 \<Longrightarrow> in_region a n (a + of_nat i)"
  by (simp add: in_region_def unat_of_nat_u32)

lemma in_region_ordered:
  assumes "unat a + n \<le> 4294967296"
  shows "in_region a n x \<longleftrightarrow> unat a \<le> unat x \<and> unat x < unat a + n"
proof (cases "a \<le> x")
  case True
  then show ?thesis by (auto simp: in_region_def unat_minus_u32 word_le_nat_alt)
next
  case False
  then have lt: "unat x < unat a" by (simp add: word_le_nat_alt)
  have "unat (x - a) = unat x + 4294967296 - unat a" using lt by (rule unat_diff_wrap_u32)
  then show ?thesis using assms lt by (auto simp: in_region_def)
qed

lemma in_region_part:
  assumes "in_region (a + of_nat j) n x" "j + n \<le> k" "j < 4294967296" shows "in_region a k x"
proof -
  have le: "unat (p + q) \<le> unat p + unat q" for p q :: u32 by (simp add: unat_word_ariths)
  have "unat (x - a) \<le> unat (x - (a + of_nat j)) + unat (of_nat j :: u32)"
    using le [of "x - (a + of_nat j)" "of_nat j"] by simp
  then show ?thesis using assms by (simp add: in_region_def unat_of_nat_u32)
qed

lemma store32_outside: "\<not> in_region a 4 x \<Longrightarrow> store32 m a v x = m x"
proof -
  assume out: "\<not> in_region a 4 x"
  have "x \<noteq> a + of_nat i" if "i < 4" for i
    using out that in_region_offset [of i 4 a] by auto
  from this [of 0] this [of 1] this [of 2] this [of 3]
  show ?thesis by (simp add: store32_def)
qed

lemma store16_outside: "\<not> in_region a 2 x \<Longrightarrow> store16 m a v x = m x"
proof -
  assume out: "\<not> in_region a 2 x"
  have "x \<noteq> a + of_nat i" if "i < 2" for i
    using out that in_region_offset [of i 2 a] by auto
  from this [of 0] this [of 1]
  show ?thesis by (simp add: store16_def)
qed

lemma load32_store32_same [simp]: "load32 (store32 m a v) a = v"
proof (rule bit_word_eqI)
  fix n
  assume "n < LENGTH(32)"
  then have "n < 8 \<or> 8 \<le> n \<and> n < 16 \<or> 16 \<le> n \<and> n < 24 \<or> 24 \<le> n \<and> n < 32" by auto
  then show "bit (load32 (store32 m a v) a) n = bit v n"
    by (elim disjE) (auto simp: load32_def store32_def bit_simps)
qed

lemma load16_store16_same [simp]: "load16 (store16 m a v) a = v"
proof (rule bit_word_eqI)
  fix n
  assume "n < LENGTH(16)"
  then have "n < 8 \<or> 8 \<le> n \<and> n < 16" by auto
  then show "bit (load16 (store16 m a v) a) n = bit v n"
    by (elim disjE) (auto simp: load16_def store16_def bit_simps)
qed

lemma load32_cong:
  assumes "\<And>i. i < 4 \<Longrightarrow> m (a + of_nat i) = m' (a + of_nat i)"
  shows "load32 m a = load32 m' a"
  using assms [of 0] assms [of 1] assms [of 2] assms [of 3] by (simp add: load32_def)

lemma apart_not_in_region:
  assumes "apart a n b k" "j < k" shows "\<not> in_region a n (b + of_nat j)"
proof
  assume "in_region a n (b + of_nat j)"
  then have lt: "unat (b + of_nat j - a) < n" by (simp add: in_region_def)
  have "a + of_nat (unat (b + of_nat j - a)) = b + of_nat j" by simp
  with apart_neq [OF assms(1) lt assms(2)] show False by blast
qed

lemma store32_load32:
  "store32 m' a (load32 m b) = m'(a := m b, a + 1 := m (b + 1), a + 2 := m (b + 2), a + 3 := m (b + 3))"
proof -
  have "ucast (load32 m b) = m b" "ucast (drop_bit 8 (load32 m b)) = m (b + 1)"
    "ucast (drop_bit 16 (load32 m b)) = m (b + 2)" "ucast (drop_bit 24 (load32 m b)) = m (b + 3)"
    by (rule bit_word_eqI; auto simp: load32_def bit_simps dest: bit_imp_le_length)+
  then show ?thesis by (simp add: store32_def)
qed

lemma store32_own [simp]: "store32 m a (load32 m a) = m"
  by (simp add: store32_load32 fun_eq_iff)

lemma load32_store32_apart [mem_simps]:
  "apart a 4 b 4 \<Longrightarrow> load32 (store32 m a v) b = load32 m b"
  by (rule load32_cong) (auto intro: store32_outside dest: apart_not_in_region)

lemma load16_store16_apart [mem_simps]:
  assumes "apart a 2 b 2" shows "load16 (store16 m a v) b = load16 m b"
  using store16_outside [OF apart_not_in_region [OF assms, of 0]]
    store16_outside [OF apart_not_in_region [OF assms, of 1]]
  by (simp add: load16_def)

text \<open>What an operation that only touches given regions preserves.\<close>

definition same_outside :: "(u32 \<Rightarrow> bool) \<Rightarrow> memory \<Rightarrow> memory \<Rightarrow> bool" where
  "same_outside R m m' \<longleftrightarrow> (\<forall>x. \<not> R x \<longrightarrow> m' x = m x)"

lemma same_outside_refl [simp, intro]: "same_outside R m m"
  by (simp add: same_outside_def)

lemma same_outside_trans:
  "same_outside R m m' \<Longrightarrow> same_outside R m' m'' \<Longrightarrow> same_outside R m m''"
  by (simp add: same_outside_def)

lemma same_outside_mono:
  "same_outside R m m' \<Longrightarrow> (\<And>x. R x \<Longrightarrow> R' x) \<Longrightarrow> same_outside R' m m'"
  unfolding same_outside_def by blast

lemma same_outside_store32:
  "(\<And>x. in_region a 4 x \<Longrightarrow> R x) \<Longrightarrow> same_outside R m (store32 m a v)"
  using store32_outside unfolding same_outside_def by blast

lemma same_outside_store16:
  "(\<And>x. in_region a 2 x \<Longrightarrow> R x) \<Longrightarrow> same_outside R m (store16 m a v)"
  using store16_outside unfolding same_outside_def by blast

lemma same_outside_load32:
  "same_outside R m m' \<Longrightarrow> (\<And>i. i < 4 \<Longrightarrow> \<not> R (a + of_nat i)) \<Longrightarrow> load32 m' a = load32 m a"
  by (rule load32_cong) (simp add: same_outside_def)

section \<open>Counting loops\<close>

text \<open>\<^verbatim>\<open>for (uint32_t i = i0; i < n; i++) body\<close>, with an unsigned 32-bit counter.\<close>

function for_loop :: "u32 \<Rightarrow> u32 \<Rightarrow> (u32 \<Rightarrow> 's \<Rightarrow> 's) \<Rightarrow> 's \<Rightarrow> 's" where
  "for_loop i n body s = (if i < n then for_loop (i + 1) n body (body i s) else s)"
  by pat_completeness auto
termination
proof (relation "measure (\<lambda>(i, n, body, s). unat n - unat i)")
  fix i n :: u32 and body :: "u32 \<Rightarrow> 's \<Rightarrow> 's" and s
  assume lt: "i < n"
  then have "unat i < unat n" by (simp add: word_less_nat_alt)
  with unat_suc_u32 [OF lt]
  show "((i + 1, n, body, body i s), i, n, body, s) \<in> measure (\<lambda>(i, n, body, s). unat n - unat i)"
    by simp
qed simp

declare for_loop.simps [simp del]

text \<open>The same loop with a body that may have no defined return.\<close>

function for_loop_opt :: "u32 \<Rightarrow> u32 \<Rightarrow> (u32 \<Rightarrow> 's \<Rightarrow> 's option) \<Rightarrow> 's \<Rightarrow> 's option" where
  "for_loop_opt i n body s =
     (if i < n then (case body i s of None \<Rightarrow> None | Some s' \<Rightarrow> for_loop_opt (i + 1) n body s')
      else Some s)"
  by pat_completeness auto
termination
proof (relation "measure (\<lambda>(i, n, body, s). unat n - unat i)")
  fix i n :: u32 and body :: "u32 \<Rightarrow> 's \<Rightarrow> 's option" and s s'
  assume lt: "i < n"
  then have "unat i < unat n" by (simp add: word_less_nat_alt)
  with unat_suc_u32 [OF lt]
  show "((i + 1, n, body, s'), i, n, body, s) \<in> measure (\<lambda>(i, n, body, s). unat n - unat i)"
    by simp
qed simp

declare for_loop_opt.simps [simp del]

lemma for_loop_done [simp]: "\<not> i < n \<Longrightarrow> for_loop i n f s = s"
  by (simp add: for_loop.simps)

lemma for_loop_opt_done [simp]: "\<not> i < n \<Longrightarrow> for_loop_opt i n f s = Some s"
  by (simp add: for_loop_opt.simps)

lemma for_loop_rule:
  assumes "i \<le> n" "P i s"
    and "\<And>j s. i \<le> j \<Longrightarrow> j < n \<Longrightarrow> P j s \<Longrightarrow> P (j + 1) (f j s)"
  shows "P n (for_loop i n f s)"
  using assms
proof (induction i n f s rule: for_loop.induct)
  case (1 i n f s)
  show ?case
  proof (cases "i < n")
    case True
    then have lt: "i \<le> i + 1" "i + 1 \<le> n"
      using unat_suc_u32 [OF True] by (simp_all add: word_le_nat_alt word_less_nat_alt)
    have "P n (for_loop (i + 1) n f (f i s))"
    proof (rule "1.IH" [OF True])
      show "P (i + 1) (f i s)" using True 1 by simp
      show "P (j + 1) (f j t)" if "i + 1 \<le> j" "j < n" "P j t" for j t
        using "1.prems"(3) [of j t] that lt(1) order_trans by blast
    qed (rule lt)
    then show ?thesis using True by (simp add: for_loop.simps [of i n f s])
  next
    case False
    then have "i = n" using 1 by simp
    then show ?thesis using 1 by simp
  qed
qed

lemma for_loop_opt_rule:
  assumes "i \<le> n" "P i s"
    and "\<And>j s. i \<le> j \<Longrightarrow> j < n \<Longrightarrow> P j s \<Longrightarrow> \<exists>s'. f j s = Some s' \<and> P (j + 1) s'"
  shows "\<exists>s'. for_loop_opt i n f s = Some s' \<and> P n s'"
  using assms
proof (induction i n f s rule: for_loop_opt.induct)
  case (1 i n f s)
  show ?case
  proof (cases "i < n")
    case True
    then have lt: "i \<le> i + 1" "i + 1 \<le> n"
      using unat_suc_u32 [OF True] by (simp_all add: word_le_nat_alt word_less_nat_alt)
    obtain s' where s': "f i s = Some s'" "P (i + 1) s'" using True 1 by blast
    have "\<exists>s''. for_loop_opt (i + 1) n f s' = Some s'' \<and> P n s''"
    proof (rule "1.IH" [OF True s'(1)])
      show "\<exists>t'. f j t = Some t' \<and> P (j + 1) t'" if "i + 1 \<le> j" "j < n" "P j t" for j t
        using "1.prems"(3) [of j t] that lt(1) order_trans by blast
    qed (fact lt s')+
    then show ?thesis using True s' by (simp add: for_loop_opt.simps [of i n f s])
  next
    case False
    then have "i = n" using 1 by simp
    then show ?thesis using 1 by simp
  qed
qed

end
