(* ===== verification/Machine.thy ===== *)
theory Machine
  imports Prelude
begin

text \<open>
  The machine under the kernel, as the C code sees it: the byte memory behind its pointers and
  the I/O ports.  Writes to ports are recorded in order in \<open>io\<close>.  What a device answers to a
  port read is not decided by code of the repository: it is the parameter \<open>port_env\<close>, the
  answer to the \<open>k\<close>-th read of the machine's life on a port (the low bits count for the
  narrower reads), and \<open>in_count\<close> counts the reads done so far.

  The records of the other components extend \<open>machine\<close> one after the other; every operation
  is typed on the scheme of the record it needs.

  Translated from the port functions at the head of \<^verbatim>\<open>kernel/kernel/serial.c\<close>.
\<close>

datatype port_write = Outb u16 u8 | Outw u16 u16 | Outl u16 u32

record machine =
  mem :: memory
  io :: "port_write list"
  port_env :: "nat \<Rightarrow> u16 \<Rightarrow> u32"
  in_count :: nat

definition outportb :: "u16 \<Rightarrow> u8 \<Rightarrow> 'a machine_scheme \<Rightarrow> 'a machine_scheme" where
  "outportb port val s = s\<lparr>io := io s @ [Outb port val]\<rparr>"

definition inportb :: "u16 \<Rightarrow> 'a machine_scheme \<Rightarrow> u8 \<times> 'a machine_scheme" where
  "inportb port s = (ucast (port_env s (in_count s) port), s\<lparr>in_count := Suc (in_count s)\<rparr>)"

definition inports :: "u16 \<Rightarrow> 'a machine_scheme \<Rightarrow> u16 \<times> 'a machine_scheme" where
  "inports port s = (ucast (port_env s (in_count s) port), s\<lparr>in_count := Suc (in_count s)\<rparr>)"

definition outports :: "u16 \<Rightarrow> u16 \<Rightarrow> 'a machine_scheme \<Rightarrow> 'a machine_scheme" where
  "outports port data s = s\<lparr>io := io s @ [Outw port data]\<rparr>"

definition inportl :: "u16 \<Rightarrow> 'a machine_scheme \<Rightarrow> u32 \<times> 'a machine_scheme" where
  "inportl port s = (port_env s (in_count s) port, s\<lparr>in_count := Suc (in_count s)\<rparr>)"

definition outportl :: "u16 \<Rightarrow> u32 \<Rightarrow> 'a machine_scheme \<Rightarrow> 'a machine_scheme" where
  "outportl port data s = s\<lparr>io := io s @ [Outl port data]\<rparr>"

lemma outportb_frame [frame_simps]:
  "mem (outportb p v s) = mem s" "port_env (outportb p v s) = port_env s"
  "in_count (outportb p v s) = in_count s" "io (outportb p v s) = io s @ [Outb p v]"
  by (simp_all add: outportb_def)

text \<open>A sequence of byte writes, in order.\<close>

fun outportb_all :: "(u16 \<times> u8) list \<Rightarrow> 'a machine_scheme \<Rightarrow> 'a machine_scheme" where
  "outportb_all [] s = s"
| "outportb_all ((p, v) # ws) s = outportb_all ws (outportb p v s)"

lemma outportb_all_eq: "outportb_all ws s = s\<lparr>io := io s @ map (\<lambda>(p, v). Outb p v) ws\<rparr>"
  by (induction ws s rule: outportb_all.induct) (simp_all add: outportb_def)

end
