(* ===== verification/Libc_String.thy ===== *)
theory Libc_String
  imports Prelude
begin

text \<open>
  The string functions of the kernel's C library, \<^verbatim>\<open>libc/string/*.c\<close>, on the flat memory.
  Pointers are addresses; a function that returns its first argument returns it here too,
  paired with the memory it leaves.

  The lemmas give each loop a closed form: \<^verbatim>\<open>memset\<close> fills exactly its region, \<^verbatim>\<open>memcpy\<close> copies
  between disjoint regions, \<^verbatim>\<open>memmove\<close> between any two regions that do not wrap around the
  address space, \<^verbatim>\<open>memcmp\<close> is the lexicographic order of the two byte sequences, and \<^verbatim>\<open>strlen\<close>
  returns exactly when there is a zero byte to find.
\<close>

definition memset :: "u32 \<Rightarrow> u32 \<Rightarrow> u32 \<Rightarrow> memory \<Rightarrow> u32 \<times> memory" where
  "memset bufptr value n m =
     (bufptr, for_loop 0 n (\<lambda>i m. m(bufptr + i := ucast value)) m)"

definition memcpy :: "u32 \<Rightarrow> u32 \<Rightarrow> u32 \<Rightarrow> memory \<Rightarrow> u32 \<times> memory" where
  "memcpy dst src n m = (dst, for_loop 0 n (\<lambda>i m. m(dst + i := m (src + i))) m)"

text \<open>The second loop of \<^verbatim>\<open>memmove\<close>: \<^verbatim>\<open>for (i = size; i != 0; i--) dst[i - 1] = src[i - 1]\<close>.\<close>

function memmove_down :: "u32 \<Rightarrow> u32 \<Rightarrow> u32 \<Rightarrow> memory \<Rightarrow> memory" where
  "memmove_down dst src i m =
     (if i \<noteq> 0 then memmove_down dst src (i - 1) (m(dst + (i - 1) := m (src + (i - 1)))) else m)"
  by pat_completeness auto
termination
  by (relation "measure (\<lambda>(dst, src, i, m). unat i)") (auto simp: unat_minus_one unat_gt_0)

declare memmove_down.simps [simp del]

definition memmove :: "u32 \<Rightarrow> u32 \<Rightarrow> u32 \<Rightarrow> memory \<Rightarrow> u32 \<times> memory" where
  "memmove dst src n m =
     (dst, if dst < src then for_loop 0 n (\<lambda>i m. m(dst + i := m (src + i))) m
           else memmove_down dst src n m)"

function memcmp_from :: "memory \<Rightarrow> u32 \<Rightarrow> u32 \<Rightarrow> u32 \<Rightarrow> u32 \<Rightarrow> int" where
  "memcmp_from m a b i n =
     (if i < n then
        (if m (a + i) < m (b + i) then -1
         else if m (b + i) < m (a + i) then 1
         else memcmp_from m a b (i + 1) n)
      else 0)"
  by pat_completeness auto
termination
proof (relation "measure (\<lambda>(m, a, b, i, n). unat n - unat i)")
  fix m :: memory and a b i n :: u32
  assume lt: "i < n"
  then show "((m, a, b, i + 1, n), m, a, b, i, n)
      \<in> measure (\<lambda>(m, a, b, i, n). unat n - unat i)"
    using unat_suc_u32 [OF lt] by (simp add: word_less_nat_alt)
qed simp

declare memcmp_from.simps [simp del]

definition memcmp :: "u32 \<Rightarrow> u32 \<Rightarrow> u32 \<Rightarrow> memory \<Rightarrow> int" where
  "memcmp aptr bptr n m = memcmp_from m aptr bptr 0 n"

partial_function (option) strlen_from :: "memory \<Rightarrow> u32 \<Rightarrow> u32 \<Rightarrow> u32 option" where
  "strlen_from m str len =
     (if m (str + len) \<noteq> 0 then strlen_from m str (len + 1) else Some len)"

definition strlen :: "u32 \<Rightarrow> memory \<Rightarrow> u32 option" where
  "strlen str m = strlen_from m str 0"

text \<open>The bytes behind a pointer, as a reader: the \<open>i\<close>-th byte at \<open>p\<close> in the memory of the moment.\<close>

definition mem_reader :: "u32 \<Rightarrow> u32 \<Rightarrow> memory \<Rightarrow> u8" where
  "mem_reader p i m = m (p + i)"

text \<open>The bytes of a local array, zero past its end (no caller reads there).\<close>

definition buf_reader :: "u8 list \<Rightarrow> u32 \<Rightarrow> memory \<Rightarrow> u8" where
  "buf_reader buf i m = (if unat i < length buf then buf ! unat i else 0)"

section \<open>Filling and copying\<close>

definition filled :: "u32 \<Rightarrow> nat \<Rightarrow> u8 \<Rightarrow> memory \<Rightarrow> memory" where
  "filled p n v m = (\<lambda>x. if in_region p n x then v else m x)"

definition copied :: "u32 \<Rightarrow> u32 \<Rightarrow> nat \<Rightarrow> memory \<Rightarrow> memory" where
  "copied dst src n m = (\<lambda>x. if in_region dst n x then m (src + (x - dst)) else m x)"

lemma filled_Suc: "filled p (Suc (unat i)) v m = (filled p (unat i) v m)(p + i := v)"
  by (rule ext) (auto simp: filled_def in_region_def less_Suc_eq unat_diff_eq_iff)

lemma for_loop_fill:
  "for_loop 0 n (\<lambda>i m. m(p + i := v)) m = filled p (unat n) v m"
proof (rule for_loop_rule [where P = "\<lambda>i m'. m' = filled p (unat i) v m"])
  show "m = filled p (unat 0) v m" by (simp add: filled_def in_region_def)
next
  fix j m'
  assume "j < n" "m' = filled p (unat j) v m"
  then show "m'(p + j := v) = filled p (unat (j + 1)) v m"
    by (simp add: unat_suc_u32 filled_Suc)
qed simp

lemma memset_eq: "memset p v n m = (p, filled p (unat n) (ucast v) m)"
  by (simp add: memset_def for_loop_fill)

lemma copied_Suc:
  "copied dst src (Suc (unat i)) m = (copied dst src (unat i) m)(dst + i := m (src + i))"
  by (rule ext) (auto simp: copied_def in_region_def less_Suc_eq unat_diff_eq_iff)

text \<open>
  The ascending copy is right when no source byte is overwritten before it is read: every
  source position that lies in the target region lies there before the current index.
\<close>

lemma for_loop_copy:
  assumes ahead: "\<And>i j. i < n \<Longrightarrow> j < i \<Longrightarrow> src + i \<noteq> dst + j"
  shows "for_loop 0 n (\<lambda>i m. m(dst + i := m (src + i))) m = copied dst src (unat n) m"
proof (rule for_loop_rule [where P = "\<lambda>i m'. m' = copied dst src (unat i) m"])
  show "m = copied dst src (unat 0) m" by (simp add: copied_def in_region_def)
next
  fix i m'
  assume lt: "i < n" and m': "m' = copied dst src (unat i) m"
  have "\<not> in_region dst (unat i) (src + i)"
  proof
    assume "in_region dst (unat i) (src + i)"
    then have "src + i - dst < i" by (simp add: in_region_def word_less_nat_alt)
    from ahead [OF lt this] show False by simp
  qed
  then show "m'(dst + i := m' (src + i)) = copied dst src (unat (i + 1)) m"
    using lt m' by (simp add: unat_suc_u32 copied_Suc) (simp add: copied_def)
qed simp

lemma memcpy_eq:
  assumes "apart dst (unat n) src (unat n)"
  shows "memcpy dst src n m = (dst, copied dst src (unat n) m)"
proof -
  have "src + i \<noteq> dst + j" if "i < n" "j < i" for i j
    using apart_neq [OF assms, of "unat j" "unat i"] that
    by (auto simp: word_less_nat_alt)
  then show ?thesis by (simp add: memcpy_def for_loop_copy)
qed


text \<open>
  The descending copy, from any index down to 0, completes a copy whose upper part is done.
\<close>

definition copied_above :: "u32 \<Rightarrow> u32 \<Rightarrow> nat \<Rightarrow> nat \<Rightarrow> memory \<Rightarrow> memory" where
  "copied_above dst src i n m =
     (\<lambda>x. if in_region dst n x \<and> \<not> in_region dst i x then m (src + (x - dst)) else m x)"

lemma copied_above_step:
  assumes "i \<noteq> 0" "i \<le> n"
  shows "(copied_above dst src (unat i) (unat n) m)(dst + (i - 1) := m (src + (i - 1)))
     = copied_above dst src (unat (i - 1)) (unat n) m"
proof -
  have i: "unat i = Suc (unat (i - 1))" using assms(1) by (rule unat_pred_u32)
  moreover have "unat (i - 1) < unat n" using i assms(2) by (simp add: word_le_nat_alt)
  ultimately show ?thesis
    by (intro ext) (auto simp: copied_above_def in_region_def less_Suc_eq unat_diff_eq_iff)
qed

lemma memmove_down_copies:
  assumes "i \<le> n" and ahead: "\<And>i j. i \<noteq> 0 \<Longrightarrow> i \<le> n \<Longrightarrow> i \<le> j \<Longrightarrow> j < n \<Longrightarrow> src + (i - 1) \<noteq> dst + j"
  shows "memmove_down dst src i (copied_above dst src (unat i) (unat n) m) = copied dst src (unat n) m"
  using assms(1)
proof (induction "unat i" arbitrary: i)
  case 0
  then have "i = 0" by (simp add: unat_eq_zero)
  then show ?case
    by (simp add: memmove_down.simps copied_above_def copied_def in_region_def)
next
  case (Suc k)
  then have i: "i \<noteq> 0" by auto
  then have k: "k = unat (i - 1)" using Suc.hyps(2) by (simp add: unat_pred_u32)
  have le: "i - 1 \<le> n" using Suc k by (simp add: word_le_nat_alt)
  let ?m = "copied_above dst src (unat i) (unat n) m"
  have "\<not> (in_region dst (unat n) (src + (i - 1)) \<and> \<not> in_region dst (unat i) (src + (i - 1)))"
    using ahead [of i "src + (i - 1) - dst"] i Suc.prems
    by (auto simp: in_region_def word_less_nat_alt word_le_nat_alt not_less)
  then have "?m (src + (i - 1)) = m (src + (i - 1))" by (auto simp: copied_above_def)
  then show ?case
    using Suc.hyps(1) [OF k le] copied_above_step [OF i Suc.prems] i
    by (simp add: memmove_down.simps [of dst src i])
qed

lemma memmove_eq:
  assumes "unat dst + unat n \<le> 4294967296" "unat src + unat n \<le> 4294967296"
  shows "memmove dst src n m = (dst, copied dst src (unat n) m)"
proof (cases "dst < src")
  case True
  have "src + i \<noteq> dst + j" if "i < n" "j < i" for i j
  proof -
    have "unat (src + i) = unat src + unat i" "unat (dst + j) = unat dst + unat j"
      using assms that by (auto intro!: unat_plus_u32 simp: word_less_nat_alt)
    then show ?thesis using True that by (auto simp: word_less_nat_alt)
  qed
  then show ?thesis using True by (simp add: memmove_def for_loop_copy)
next
  case False
  have "src + (i - 1) \<noteq> dst + j" if "i \<noteq> 0" "i \<le> n" "i \<le> j" "j < n" for i j
  proof -
    have "unat (i - 1) = unat i - 1" "0 < unat i" using that(1) by (simp_all add: unat_minus_one unat_gt_0)
    then have "unat (src + (i - 1)) = unat src + (unat i - 1)" "unat (dst + j) = unat dst + unat j"
      using assms that by (auto simp: word_less_nat_alt word_le_nat_alt unat_plus_u32)
    then show ?thesis using False that \<open>0 < unat i\<close>
      by (auto simp: word_less_nat_alt word_le_nat_alt not_less)
  qed
  then have "memmove_down dst src n (copied_above dst src (unat n) (unat n) m) = copied dst src (unat n) m"
    by (intro memmove_down_copies) auto
  moreover have "copied_above dst src (unat n) (unat n) m = m" by (simp add: copied_above_def)
  ultimately show ?thesis using False by (simp add: memmove_def)
qed

section \<open>Comparing and measuring\<close>

text \<open>\<open>k\<close> is the first of the positions from \<open>i\<close> below \<open>n\<close> at which the two regions differ.\<close>

definition first_diff :: "memory \<Rightarrow> u32 \<Rightarrow> u32 \<Rightarrow> nat \<Rightarrow> nat \<Rightarrow> nat \<Rightarrow> bool" where
  "first_diff m a b i n k \<longleftrightarrow> i \<le> k \<and> k < n \<and> m (a + of_nat k) \<noteq> m (b + of_nat k)
     \<and> (\<forall>j. i \<le> j \<and> j < k \<longrightarrow> m (a + of_nat j) = m (b + of_nat j))"

definition same_bytes :: "memory \<Rightarrow> u32 \<Rightarrow> u32 \<Rightarrow> nat \<Rightarrow> nat \<Rightarrow> bool" where
  "same_bytes m a b i n \<longleftrightarrow> (\<forall>k. i \<le> k \<and> k < n \<longrightarrow> m (a + of_nat k) = m (b + of_nat k))"

lemma same_bytes_Suc:
  "i < n \<Longrightarrow> same_bytes m a b i n \<longleftrightarrow> m (a + of_nat i) = m (b + of_nat i) \<and> same_bytes m a b (Suc i) n"
  unfolding same_bytes_def by (metis Suc_le_eq le_neq_implies_less less_imp_le order_refl)

lemma first_diff_Suc:
  "m (a + of_nat i) = m (b + of_nat i) \<Longrightarrow> first_diff m a b (Suc i) n k \<Longrightarrow> first_diff m a b i n k"
  unfolding first_diff_def by (metis Suc_le_eq le_neq_implies_less less_imp_le)

lemma memcmp_from_cases:
  "same_bytes m a b (unat i) (unat n) \<and> memcmp_from m a b i n = 0
   \<or> (\<exists>k. first_diff m a b (unat i) (unat n) k
        \<and> memcmp_from m a b i n = (if m (a + of_nat k) < m (b + of_nat k) then -1 else 1))"
proof (induction m a b i n rule: memcmp_from.induct)
  case (1 m a b i n)
  consider "\<not> i < n" | "i < n" "m (a + i) \<noteq> m (b + i)" | "i < n" "m (a + i) = m (b + i)" by blast
  then show ?case
  proof cases
    case 1
    then show ?thesis
      by (auto simp: memcmp_from.simps [of m a b i n] same_bytes_def word_less_nat_alt)
  next
    case 2
    then have "first_diff m a b (unat i) (unat n) (unat i)"
      by (auto simp: first_diff_def word_less_nat_alt)
    then show ?thesis using 2
      by (intro disjI2 exI [of _ "unat i"]) (auto simp: memcmp_from.simps [of m a b i n])
  next
    case 3
    have eq: "memcmp_from m a b i n = memcmp_from m a b (i + 1) n"
      using 3 by (simp add: memcmp_from.simps [of m a b i n])
    have suc: "unat (i + 1) = Suc (unat i)" using 3(1) by (rule unat_suc_u32)
    have here: "m (a + of_nat (unat i)) = m (b + of_nat (unat i))" and lt: "unat i < unat n"
      using 3 by (simp_all add: word_less_nat_alt)
    from 3 have "\<not> m (a + i) < m (b + i)" "\<not> m (b + i) < m (a + i)" by auto
    from "1.IH" [OF 3(1) this] show ?thesis
      unfolding eq suc using same_bytes_Suc [OF lt, of m a b] here first_diff_Suc [of m a "unat i" b, OF here] by blast
  qed
qed

text \<open>\<^verbatim>\<open>strlen\<close> finds the first zero byte, and returns exactly when there is one.\<close>

definition c_string :: "memory \<Rightarrow> u32 \<Rightarrow> u8 list \<Rightarrow> bool" where
  "c_string m p bs \<longleftrightarrow> length bs < 4294967296 \<and> (\<forall>i < length bs. bs ! i \<noteq> 0 \<and> m (p + of_nat i) = bs ! i)
     \<and> m (p + of_nat (length bs)) = 0"

lemma strlen_from_steps:
  assumes "\<And>i. i < k \<Longrightarrow> m (p + (l + of_nat i)) \<noteq> 0" "m (p + (l + of_nat k)) = 0"
  shows "strlen_from m p l = Some (l + of_nat k)"
  using assms
proof (induction k arbitrary: l)
  case 0
  then show ?case by (simp add: strlen_from.simps)
next
  case (Suc k)
  have "strlen_from m p (l + 1) = Some (l + 1 + of_nat k)"
  proof (rule Suc.IH)
    show "m (p + (l + 1 + of_nat i)) \<noteq> 0" if "i < k" for i
      using Suc.prems(1) [of "Suc i"] that by (simp add: algebra_simps)
    show "m (p + (l + 1 + of_nat k)) = 0" using Suc.prems(2) by (simp add: algebra_simps)
  qed
  moreover have "m (p + l) \<noteq> 0" using Suc.prems(1) [of 0] by simp
  ultimately show ?case by (simp add: strlen_from.simps [of m p l] algebra_simps)
qed

lemma strlen_c_string: "c_string m p bs \<Longrightarrow> strlen p m = Some (of_nat (length bs))"
  using strlen_from_steps [of "length bs" m p 0] by (auto simp: c_string_def strlen_def)

lemma strlen_from_zero:
  assumes "strlen_from m p l = Some n" shows "m (p + n) = 0"
  by (rule strlen_from.raw_induct [OF _ assms]) (auto split: if_splits)

lemma strlen_least:
  assumes "m x = 0"
  shows "\<exists>k < 4294967296. strlen p m = Some (of_nat k) \<and> m (p + of_nat k) = 0
     \<and> (\<forall>i < k. m (p + of_nat i) \<noteq> 0)"
proof -
  have ex: "m (p + of_nat (unat (x - p))) = 0" using assms by simp
  define k where "k = (LEAST k. m (p + of_nat k) = 0)"
  have k: "m (p + of_nat k) = 0" unfolding k_def by (rule LeastI [of _ "unat (x - p)"]) (rule ex)
  have before: "\<forall>i < k. m (p + of_nat i) \<noteq> 0"
    using not_less_Least unfolding k_def by blast
  have "k \<le> unat (x - p)" unfolding k_def by (rule Least_le) (rule ex)
  then have "k < 4294967296" using unat_u32_lt [of "x - p"] by simp
  moreover have "strlen p m = Some (of_nat k)"
    using k before strlen_from_steps [of k m p 0] by (simp add: strlen_def)
  ultimately show ?thesis using k before by blast
qed

lemma strlen_returns_iff: "(\<exists>n. strlen p m = Some n) \<longleftrightarrow> (\<exists>x. m x = 0)"
proof
  show "\<exists>n. strlen p m = Some n \<Longrightarrow> \<exists>x. m x = 0"
    by (auto simp: strlen_def dest: strlen_from_zero)
  show "\<exists>x. m x = 0 \<Longrightarrow> \<exists>n. strlen p m = Some n" using strlen_least by blast
qed

definition mem_bytes :: "memory \<Rightarrow> u32 \<Rightarrow> nat \<Rightarrow> u8 list" where
  "mem_bytes m p n = map (\<lambda>i. m (p + of_nat i)) [0..<n]"

lemma strlen_SomeD: "strlen p m = Some n \<Longrightarrow> c_string m p (mem_bytes m p (unat n))"
proof -
  assume n: "strlen p m = Some n"
  then have "m (p + n) = 0" by (auto simp: strlen_def dest: strlen_from_zero)
  from strlen_least [of m, OF this, of p] n obtain k
    where "k < 4294967296" "n = of_nat k" "m (p + of_nat k) = 0" "\<forall>i < k. m (p + of_nat i) \<noteq> 0"
    by auto
  then show ?thesis by (simp add: c_string_def mem_bytes_def unat_of_nat_u32)
qed

lemma c_string_Nil [simp]: "c_string m p [] \<longleftrightarrow> m p = 0"
  by (simp add: c_string_def)

lemma c_string_ConsD:
  assumes "c_string m p (b # bs)" shows "m p = b" "b \<noteq> 0" "c_string m (p + 1) bs"
proof -
  have at: "(b # bs) ! i \<noteq> 0 \<and> m (p + of_nat i) = (b # bs) ! i" if "i < Suc (length bs)" for i
    using assms that by (simp add: c_string_def)
  show "m p = b" "b \<noteq> 0" using at [of 0] by simp_all
  have "bs ! i \<noteq> 0 \<and> m (p + 1 + of_nat i) = bs ! i" if "i < length bs" for i
    using at [of "Suc i"] that by (simp add: algebra_simps)
  moreover have "m (p + 1 + of_nat (length bs)) = 0"
    using assms by (simp add: c_string_def algebra_simps)
  ultimately show "c_string m (p + 1) bs" using assms by (simp add: c_string_def)
qed

lemma mem_bytes_Suc: "mem_bytes m p (Suc n) = m p # mem_bytes m (p + 1) n"
proof -
  have "[0..<Suc n] = 0 # map Suc [0..<n]" by (simp add: map_Suc_upt upt_conv_Cons del: upt_Suc)
  then show ?thesis by (simp add: mem_bytes_def comp_def add.assoc del: upt_Suc)
qed

text \<open>The reference for \<^verbatim>\<open>memcmp\<close>: the three-way order of two byte sequences at their first difference.\<close>

fun byte_order :: "u8 list \<Rightarrow> u8 list \<Rightarrow> int" where
  "byte_order (x # xs) (y # ys) = (if x < y then - 1 else if y < x then 1 else byte_order xs ys)"
| "byte_order _ _ = 0"

lemma memcmp_from_order:
  "memcmp_from m a b i n = byte_order (mem_bytes m (a + i) (unat n - unat i)) (mem_bytes m (b + i) (unat n - unat i))"
proof (induction m a b i n rule: memcmp_from.induct)
  case (1 m a b i n)
  show ?case
  proof (cases "i < n")
    case True
    then have "unat n - unat i = Suc (unat n - unat (i + 1))"
      using unat_suc_u32 [OF True] by (simp add: word_less_nat_alt)
    then show ?thesis using 1 True
      by (simp add: memcmp_from.simps [of m a b i n] mem_bytes_Suc add.assoc)
  next
    case False
    then show ?thesis by (simp add: memcmp_from.simps [of m a b i n] mem_bytes_def word_less_nat_alt)
  qed
qed

lemma mem_bytes_copied: "n \<le> 4294967296 \<Longrightarrow> mem_bytes (copied dst src n m) dst n = mem_bytes m src n"
  by (auto simp: mem_bytes_def copied_def in_region_offset)

section \<open>Properties\<close>

text \<open>
  C33. \<^verbatim>\<open>memmove\<close> on two regions that do not run over the end of the address space, however they
  overlap, leaves in the target the bytes the source held before the call, changes nothing
  outside the target and returns the target.
\<close>

theorem memmove_copies:
  assumes "unat dst + unat n \<le> 4294967296" "unat src + unat n \<le> 4294967296"
  shows "\<exists>m'. memmove dst src n m = (dst, m') \<and> mem_bytes m' dst (unat n) = mem_bytes m src (unat n)
    \<and> same_outside (in_region dst (unat n)) m m'"
proof -
  have "same_outside (in_region dst (unat n)) m (copied dst src (unat n) m)"
    by (simp add: same_outside_def copied_def)
  then show ?thesis
    using memmove_eq [OF assms, of m] mem_bytes_copied [of "unat n"] unat_u32_lt [of n] by simp
qed

theorem memmove_copies_witness:
  "\<exists>m'. memmove 0x1002 0x1000 4 (\<lambda>x. ucast x) = (0x1002, m') \<and> mem_bytes m' 0x1002 4 = [0, 1, 2, 3]"
  using memmove_copies [of "0x1002" 4 "0x1000" "\<lambda>x. ucast x"] by (auto simp: mem_bytes_def upt_rec)

text \<open>
  \<^verbatim>\<open>memcmp\<close> is the three-way comparison of the two byte sequences at their first difference,
  bytes read as unsigned.
\<close>

theorem memcmp_three_way:
  "memcmp a b n m = byte_order (mem_bytes m a (unat n)) (mem_bytes m b (unat n))"
  by (simp add: memcmp_def memcmp_from_order)

text \<open>
  \<^verbatim>\<open>strlen\<close> returns exactly when there is a zero byte in memory, and its result is the number
  of bytes before the first zero byte from the start of the string.
\<close>

theorem strlen_first_zero:
  "(strlen p m \<noteq> None) = (\<exists>x. m x = 0) \<and> (strlen p m = Some n) = c_string m p (mem_bytes m p (unat n))"
proof (intro conjI iffI)
  show "\<exists>x. m x = 0" if "strlen p m \<noteq> None" using that strlen_returns_iff by (metis not_None_eq)
  show "strlen p m \<noteq> None" if "\<exists>x. m x = 0" using that strlen_returns_iff [of p m] by auto
  show "strlen p m = Some n" if "c_string m p (mem_bytes m p (unat n))"
    using strlen_c_string [OF that] by (simp add: mem_bytes_def)
qed (rule strlen_SomeD)

end
