(* ===== verification/Serial.thy ===== *)
theory Serial
  imports Machine Libc_String
begin

text \<open>
  The serial console, \<^verbatim>\<open>kernel/kernel/serial.c\<close>: the number printer \<^verbatim>\<open>itoa\<close>, \<^verbatim>\<open>strcpy\<close>, the
  formatter \<^verbatim>\<open>vsprintf_helper\<close> with its two sinks (a buffer in memory, or a character function),
  the UART driver on COM1 and \<^verbatim>\<open>qemu_printf\<close>.

  A format is a C string literal, given as the list of its characters; the variable arguments
  are the list of the 32-bit words that the caller pushed.  The formatter's 512-byte buffer is
  the list \<open>buf\<close>.  In the source \<^verbatim>\<open>size_override\<close> is 0 throughout, so \<^verbatim>\<open>size\<close> always equals \<^verbatim>\<open>len\<close>
  and the zero padding guarded by \<^verbatim>\<open>len < size\<close> is never entered; it has no counterpart here.

  The lemmas show that \<^verbatim>\<open>itoa\<close> writes the positional numeral of its argument within 33 bytes,
  that the numeral reads back as the argument, that a character sent to the UART arrives once
  the transmitter is empty, and, through the locale \<open>char_sink\<close>, that the formatter sends
  exactly the reference rendering of its format to its sink.
\<close>

section \<open>Numbers\<close>

definition digit_char :: "u32 \<Rightarrow> u8" where
  "digit_char tmp = (if tmp < 10 then ucast (tmp + 0x30) else ucast (tmp + 0x61 - 10))"

partial_function (option) itoa_digits ::
  "u8 list \<Rightarrow> u32 \<Rightarrow> u32 \<Rightarrow> nat \<Rightarrow> (u8 list \<times> nat) option" where
  "itoa_digits buf n base i =
     (if base = 0 \<or> length buf \<le> i then None
      else if n div base \<noteq> 0
      then itoa_digits (buf[i := digit_char (n mod base)]) (n div base) base (i + 1)
      else Some (buf[i := digit_char (n mod base)], i + 1))"

function itoa_reverse :: "u8 list \<Rightarrow> nat \<Rightarrow> nat \<Rightarrow> u8 list" where
  "itoa_reverse buf j i =
     (if j < i then itoa_reverse (buf[j := buf ! i, i := buf ! j]) (j + 1) (i - 1) else buf)"
  by pat_completeness auto
termination
  by (relation "measure (\<lambda>(buf, j, i). i - j)") auto

declare itoa_reverse.simps [simp del]

definition itoa :: "u8 list \<Rightarrow> u32 \<Rightarrow> u32 \<Rightarrow> u8 list option" where
  "itoa buf n base =
     do {
       (buf', i) \<leftarrow> itoa_digits buf n base 0;
       if i < length buf' then Some (itoa_reverse (buf'[i := 0]) 0 (i - 1)) else None
     }"

text \<open>The string a buffer holds: its bytes up to the terminator.\<close>

definition buf_text :: "u8 list \<Rightarrow> u8 list" where
  "buf_text buf = takeWhile (\<lambda>b. b \<noteq> 0) buf"

section \<open>Copying strings\<close>

text \<open>
  \<^verbatim>\<open>strcpy\<close> with its source given by a reader: the formatter copies out of its local buffer and
  out of memory, and the copy may overwrite the memory it reads.
\<close>

partial_function (option) strcpy_from ::
  "(u32 \<Rightarrow> memory \<Rightarrow> u8) \<Rightarrow> u32 \<Rightarrow> u32 \<Rightarrow> memory \<Rightarrow> (u32 \<times> memory) option" where
  "strcpy_from src dst i m =
     (if src i m \<noteq> 0 then strcpy_from src dst (i + 1) (m(dst + i := src i m))
      else Some (i, m(dst + i := src i m)))"

definition strcpy :: "u32 \<Rightarrow> (u32 \<Rightarrow> memory \<Rightarrow> u8) \<Rightarrow> memory \<Rightarrow> (u32 \<times> memory) option" where
  "strcpy dst src m = strcpy_from src dst 0 m"

section \<open>The formatter\<close>

definition emit :: "u32 \<Rightarrow> (u8 \<Rightarrow> 'a machine_scheme \<Rightarrow> 'a machine_scheme option) \<Rightarrow> u8 \<Rightarrow>
    u32 \<Rightarrow> 'a machine_scheme \<Rightarrow> (u32 \<times> 'a machine_scheme) option" where
  "emit str putchar c pos s =
     (if str \<noteq> 0 then Some (pos + 1, s\<lparr>mem := (mem s)(str + pos := c)\<rparr>)
      else map_option (Pair pos) (putchar c s))"

fun put_list :: "(u8 \<Rightarrow> 's \<Rightarrow> 's option) \<Rightarrow> u8 list \<Rightarrow> 's \<Rightarrow> 's option" where
  "put_list putchar [] s = Some s"
| "put_list putchar (c # cs) s = Option.bind (putchar c s) (put_list putchar cs)"

partial_function (option) put_mem ::
  "(u8 \<Rightarrow> 'a machine_scheme \<Rightarrow> 'a machine_scheme option) \<Rightarrow> u32 \<Rightarrow> 'a machine_scheme \<Rightarrow>
   'a machine_scheme option" where
  "put_mem putchar t s =
     (if mem s t \<noteq> 0 then Option.bind (putchar (mem s t) s) (\<lambda>s'. put_mem putchar (t + 1) s')
      else Some s)"

text \<open>The conversions \<^verbatim>\<open>%0 %d %u %x %p\<close>, once the argument is fetched; \<^verbatim>\<open>%0\<close> falls through.\<close>

definition fmt_number :: "u32 \<Rightarrow> (u8 \<Rightarrow> 'a machine_scheme \<Rightarrow> 'a machine_scheme option) \<Rightarrow> char \<Rightarrow> u32 \<Rightarrow>
    u8 list \<Rightarrow> u32 \<Rightarrow> 'a machine_scheme \<Rightarrow> (u8 list \<times> u32 \<times> 'a machine_scheme) option" where
  "fmt_number str putchar c ival buf pos s =
     do {
       let sys = (if c = CHR ''d'' \<or> c = CHR ''u'' then 10 else 16);
       let sign = (c = CHR ''d'' \<and> sint ival < 0);
       let uval = (if sign then - ival else ival);
       buf \<leftarrow> itoa buf uval sys;
       (pos, s) \<leftarrow> (if sign then emit str putchar 0x2D pos s else Some (pos, s));
       if str \<noteq> 0
       then do {
         (n, m) \<leftarrow> strcpy (str + pos) (buf_reader buf) (mem s);
         Some (buf, pos + of_nat (length (buf_text buf)), s\<lparr>mem := m\<rparr>)
       }
       else map_option (\<lambda>s. (buf, pos, s)) (put_list putchar (buf_text buf) s)
     }"

definition fmt_string :: "u32 \<Rightarrow> (u8 \<Rightarrow> 'a machine_scheme \<Rightarrow> 'a machine_scheme option) \<Rightarrow> u32 \<Rightarrow>
    u32 \<Rightarrow> 'a machine_scheme \<Rightarrow> (u32 \<times> 'a machine_scheme) option" where
  "fmt_string str putchar t pos s =
     (if str \<noteq> 0
      then do {
        (n, m) \<leftarrow> strcpy (str + pos) (mem_reader t) (mem s);
        len \<leftarrow> strlen t m;
        Some (pos + len, s\<lparr>mem := m\<rparr>)
      }
      else map_option (Pair pos) (put_mem putchar t s))"

fun vsprintf_helper :: "u32 \<Rightarrow> (u8 \<Rightarrow> 'a machine_scheme \<Rightarrow> 'a machine_scheme option) \<Rightarrow> string \<Rightarrow>
    u32 list \<Rightarrow> u8 list \<Rightarrow> u32 \<Rightarrow> 'a machine_scheme \<Rightarrow> (u32 \<times> 'a machine_scheme) option" where
  "vsprintf_helper str putchar [] args buf pos s = Some (pos, s)"
| "vsprintf_helper str putchar (c # format) args buf pos s =
     (if c = CHR ''%'' then
        (case format of
           [] \<Rightarrow> None
         | d # format' \<Rightarrow>
             if d \<in> {CHR ''0'', CHR ''d'', CHR ''u'', CHR ''x'', CHR ''p''} then
               (case args of
                  [] \<Rightarrow> None
                | a # args' \<Rightarrow>
                    (case fmt_number str putchar d a buf pos s of
                       None \<Rightarrow> None
                     | Some (buf', pos', s') \<Rightarrow> vsprintf_helper str putchar format' args' buf' pos' s'))
             else if d = CHR ''c'' then
               (case args of
                  [] \<Rightarrow> None
                | a # args' \<Rightarrow>
                    (case emit str putchar (ucast a) pos s of
                       None \<Rightarrow> None
                     | Some (pos', s') \<Rightarrow> vsprintf_helper str putchar format' args' buf pos' s'))
             else if d = CHR ''s'' then
               (case args of
                  [] \<Rightarrow> None
                | a # args' \<Rightarrow>
                    (case fmt_string str putchar a pos s of
                       None \<Rightarrow> None
                     | Some (pos', s') \<Rightarrow> vsprintf_helper str putchar format' args' buf pos' s'))
             else vsprintf_helper str putchar format' args buf pos s)
      else
        (case emit str putchar (of_char c) pos s of
           None \<Rightarrow> None
         | Some (pos', s') \<Rightarrow> vsprintf_helper str putchar format args buf pos' s'))"

definition vsprintf :: "u32 \<Rightarrow> (u8 \<Rightarrow> 'a machine_scheme \<Rightarrow> 'a machine_scheme option) \<Rightarrow> string \<Rightarrow>
    u32 list \<Rightarrow> 'a machine_scheme \<Rightarrow> 'a machine_scheme option" where
  "vsprintf str putchar format args s =
     map_option snd (vsprintf_helper str putchar format args (replicate 512 0) 0 s)"

section \<open>The UART\<close>

abbreviation PORT :: u16 where "PORT \<equiv> 0x3f8"

definition serial_received :: "'a machine_scheme \<Rightarrow> u8 \<times> 'a machine_scheme" where
  "serial_received s = (let (v, s') = inportb (PORT + 5) s in (v AND 1, s'))"

partial_function (option) read_serial :: "'a machine_scheme \<Rightarrow> (u8 \<times> 'a machine_scheme) option" where
  "read_serial s =
     (if fst (serial_received s) = 0 then read_serial (snd (serial_received s))
      else Some (inportb PORT (snd (serial_received s))))"

definition is_transmit_empty :: "'a machine_scheme \<Rightarrow> u8 \<times> 'a machine_scheme" where
  "is_transmit_empty s = (let (v, s') = inportb (PORT + 5) s in (v AND 0x20, s'))"

partial_function (option) write_serial :: "u8 \<Rightarrow> 'a machine_scheme \<Rightarrow> 'a machine_scheme option" where
  "write_serial a s =
     (if fst (is_transmit_empty s) = 0 then write_serial a (snd (is_transmit_empty s))
      else Some (outportb PORT a (snd (is_transmit_empty s))))"

definition qemu_printf :: "string \<Rightarrow> u32 list \<Rightarrow> 'a machine_scheme \<Rightarrow> 'a machine_scheme option" where
  "qemu_printf format args s = vsprintf 0 write_serial format args s"

definition serial_init :: "'a machine_scheme \<Rightarrow> 'a machine_scheme" where
  "serial_init s = outportb_all
     [(PORT + 1, 0x00), (PORT + 3, 0x80), (PORT + 0, 0x03), (PORT + 1, 0x00),
      (PORT + 3, 0x03), (PORT + 2, 0xC7), (PORT + 4, 0x0B)] s"

section \<open>Numerals\<close>

text \<open>The reference: the digits of a number, most significant first, and their characters.\<close>

fun nat_digits :: "nat \<Rightarrow> nat \<Rightarrow> nat list" where
  "nat_digits b n = (if n < b \<or> b < 2 then [n] else nat_digits b (n div b) @ [n mod b])"

declare nat_digits.simps [simp del]

definition digit_byte :: "nat \<Rightarrow> u8" where
  "digit_byte d = (if d < 10 then of_nat (d + 0x30) else of_nat (d + 0x57))"

definition number_text :: "nat \<Rightarrow> nat \<Rightarrow> u8 list" where
  "number_text b n = map digit_byte (nat_digits b n)"

definition byte_digit :: "u8 \<Rightarrow> nat" where
  "byte_digit c = (if unat c < 0x3A then unat c - 0x30 else unat c - 0x57)"

definition text_number :: "nat \<Rightarrow> u8 list \<Rightarrow> nat" where
  "text_number b cs = foldl (\<lambda>acc c. acc * b + byte_digit c) 0 cs"

lemma nat_digits_range: "2 \<le> b \<Longrightarrow> d \<in> set (nat_digits b n) \<Longrightarrow> d < b"
proof (induction b n rule: nat_digits.induct)
  case (1 b n)
  then show ?case by (cases "n < b") (auto simp: nat_digits.simps [of b n])
qed

lemma nat_digits_nonempty [simp]: "nat_digits b n \<noteq> []"
  by (simp add: nat_digits.simps [of b n])

lemma nat_digits_length: "n < b ^ k \<Longrightarrow> 0 < k \<Longrightarrow> length (nat_digits b n) \<le> k"
proof (induction k arbitrary: n)
  case (Suc k)
  show ?case
  proof (cases "n < b \<or> b < 2")
    case False
    with Suc.prems have k: "0 < k" by (cases k) auto
    have "n div b < b ^ k" using Suc.prems(1) False by (simp add: less_mult_imp_div_less mult.commute)
    then show ?thesis using Suc.IH k False by (simp add: nat_digits.simps [of b n])
  qed (auto simp: nat_digits.simps [of b n])
qed simp

lemma nat_less_16:
  "(d::nat) < 16 \<longleftrightarrow> d \<in> {0, 1, 2, 3, 4, 5, 6, 7, 8, 9, 10, 11, 12, 13, 14, 15}"
  unfolding insert_iff empty_iff by arith

lemma byte_digit_digit_byte: "d < 16 \<Longrightarrow> byte_digit (digit_byte d) = d"
  unfolding nat_less_16 by (elim insertE emptyE) (simp_all add: byte_digit_def digit_byte_def)

lemma digit_byte_nonzero: "d < 16 \<Longrightarrow> digit_byte d \<noteq> 0"
  unfolding nat_less_16 by (elim insertE emptyE) (simp_all add: digit_byte_def)

lemma text_number_append:
  "text_number b (cs @ [c]) = text_number b cs * b + byte_digit c"
  by (simp add: text_number_def)

lemma text_number_number_text:
  assumes "2 \<le> b" "b \<le> 16" shows "text_number b (number_text b n) = n"
  using assms
proof (induction b n rule: nat_digits.induct)
  case (1 b n)
  show ?case
  proof (cases "n < b")
    case True
    then show ?thesis using 1
      by (simp add: number_text_def nat_digits.simps [of b n] text_number_def byte_digit_digit_byte)
  next
    case False
    then have "number_text b n = number_text b (n div b) @ [digit_byte (n mod b)]"
      using 1 by (simp add: number_text_def nat_digits.simps [of b n])
    moreover have "n mod b < 16" using 1
      by (metis le_trans less_le_trans mod_less_divisor not_numeral_le_zero not_less zero_less_iff_neq_zero)
    ultimately show ?thesis using 1 False
      by (simp add: text_number_append byte_digit_digit_byte)
  qed
qed

lemma digit_char_of_nat: "d < 16 \<Longrightarrow> digit_char (of_nat d) = digit_byte d"
  unfolding nat_less_16
  by (elim insertE emptyE) (simp_all add: digit_char_def digit_byte_def)

lemma digit_char_digit_byte: "t < 16 \<Longrightarrow> digit_char t = digit_byte (unat t)"
  using digit_char_of_nat [of "unat t"] by (simp add: word_less_nat_alt)

lemma nth_append_mid: "length pre = k \<Longrightarrow> (pre @ x # post) ! k = x"
  by (simp add: nth_append)

lemma update_append_mid: "length pre = k \<Longrightarrow> (pre @ x # post)[k := y] = pre @ y # post"
  by (simp add: list_update_append)

lemma itoa_reverse_rev:
  "length pre = j \<Longrightarrow> length mid = Suc i - j \<Longrightarrow> itoa_reverse (pre @ mid @ post) j i = pre @ rev mid @ post"
proof (induction "length mid" arbitrary: pre mid post j i rule: less_induct)
  case less
  show ?case
  proof (cases "j < i")
    case False
    then have "length mid \<le> 1" using less.prems by auto
    then have "rev mid = mid" by (cases mid) auto
    then show ?thesis using False by (simp add: itoa_reverse.simps)
  next
    case True
    with less.prems have "2 \<le> length mid" by auto
    then obtain a mid' b where mid: "mid = a # mid' @ [b]"
      by (metis (no_types) One_nat_def Suc_1 Suc_le_length_iff append_butlast_last_id list.size(3) nat.simps(3) not_less_eq_eq le_zero_eq)
    let ?buf = "pre @ mid @ post"
    have i: "length (pre @ a # mid') = i" using less.prems mid True by auto
    have nth: "?buf ! j = a" "?buf ! i = b"
      using nth_append_mid [OF less.prems(1), of a "mid' @ b # post"]
        nth_append_mid [OF i, of b post] mid by simp_all
    have "?buf[j := b, i := a] = (pre @ [b]) @ mid' @ (a # post)"
      using update_append_mid [OF less.prems(1), of a "mid' @ b # post" b]
        update_append_mid [of "pre @ b # mid'" i b post a] i mid by simp
    moreover have "itoa_reverse ?buf j i = itoa_reverse (?buf[j := ?buf ! i, i := ?buf ! j]) (j + 1) (i - 1)"
      using True by (subst itoa_reverse.simps) simp
    moreover have "itoa_reverse ((pre @ [b]) @ mid' @ (a # post)) (j + 1) (i - 1)
        = (pre @ [b]) @ rev mid' @ (a # post)"
      by (rule less.hyps) (use less.prems mid True in auto)
    ultimately show ?thesis unfolding nth using mid by simp
  qed
qed

lemma itoa_digits_eq:
  assumes "2 \<le> base" "base \<le> 16" "i + length (nat_digits (unat base) (unat n)) \<le> length buf"
  shows "itoa_digits buf n base i =
     Some (take i buf @ rev (number_text (unat base) (unat n)) @
             drop (i + length (nat_digits (unat base) (unat n))) buf,
           i + length (nat_digits (unat base) (unat n)))"
  using assms(3)
proof (induction "unat n" arbitrary: n i buf rule: less_induct)
  case less
  have b: "2 \<le> unat base" "unat base \<le> 16" "base \<noteq> 0"
    using assms(1,2) by (auto simp: word_le_nat_alt)
  let ?d = "digit_byte (unat n mod unat base)"
  have "unat n mod unat base < unat base" using b(1) by simp
  then have "n mod base < 16" using b(2) by (simp add: word_less_nat_alt unat_mod del: pos_mod_bound)
  then have d: "digit_char (n mod base) = ?d" by (simp add: digit_char_digit_byte unat_mod)
  have ilt: "i < length buf" using less.prems by (cases "nat_digits (unat base) (unat n)") auto
  have upd: "buf[i := ?d] = take i buf @ ?d # drop (Suc i) buf" using ilt by (simp add: upd_conv_take_nth_drop)
  have zero: "n div base = 0 \<longleftrightarrow> unat n < unat base"
    using b(1) by (metis div_eq_0_iff div_less not_less not_numeral_le_zero unat_div unat_eq_zero)
  show ?case
  proof (cases "unat n < unat base")
    case True
    then show ?thesis using zero d upd ilt b
      by (simp add: itoa_digits.simps [of buf] nat_digits.simps [of "unat base" "unat n"] number_text_def)
  next
    case False
    let ?q = "n div base"
    have q: "unat ?q = unat n div unat base" by (simp add: unat_div)
    have nd: "nat_digits (unat base) (unat n) = nat_digits (unat base) (unat ?q) @ [unat n mod unat base]"
      using False b(1) q by (simp add: nat_digits.simps [of "unat base" "unat n"])
    have "itoa_digits (buf[i := ?d]) ?q base (i + 1) =
      Some (take (i + 1) (buf[i := ?d]) @ rev (number_text (unat base) (unat ?q)) @
             drop (i + 1 + length (nat_digits (unat base) (unat ?q))) (buf[i := ?d]),
           i + 1 + length (nat_digits (unat base) (unat ?q)))"
    proof (rule less.hyps)
      show "unat ?q < unat n" using q b(1) False by (simp add: div_less_dividend)
      show "i + 1 + length (nat_digits (unat base) (unat ?q)) \<le> length (buf[i := ?d])"
        using less.prems nd by simp
    qed
    moreover have "take (i + 1) (buf[i := ?d]) = take i buf @ [?d]"
      using ilt upd by simp
    moreover have "drop (i + 1 + k) (buf[i := ?d]) = drop (i + 1 + k) buf" for k
      by simp
    ultimately show ?thesis using zero False d ilt b nd
      by (simp add: itoa_digits.simps [of buf] number_text_def)
  qed
qed

lemma number_text_nonzero:
  "2 \<le> b \<Longrightarrow> b \<le> 16 \<Longrightarrow> c \<in> set (number_text b n) \<Longrightarrow> c \<noteq> 0"
  using nat_digits_range [of b _ n] digit_byte_nonzero unfolding number_text_def by fastforce

lemma unat_digits_length: "2 \<le> b \<Longrightarrow> length (nat_digits b (unat (n :: u32))) \<le> 32"
proof -
  assume b: "2 \<le> b"
  have "(2::nat) ^ 32 \<le> b ^ 32" using b by (rule power_mono) simp
  then have "unat n < b ^ 32" using unat_u32_lt [of n] by simp
  then show ?thesis by (rule nat_digits_length) simp
qed

lemma itoa_eq:
  assumes "2 \<le> base" "base \<le> 16" "33 \<le> length buf"
  shows "\<exists>rest. itoa buf n base = Some (number_text (unat base) (unat n) @ 0 # rest)
     \<and> length (number_text (unat base) (unat n) @ 0 # rest) = length buf"
proof -
  let ?t = "number_text (unat base) (unat n)" and ?k = "length (nat_digits (unat base) (unat n))"
  have b: "2 \<le> unat base" using assms(1) by (simp add: word_le_nat_alt)
  have k: "?k \<le> 32" "length ?t = ?k" "?k \<noteq> 0"
    using unat_digits_length [OF b] by (simp_all add: number_text_def)
  obtain x rest where rest: "drop ?k buf = x # rest"
    using k assms(3) by (cases "drop ?k buf") auto
  have "itoa_digits buf n base 0 = Some (rev ?t @ x # rest, ?k)"
    using itoa_digits_eq [OF assms(1,2), of 0 n buf] k assms(3) rest by simp
  moreover have "(rev ?t @ x # rest)[?k := 0] = rev ?t @ 0 # rest"
    using k by (intro update_append_mid) simp
  moreover have "itoa_reverse ([] @ rev ?t @ 0 # rest) 0 (?k - 1) = [] @ rev (rev ?t) @ 0 # rest"
    using k by (intro itoa_reverse_rev) auto
  ultimately have "itoa buf n base = Some (?t @ 0 # rest)" using k by (simp add: itoa_def)
  moreover have "length (?t @ 0 # rest) = length buf"
    using k(2) arg_cong [OF rest, of length] k(1) assms(3) by simp
  ultimately show ?thesis by blast
qed

section \<open>What the formatter writes\<close>

text \<open>
  The reference rendering of a format: \<open>None\<close> when the format ends in a lone percent sign, an
  argument is missing, or a string argument has no terminator.
\<close>

definition conv_text :: "char \<Rightarrow> u32 \<Rightarrow> u8 list" where
  "conv_text d a =
     (if d = CHR ''d'' then (if sint a < 0 then [0x2D] else []) @ number_text 10 (nat \<bar>sint a\<bar>)
      else if d = CHR ''u'' then number_text 10 (unat a)
      else number_text 16 (unat a))"

fun render :: "memory \<Rightarrow> string \<Rightarrow> u32 list \<Rightarrow> u8 list option" where
  "render m [] args = Some []"
| "render m (c # f) args =
     (if c \<noteq> CHR ''%'' then map_option (\<lambda>r. of_char c # r) (render m f args)
      else case f of
        [] \<Rightarrow> None
      | d # f' \<Rightarrow>
          if d \<in> {CHR ''0'', CHR ''d'', CHR ''u'', CHR ''x'', CHR ''p'', CHR ''c'', CHR ''s''} then
            (case args of
               [] \<Rightarrow> None
             | a # args' \<Rightarrow>
                 do {
                   t \<leftarrow> (if d = CHR ''c'' then Some [ucast a]
                         else if d = CHR ''s'' then map_option (\<lambda>n. mem_bytes m a (unat n)) (strlen a m)
                         else Some (conv_text d a));
                   r \<leftarrow> render m f' args';
                   Some (t @ r)
                 })
          else render m f' args)"

lemma buf_text_append: "0 \<notin> set t \<Longrightarrow> buf_text (t @ 0 # rest) = t"
  unfolding buf_text_def by (subst takeWhile_append2) auto

lemma itoa_buf_text:
  assumes "2 \<le> base" "base \<le> 16" "33 \<le> length buf"
  shows "\<exists>buf'. itoa buf n base = Some buf' \<and> length buf' = length buf
     \<and> buf_text buf' = number_text (unat base) (unat n)"
proof -
  have b: "2 \<le> unat base" "unat base \<le> 16" using assms(1,2) by (auto simp: word_le_nat_alt)
  have "0 \<notin> set (number_text (unat base) (unat n))" using number_text_nonzero [OF b] by blast
  then show ?thesis using itoa_eq [OF assms, of n] by (auto simp: buf_text_append)
qed

lemma unat_abs_sint: "sint (a :: u32) < 0 \<Longrightarrow> unat (- a) = nat \<bar>sint a\<bar>"
proof -
  assume neg: "sint a < 0"
  then have a: "unat a = nat (sint a + 4294967296)" by (simp add: unat_of_sint)
  then have "0 < unat a" using sint_bounds(1) [of a] by auto
  then have "unat (0 - a) = unat (0 :: u32) + 4294967296 - unat a"
    by (intro unat_diff_wrap_u32) simp
  then show ?thesis using neg a sint_bounds(1) [of a] by simp
qed

lemma nat_sint_nonneg: "\<not> sint (a :: u32) < 0 \<Longrightarrow> nat (sint a) = unat a"
  by (simp add: unat_of_sint)

text \<open>
  A sink for characters: while it is \<open>ok\<close>, it accepts every character, appends its
  encoding to its output and leaves the rest of the state, the memory in particular, alone.
\<close>

locale char_sink =
  fixes put :: "u8 \<Rightarrow> 'a machine_scheme \<Rightarrow> 'a machine_scheme option"
    and ok :: "'a machine_scheme \<Rightarrow> bool"
    and out :: "'a machine_scheme \<Rightarrow> 'o list"
    and enc :: "u8 \<Rightarrow> 'o"
    and rest :: "'a machine_scheme \<Rightarrow> 'a machine_scheme"
  assumes put: "ok s \<Longrightarrow> \<exists>s'. put c s = Some s' \<and> ok s' \<and> out s' = out s @ [enc c] \<and> rest s' = rest s"
    and rest_mem: "rest s' = rest s \<Longrightarrow> mem s' = mem s"
begin

lemma put_list_sends:
  "ok s \<Longrightarrow> \<exists>s'. put_list put bs s = Some s' \<and> ok s' \<and> out s' = out s @ map enc bs \<and> rest s' = rest s"
proof (induction bs arbitrary: s)
  case (Cons b bs)
  from put [OF Cons.prems, of b] obtain s1
    where s1: "put b s = Some s1" "ok s1" "out s1 = out s @ [enc b]" "rest s1 = rest s" by blast
  from Cons.IH [OF s1(2)] s1 show ?case by auto
qed simp

lemma put_mem_sends:
  "ok s \<Longrightarrow> c_string (mem s) t bs \<Longrightarrow>
   \<exists>s'. put_mem put t s = Some s' \<and> ok s' \<and> out s' = out s @ map enc bs \<and> rest s' = rest s"
proof (induction bs arbitrary: s t)
  case Nil
  then show ?case by (auto simp: put_mem.simps)
next
  case (Cons b bs)
  note b = c_string_ConsD [OF Cons.prems(2)]
  from put [OF Cons.prems(1), of b] obtain s1
    where s1: "put b s = Some s1" "ok s1" "out s1 = out s @ [enc b]" "rest s1 = rest s" by blast
  then have "c_string (mem s1) (t + 1) bs" using b(3) rest_mem [OF s1(4)] by simp
  from Cons.IH [OF s1(2) this] obtain s2
    where s2: "put_mem put (t + 1) s1 = Some s2" "ok s2" "out s2 = out s1 @ map enc bs" "rest s2 = rest s1"
    by blast
  have "put_mem put t s = Some s2" using b s1(1) s2(1) by (subst put_mem.simps) simp
  then show ?case using s1 s2 by simp
qed

lemma emit_sends:
  "ok s \<Longrightarrow> \<exists>s'. emit 0 put c pos s = Some (pos, s') \<and> ok s' \<and> out s' = out s @ [enc c] \<and> rest s' = rest s"
  using put [of s c] by (auto simp: emit_def)

lemma fmt_number_sends:
  assumes "ok s" "33 \<le> length buf"
  shows "\<exists>buf' s'. fmt_number 0 put d a buf pos s = Some (buf', pos, s') \<and> length buf' = length buf
     \<and> ok s' \<and> out s' = out s @ map enc (conv_text d a) \<and> rest s' = rest s"
proof -
  let ?sys = "if d = CHR ''d'' \<or> d = CHR ''u'' then 10 else 16 :: u32"
  let ?sign = "d = CHR ''d'' \<and> sint a < 0"
  let ?uval = "if ?sign then - a else a"
  let ?pre = "if ?sign then [0x2D] else [] :: u8 list"
  have "2 \<le> ?sys" "?sys \<le> 16" by auto
  from itoa_buf_text [OF this assms(2), of ?uval] obtain buf'
    where b: "itoa buf ?uval ?sys = Some buf'" "length buf' = length buf"
      "buf_text buf' = number_text (unat ?sys) (unat ?uval)" by blast
  have conv: "conv_text d a = ?pre @ buf_text buf'"
    using b(3) by (auto simp: conv_text_def unat_abs_sint nat_sint_nonneg)
  have "\<exists>s1. (if ?sign then emit 0 put 0x2D pos s else Some (pos, s)) = Some (pos, s1)
     \<and> ok s1 \<and> out s1 = out s @ map enc ?pre \<and> rest s1 = rest s"
    using emit_sends [OF assms(1), of "0x2D" pos] assms(1) by auto
  then obtain s1 where s1: "(if ?sign then emit 0 put 0x2D pos s else Some (pos, s)) = Some (pos, s1)"
     "ok s1" "out s1 = out s @ map enc ?pre" "rest s1 = rest s" by blast
  from put_list_sends [OF s1(2), of "buf_text buf'"] obtain s2
    where "put_list put (buf_text buf') s1 = Some s2" "ok s2"
      "out s2 = out s1 @ map enc (buf_text buf')" "rest s2 = rest s1" by blast
  then show ?thesis using b s1 conv unfolding fmt_number_def Let_def by auto
qed

lemma fmt_string_sends:
  assumes "ok s" "strlen t (mem s) = Some n"
  shows "\<exists>s'. fmt_string 0 put t pos s = Some (pos, s') \<and> ok s'
     \<and> out s' = out s @ map enc (mem_bytes (mem s) t (unat n)) \<and> rest s' = rest s"
  using put_mem_sends [OF assms(1) strlen_SomeD [OF assms(2)]] by (auto simp: fmt_string_def)

lemma vsprintf_helper_sends:
  assumes "ok s" "render (mem s) f args = Some bs" "33 \<le> length buf"
  shows "\<exists>s'. vsprintf_helper 0 put f args buf pos s = Some (pos, s') \<and> ok s'
     \<and> out s' = out s @ map enc bs \<and> rest s' = rest s"
  using assms
proof (induction f arbitrary: args bs buf s rule: length_induct)
  case (1 f)
  show ?case
  proof (cases f)
    case Nil
    then show ?thesis using 1 by auto
  next
    case (Cons c f1)
    show ?thesis
    proof (cases "c = CHR ''%''")
      case False
      obtain s1 where s1: "emit 0 put (of_char c) pos s = Some (pos, s1)" "ok s1"
        "out s1 = out s @ [enc (of_char c)]" "rest s1 = rest s"
        using emit_sends [OF "1.prems"(1), of "of_char c" pos] by blast
      obtain r where r: "render (mem s1) f1 args = Some r" "bs = of_char c # r"
        using "1.prems"(2) Cons False rest_mem [OF s1(4)] by auto
      from "1.IH"[rule_format, OF _ s1(2) r(1) "1.prems"(3)] Cons s1 r False
      show ?thesis by auto
    next
      case pct: True
      then obtain d f2 where f1: "f1 = d # f2" using "1.prems"(2) Cons by (cases f1) auto
      note IH = "1.IH"[rule_format, of f2] 
      have len: "length f2 < length f" using Cons f1 by simp
      consider (num) "d \<in> {CHR ''0'', CHR ''d'', CHR ''u'', CHR ''x'', CHR ''p''}"
        | (chr) "d = CHR ''c''" | (str) "d = CHR ''s''"
        | (other) "d \<notin> {CHR ''0'', CHR ''d'', CHR ''u'', CHR ''x'', CHR ''p'', CHR ''c'', CHR ''s''}"
        by blast
      then show ?thesis
      proof cases
        case num
        then obtain a args' r where a: "args = a # args'" "render (mem s) f2 args' = Some r"
          "bs = conv_text d a @ r"
          using "1.prems"(2) Cons f1 pct by (cases args) (auto split: bind_splits if_splits)
        obtain buf' s1 where s1: "fmt_number 0 put d a buf pos s = Some (buf', pos, s1)"
          "length buf' = length buf" "ok s1" "out s1 = out s @ map enc (conv_text d a)" "rest s1 = rest s"
          using fmt_number_sends [OF "1.prems"(1,3), of d a pos] by blast
        have "render (mem s1) f2 args' = Some r" using a(2) rest_mem [OF s1(5)] by simp
        from IH [OF len s1(3) this] s1 a "1.prems"(3) Cons f1 pct num show ?thesis by auto
      next
        case chr
        then obtain a args' r where a: "args = a # args'" "render (mem s) f2 args' = Some r"
          "bs = ucast a # r"
          using "1.prems"(2) Cons f1 pct by (cases args) (auto split: bind_splits)
        obtain s1 where s1: "emit 0 put (ucast a) pos s = Some (pos, s1)" "ok s1"
          "out s1 = out s @ [enc (ucast a)]" "rest s1 = rest s"
          using emit_sends [OF "1.prems"(1), of "ucast a" pos] by blast
        have "render (mem s1) f2 args' = Some r" using a(2) rest_mem [OF s1(4)] by simp
        from IH [OF len s1(2) this "1.prems"(3)] s1 a Cons f1 pct chr show ?thesis by auto
      next
        case str
        then obtain a args' n r where a: "args = a # args'" "render (mem s) f2 args' = Some r"
          "strlen a (mem s) = Some n" "bs = mem_bytes (mem s) a (unat n) @ r"
          using "1.prems"(2) Cons f1 pct by (cases args) (auto split: bind_splits)
        obtain s1 where s1: "fmt_string 0 put a pos s = Some (pos, s1)" "ok s1"
          "out s1 = out s @ map enc (mem_bytes (mem s) a (unat n))" "rest s1 = rest s"
          using fmt_string_sends [OF "1.prems"(1) a(3), of pos] by blast
        have "render (mem s1) f2 args' = Some r" using a(2) rest_mem [OF s1(4)] by simp
        from IH [OF len s1(2) this "1.prems"(3)] s1 a Cons f1 pct str show ?thesis by auto
      next
        case other
        then have "render (mem s) f2 args = Some bs" using "1.prems"(2) Cons f1 pct by simp
        from IH [OF len "1.prems"(1) this "1.prems"(3)] Cons f1 pct other show ?thesis by simp
      qed
    qed
  qed
qed

lemma vsprintf_sends:
  assumes "ok s" "render (mem s) f args = Some bs"
  shows "\<exists>s'. vsprintf 0 put f args s = Some s' \<and> ok s' \<and> out s' = out s @ map enc bs \<and> rest s' = rest s"
  using vsprintf_helper_sends [OF assms, of "replicate 512 0" 0] by (auto simp: vsprintf_def)

end

section \<open>The UART as a sink\<close>

text \<open>The line status register answers the \<open>k\<close>-th port read with the transmitter empty.\<close>

definition tx_ready :: "'a machine_scheme \<Rightarrow> nat \<Rightarrow> bool" where
  "tx_ready s k \<longleftrightarrow> (ucast (port_env s k (PORT + 5)) AND 0x20 :: u8) \<noteq> 0"

text \<open>A live UART: however often it was read, the transmitter is empty at some later read.\<close>

definition tx_live :: "'a machine_scheme \<Rightarrow> bool" where
  "tx_live s \<longleftrightarrow> (\<forall>n. \<exists>k\<ge>n. tx_ready s k)"

text \<open>Everything but the port traffic.\<close>

definition console_rest :: "'a machine_scheme \<Rightarrow> 'a machine_scheme" where
  "console_rest s = s\<lparr>io := [], in_count := 0\<rparr>"

lemma console_rest_eqD: "console_rest s' = console_rest s \<Longrightarrow> s' = s\<lparr>io := io s', in_count := in_count s'\<rparr>"
proof -
  assume "console_rest s' = console_rest s"
  then have "(console_rest s')\<lparr>io := io s', in_count := in_count s'\<rparr>
      = (console_rest s)\<lparr>io := io s', in_count := in_count s'\<rparr>" by simp
  then show ?thesis by (simp add: console_rest_def)
qed

lemma is_transmit_empty_eq:
  "is_transmit_empty s =
     (ucast (port_env s (in_count s) (PORT + 5)) AND 0x20, s\<lparr>in_count := Suc (in_count s)\<rparr>)"
  by (simp add: is_transmit_empty_def inportb_def)

lemma write_serial_unfold:
  "write_serial a s =
     (if tx_ready s (in_count s) then Some (outportb PORT a (s\<lparr>in_count := Suc (in_count s)\<rparr>))
      else write_serial a (s\<lparr>in_count := Suc (in_count s)\<rparr>))"
  by (subst write_serial.simps) (simp add: is_transmit_empty_eq tx_ready_def)

lemma tx_ready_update [simp]:
  "tx_ready (s\<lparr>in_count := n\<rparr>) k = tx_ready s k" "tx_ready (s\<lparr>io := ws\<rparr>) k = tx_ready s k"
  by (simp_all add: tx_ready_def)

lemma write_serial_waits:
  "(\<And>i. i < k \<Longrightarrow> \<not> tx_ready s (in_count s + i)) \<Longrightarrow> tx_ready s (in_count s + k) \<Longrightarrow>
   write_serial a s = Some (outportb PORT a (s\<lparr>in_count := Suc (in_count s + k)\<rparr>))"
proof (induction k arbitrary: s)
  case 0
  then show ?case by (simp add: write_serial_unfold)
next
  case (Suc k)
  let ?s = "s\<lparr>in_count := Suc (in_count s)\<rparr>"
  have "write_serial a ?s = Some (outportb PORT a (?s\<lparr>in_count := Suc (in_count ?s + k)\<rparr>))"
  proof (rule Suc.IH)
    show "\<not> tx_ready ?s (in_count ?s + i)" if "i < k" for i
      using Suc.prems(1) [of "Suc i"] that by simp
    show "tx_ready ?s (in_count ?s + k)" using Suc.prems(2) by simp
  qed
  moreover have "\<not> tx_ready s (in_count s)" using Suc.prems(1) [of 0] by simp
  ultimately show ?case by (simp add: write_serial_unfold [of a s])
qed

lemma write_serial_ready:
  assumes "tx_ready s n" "in_count s \<le> n"
  shows "\<exists>k. write_serial a s = Some (s\<lparr>io := io s @ [Outb PORT a], in_count := k\<rparr>)"
proof -
  define k where "k = (LEAST k. tx_ready s (in_count s + k))"
  have "tx_ready s (in_count s + k)" unfolding k_def
    by (rule LeastI [of _ "n - in_count s"]) (use assms in simp)
  moreover have "\<not> tx_ready s (in_count s + i)" if "i < k" for i
    using that not_less_Least unfolding k_def by blast
  ultimately have "write_serial a s = Some (outportb PORT a (s\<lparr>in_count := Suc (in_count s + k)\<rparr>))"
    by (intro write_serial_waits)
  then show ?thesis
    by (intro exI [of _ "Suc (in_count s + k)"]) (cases s, simp add: outportb_def)
qed

lemma write_serial_SomeD: "write_serial a s = Some s' \<Longrightarrow> \<exists>k\<ge>in_count s. tx_ready s k"
proof (erule write_serial.raw_induct [rotated])
  fix f :: "u8 \<Rightarrow> 'a machine_scheme \<Rightarrow> 'a machine_scheme option" and a s s'
  assume IH: "\<And>a s s'. f a s = Some s' \<Longrightarrow> \<exists>k\<ge>in_count s. tx_ready s k"
    and step: "(if fst (is_transmit_empty s) = 0 then f a (snd (is_transmit_empty s))
      else Some (outportb PORT a (snd (is_transmit_empty s)))) = Some s'"
  show "\<exists>k\<ge>in_count s. tx_ready s k"
  proof (cases "tx_ready s (in_count s)")
    case False
    then have "f a (s\<lparr>in_count := Suc (in_count s)\<rparr>) = Some s'"
      using step by (simp add: is_transmit_empty_eq tx_ready_def)
    from IH [OF this] show ?thesis by (auto intro: Suc_leD)
  qed auto
qed

lemma tx_live_update [simp]:
  "tx_live (s\<lparr>in_count := n\<rparr>) = tx_live s" "tx_live (s\<lparr>io := ws\<rparr>) = tx_live s"
  by (simp_all add: tx_live_def)

interpretation uart: char_sink write_serial tx_live io "Outb PORT" console_rest
proof
  fix c :: u8 and s :: "'a machine_scheme"
  assume live: "tx_live s"
  then obtain n where "in_count s \<le> n" "tx_ready s n" unfolding tx_live_def by blast
  from write_serial_ready [OF this(2,1), of c] obtain k
    where "write_serial c s = Some (s\<lparr>io := io s @ [Outb PORT c], in_count := k\<rparr>)" ..
  then show "\<exists>s'. write_serial c s = Some s' \<and> tx_live s' \<and> io s' = io s @ [Outb PORT c]
      \<and> console_rest s' = console_rest s"
    using live by (simp add: console_rest_def)
next
  fix s s' :: "'a machine_scheme"
  assume "console_rest s' = console_rest s"
  then have "mem (console_rest s') = mem (console_rest s)" by simp
  then show "mem s' = mem s" by (simp add: console_rest_def)
qed

text \<open>
  The form in which the other components use it: printing appends the bytes, as writes to the
  data port, to the port traffic, advances the count of port reads, and changes nothing else.
\<close>

definition printed :: "u8 list \<Rightarrow> 'a machine_scheme \<Rightarrow> 'a machine_scheme \<Rightarrow> bool" where
  "printed bs s s' \<longleftrightarrow> (\<exists>n. s' = s\<lparr>io := io s @ map (Outb PORT) bs, in_count := n\<rparr>)"

lemma printed_live: "printed bs s s' \<Longrightarrow> tx_live s \<Longrightarrow> tx_live s'"
  by (auto simp: printed_def)

lemma qemu_printf_printed:
  assumes "tx_live s" "render (mem s) f args = Some bs"
  shows "\<exists>s'. qemu_printf f args s = Some s' \<and> printed bs s s'"
proof -
  from uart.vsprintf_sends [OF assms] obtain s'
    where s': "vsprintf 0 write_serial f args s = Some s'" "io s' = io s @ map (Outb PORT) bs"
      "console_rest s' = console_rest s" by blast
  from console_rest_eqD [OF s'(3)] s'(2) have "printed bs s s'" unfolding printed_def by metis
  with s'(1) show ?thesis by (auto simp: qemu_printf_def)
qed

text \<open>A message without conversions is its own rendering.\<close>

lemma render_plain: "CHR ''%'' \<notin> set f \<Longrightarrow> render m f args = Some (map of_char f)"
  by (induction f) auto

lemma qemu_printf_message:
  "tx_live s \<Longrightarrow> CHR ''%'' \<notin> set f \<Longrightarrow> \<exists>s'. qemu_printf f args s = Some s' \<and> printed (map of_char f) s s'"
  by (rule qemu_printf_printed) (auto intro: render_plain)

section \<open>Properties\<close>

text \<open>
  C32. \<^verbatim>\<open>itoa\<close> on a base from 2 to 16 and a buffer of at least 33 bytes always returns; the string
  left in the buffer is the positional numeral of the number, and reading that numeral back in
  the same base gives the number.
\<close>

theorem itoa_roundtrip:
  assumes "2 \<le> base" "base \<le> 16" "33 \<le> length buf"
  shows "\<exists>buf'. itoa buf n base = Some buf' \<and> length buf' = length buf
     \<and> buf_text buf' = number_text (unat base) (unat n)
     \<and> text_number (unat base) (buf_text buf') = unat n"
proof -
  have "2 \<le> unat base" "unat base \<le> 16" using assms(1,2) by (auto simp: word_le_nat_alt)
  then show ?thesis using itoa_buf_text [OF assms, of n] text_number_number_text by fastforce
qed

theorem itoa_roundtrip_witness:
  "\<exists>buf'. itoa (replicate 512 0) 255 16 = Some buf' \<and> length buf' = 512
     \<and> buf_text buf' = [0x66, 0x66] \<and> text_number 16 (buf_text buf') = 255"
proof -
  have "number_text 16 255 = [0x66, 0x66]"
    by (simp add: number_text_def nat_digits.simps digit_byte_def)
  then show ?thesis using itoa_roundtrip [of 16 "replicate 512 0" 255] by simp
qed

text \<open>
  \<^verbatim>\<open>write_serial\<close> returns exactly when the line status register reports an empty transmitter
  at some read from now on, and then it has written exactly the one byte to the data port and
  changed nothing but the port traffic.
\<close>

theorem write_serial_returns_iff:
  "(\<exists>s'. write_serial a s = Some s') = (\<exists>k. in_count s \<le> k \<and> tx_ready s k)"
  using write_serial_SomeD [of a s] write_serial_ready [of s _ a] by blast

text \<open>
  C14. \<^verbatim>\<open>qemu_printf\<close> on a live UART returns for every well-formed call, and the bytes that reach
  the data port are exactly the rendering of the format: literal characters, signed and
  unsigned decimal, hexadecimal, characters and strings read from memory.  Memory and every
  other part of the state stay as they were.
\<close>

theorem qemu_printf_renders:
  assumes "tx_live s" "render (mem s) f args = Some bs"
  shows "\<exists>n. qemu_printf f args s = Some (s\<lparr>io := io s @ map (Outb PORT) bs, in_count := n\<rparr>)"
  using qemu_printf_printed [OF assms] by (auto simp: printed_def)

definition ready_machine :: machine where
  "ready_machine = \<lparr>mem = (\<lambda>_. 0), io = [], port_env = (\<lambda>_ _. 0x20), in_count = 0\<rparr>"

lemma ready_machine_live: "tx_live ready_machine"
  by (auto simp: tx_live_def tx_ready_def ready_machine_def)

theorem qemu_printf_renders_witness:
  "\<exists>s'. qemu_printf ''%d:%x'' [- 7, 0xaa] ready_machine = Some s'
     \<and> io s' = map (\<lambda>c. Outb PORT (of_char c)) ''-7:aa''"
proof -
  have "number_text 10 7 = map of_char ''7''" "number_text 16 170 = map of_char ''aa''"
    by (simp_all add: number_text_def nat_digits.simps digit_byte_def)
  then have "render (mem ready_machine) ''%d:%x'' [- 7, 0xaa] = Some (map of_char ''-7:aa'')"
    by (simp add: conv_text_def)
  from qemu_printf_renders [OF ready_machine_live this] show ?thesis
    by (auto simp: ready_machine_def)
qed

end
