(* ===== verification/Tty.thy ===== *)
theory Tty
  imports Machine Libc_String
begin

text \<open>
  The VGA text terminal, \<^verbatim>\<open>kernel/arch/i386/tty.c\<close> and \<^verbatim>\<open>vga.h\<close>: the cursor, the colour and the
  frame buffer at 0xB8000, which is ordinary memory.

  The lemmas show that initialisation blanks exactly the 2000 cells and homes the cursor; that
  putting a character writes the cell under the cursor, nothing else, and advances the cursor
  around the screen; and that a newline on the last row leaves the screen, so that the next
  character is stored beyond the frame buffer.
\<close>

datatype vga_color =
    VGA_COLOR_BLACK | VGA_COLOR_BLUE | VGA_COLOR_GREEN | VGA_COLOR_CYAN | VGA_COLOR_RED
  | VGA_COLOR_MAGENTA | VGA_COLOR_BROWN | VGA_COLOR_LIGHT_GREY | VGA_COLOR_DARK_GREY
  | VGA_COLOR_LIGHT_BLUE | VGA_COLOR_LIGHT_GREEN | VGA_COLOR_LIGHT_CYAN | VGA_COLOR_LIGHT_RED
  | VGA_COLOR_LIGHT_MAGENTA | VGA_COLOR_LIGHT_BROWN | VGA_COLOR_WHITE

fun vga_color_value :: "vga_color \<Rightarrow> u32" where
  "vga_color_value VGA_COLOR_BLACK = 0"
| "vga_color_value VGA_COLOR_BLUE = 1"
| "vga_color_value VGA_COLOR_GREEN = 2"
| "vga_color_value VGA_COLOR_CYAN = 3"
| "vga_color_value VGA_COLOR_RED = 4"
| "vga_color_value VGA_COLOR_MAGENTA = 5"
| "vga_color_value VGA_COLOR_BROWN = 6"
| "vga_color_value VGA_COLOR_LIGHT_GREY = 7"
| "vga_color_value VGA_COLOR_DARK_GREY = 8"
| "vga_color_value VGA_COLOR_LIGHT_BLUE = 9"
| "vga_color_value VGA_COLOR_LIGHT_GREEN = 10"
| "vga_color_value VGA_COLOR_LIGHT_CYAN = 11"
| "vga_color_value VGA_COLOR_LIGHT_RED = 12"
| "vga_color_value VGA_COLOR_LIGHT_MAGENTA = 13"
| "vga_color_value VGA_COLOR_LIGHT_BROWN = 14"
| "vga_color_value VGA_COLOR_WHITE = 15"

definition vga_entry_color :: "vga_color \<Rightarrow> vga_color \<Rightarrow> u8" where
  "vga_entry_color fg bg = ucast (vga_color_value fg OR push_bit 4 (vga_color_value bg))"

definition vga_entry :: "u8 \<Rightarrow> u8 \<Rightarrow> u16" where
  "vga_entry uc color = ucast uc OR push_bit 8 (ucast color)"

abbreviation VGA_WIDTH :: u32 where "VGA_WIDTH \<equiv> 80"
abbreviation VGA_HEIGHT :: u32 where "VGA_HEIGHT \<equiv> 25"
abbreviation VGA_MEMORY :: u32 where "VGA_MEMORY \<equiv> 0xB8000"

record tty = machine +
  terminal_row :: u32
  terminal_column :: u32
  terminal_color :: u8
  terminal_buffer :: u32

text \<open>\<^verbatim>\<open>terminal_buffer[index] = v\<close>\<close>

definition buffer_store :: "u32 \<Rightarrow> u16 \<Rightarrow> 'a tty_scheme \<Rightarrow> 'a tty_scheme" where
  "buffer_store index v s = s\<lparr>mem := store16 (mem s) (terminal_buffer s + index * 2) v\<rparr>"

definition terminal_initialize :: "'a tty_scheme \<Rightarrow> 'a tty_scheme" where
  "terminal_initialize s =
     (let s = s\<lparr>terminal_row := 0, terminal_column := 0,
                terminal_color := vga_entry_color VGA_COLOR_LIGHT_GREY VGA_COLOR_BLACK,
                terminal_buffer := VGA_MEMORY\<rparr>
      in for_loop 0 VGA_HEIGHT (\<lambda>y.
           for_loop 0 VGA_WIDTH (\<lambda>x s.
             buffer_store (y * VGA_WIDTH + x) (vga_entry (of_char CHR '' '') (terminal_color s)) s)) s)"

definition terminal_setcolor :: "u8 \<Rightarrow> 'a tty_scheme \<Rightarrow> 'a tty_scheme" where
  "terminal_setcolor color s = s\<lparr>terminal_color := color\<rparr>"

definition terminal_putentryat :: "u8 \<Rightarrow> u8 \<Rightarrow> u32 \<Rightarrow> u32 \<Rightarrow> 'a tty_scheme \<Rightarrow> 'a tty_scheme" where
  "terminal_putentryat c color x y s = buffer_store (y * VGA_WIDTH + x) (vga_entry c color) s"

definition terminal_putchar :: "u8 \<Rightarrow> 'a tty_scheme \<Rightarrow> 'a tty_scheme" where
  "terminal_putchar c s =
     (let s = terminal_putentryat c (terminal_color s) (terminal_column s) (terminal_row s) s;
          s = s\<lparr>terminal_column := terminal_column s + 1\<rparr>
      in if terminal_column s = VGA_WIDTH
         then (let s = s\<lparr>terminal_column := 0\<rparr>;
                   s = s\<lparr>terminal_row := terminal_row s + 1\<rparr>
               in if terminal_row s = VGA_HEIGHT then s\<lparr>terminal_row := 0\<rparr> else s)
         else s)"

definition terminal_newline :: "'a tty_scheme \<Rightarrow> 'a tty_scheme" where
  "terminal_newline s = s\<lparr>terminal_column := 0, terminal_row := terminal_row s + 1\<rparr>"

text \<open>\<open>data\<close> reads the \<open>i\<close>-th byte behind the pointer argument.\<close>

definition terminal_write :: "(u32 \<Rightarrow> memory \<Rightarrow> u8) \<Rightarrow> u32 \<Rightarrow> 'a tty_scheme \<Rightarrow> 'a tty_scheme" where
  "terminal_write data n s =
     for_loop 0 n (\<lambda>i s. if data i (mem s) = 0x0A then terminal_newline s
                         else terminal_putchar (data i (mem s)) s) s"

definition terminal_writestring :: "u32 \<Rightarrow> 'a tty_scheme \<Rightarrow> 'a tty_scheme option" where
  "terminal_writestring data s =
     map_option (\<lambda>n. terminal_write (mem_reader data) n s) (strlen data (mem s))"

section \<open>Cells\<close>

definition cell :: "u32 \<Rightarrow> nat \<Rightarrow> u32" where
  "cell buf idx = buf + of_nat (idx * 2)"

lemma cell_apart: "i \<noteq> j \<Longrightarrow> i < 1000000 \<Longrightarrow> j < 1000000 \<Longrightarrow> apart (cell buf i) 2 (cell buf j) 2"
  unfolding cell_def by (rule apart_elems) auto

lemma cell_in_region: "in_region (cell buf i) 2 x \<Longrightarrow> i < n \<Longrightarrow> n \<le> 1000000 \<Longrightarrow> in_region buf (n * 2) x"
proof -
  assume x: "in_region (cell buf i) 2 x" and i: "i < n" "n \<le> 1000000"
  let ?d = "x - cell buf i"
  have e: "x - buf = ?d + of_nat (i * 2)" by (simp add: cell_def)
  have u: "unat (of_nat (i * 2) :: u32) = i * 2" using i by (intro unat_of_nat_u32) simp
  have "unat (x - buf) = unat ?d + i * 2"
    unfolding e using x i u by (subst unat_plus_u32) (auto simp: in_region_def)
  then show ?thesis using x i by (simp add: in_region_def)
qed

lemma buffer_store_cell:
  "unat index = idx \<Longrightarrow> buffer_store index v s = s\<lparr>mem := store16 (mem s) (cell (terminal_buffer s) idx) v\<rparr>"
  by (auto simp: buffer_store_def cell_def)

text \<open>The colour byte and the cell are decoded as the VGA hardware reads them.\<close>

lemma vga_color_value_lt: "vga_color_value c < 16"
  by (cases c) simp_all

lemma vga_color_value_inj: "vga_color_value c = vga_color_value d \<Longrightarrow> c = d"
  by (cases c; cases d) simp_all

lemma vga_entry_color_nibbles:
  "vga_entry_color fg bg AND 15 = ucast (vga_color_value fg)"
  "drop_bit 4 (vga_entry_color fg bg) = ucast (vga_color_value bg)"
  by (cases fg; cases bg; simp add: vga_entry_color_def)+

lemma vga_entry_bytes:
  "ucast (vga_entry uc color) = uc" "ucast (drop_bit 8 (vga_entry uc color)) = color"
  by (rule bit_word_eqI; auto simp: vga_entry_def bit_simps dest: bit_imp_le_length)+

section \<open>Initialisation\<close>

definition blank_entry :: u16 where
  "blank_entry = vga_entry (of_char CHR '' '') (vga_entry_color VGA_COLOR_LIGHT_GREY VGA_COLOR_BLACK)"

text \<open>
  The cells below \<open>k\<close> are blank, the bytes outside the frame buffer are those of \<open>s0\<close>, and
  the terminal's own variables are set.
\<close>

definition blanked :: "'a tty_scheme \<Rightarrow> nat \<Rightarrow> 'a tty_scheme \<Rightarrow> bool" where
  "blanked s0 k s \<longleftrightarrow>
     (\<forall>i<k. load16 (mem s) (cell VGA_MEMORY i) = blank_entry)
     \<and> same_outside (in_region VGA_MEMORY 4000) (mem s0) (mem s)
     \<and> s = s0\<lparr>mem := mem s, terminal_row := 0, terminal_column := 0,
         terminal_color := vga_entry_color VGA_COLOR_LIGHT_GREY VGA_COLOR_BLACK,
         terminal_buffer := VGA_MEMORY\<rparr>"

lemma blanked_step:
  assumes "blanked s0 k s" "k < 2000" "unat index = k"
  shows "blanked s0 (Suc k)
     (buffer_store index (vga_entry (of_char CHR '' '') (terminal_color s)) s)"
proof -
  define C where "C = vga_entry_color VGA_COLOR_LIGHT_GREY VGA_COLOR_BLACK"
  let ?U = "s0\<lparr>mem := mem s, terminal_row := 0, terminal_column := 0, terminal_color := C,
      terminal_buffer := VGA_MEMORY\<rparr>"
  have s: "s = ?U" using assms(1) unfolding blanked_def C_def by blast
  have buf: "terminal_buffer s = VGA_MEMORY" "terminal_color s = C"
    using arg_cong [OF s, of terminal_buffer] arg_cong [OF s, of terminal_color] by simp_all
  let ?m = "store16 (mem s) (cell VGA_MEMORY k) blank_entry"
  have st: "buffer_store index (vga_entry (of_char CHR '' '') (terminal_color s)) s = s\<lparr>mem := ?m\<rparr>"
    using assms(3) buf by (simp add: buffer_store_cell blank_entry_def C_def)
  have "s\<lparr>mem := ?m\<rparr> = ?U\<lparr>mem := ?m\<rparr>" using s by simp
  moreover have "load16 ?m (cell VGA_MEMORY i) = blank_entry" if "i < Suc k" for i
    using that assms(1,2) cell_apart [of k i VGA_MEMORY]
    by (cases "i = k") (auto simp: blanked_def mem_simps)
  moreover have "same_outside (in_region VGA_MEMORY 4000) (mem s0) ?m"
  proof (rule same_outside_trans)
    show "same_outside (in_region VGA_MEMORY 4000) (mem s0) (mem s)"
      using assms(1) by (simp add: blanked_def)
    show "same_outside (in_region VGA_MEMORY 4000) (mem s) ?m"
      using cell_in_region [of VGA_MEMORY k _ 2000] assms(2)
      by (intro same_outside_store16) simp
  qed
  ultimately show ?thesis unfolding st blanked_def C_def by simp
qed

lemma for_row_blanked:
  assumes "blanked s0 (unat y * 80) s" "y < VGA_HEIGHT"
  shows "blanked s0 (unat (y + 1) * 80)
     (for_loop 0 VGA_WIDTH (\<lambda>x s.
        buffer_store (y * VGA_WIDTH + x) (vga_entry (of_char CHR '' '') (terminal_color s)) s) s)"
proof -
  have y: "unat y < 25" using assms(2) by (simp add: word_less_nat_alt)
  let ?f = "\<lambda>x s. buffer_store (y * VGA_WIDTH + x) (vga_entry (of_char CHR '' '') (terminal_color s)) s"
  have "blanked s0 (unat y * 80 + unat VGA_WIDTH) (for_loop 0 VGA_WIDTH ?f s)"
  proof (rule for_loop_rule [where P = "\<lambda>x. blanked s0 (unat y * 80 + unat x)"])
    show "blanked s0 (unat y * 80 + unat (0::u32)) s" using assms(1) by simp
  next
    fix x :: u32 and s
    assume x: "x < VGA_WIDTH" and IH: "blanked s0 (unat y * 80 + unat x) s"
    have x': "unat x < 80" using x by (simp add: word_less_nat_alt)
    have m: "unat (y * VGA_WIDTH) = unat y * 80" using y by (subst unat_mult_u32) auto
    then have "unat (y * VGA_WIDTH + x) = unat y * 80 + unat x"
      using y x' by (subst unat_plus_u32) auto
    with blanked_step [OF IH, of "y * VGA_WIDTH + x"] y x' unat_suc_u32 [OF x]
    show "blanked s0 (unat y * 80 + unat (x + 1)) (?f x s)" by simp
  qed simp
  moreover have "unat (y + 1) * 80 = unat y * 80 + unat VGA_WIDTH"
    unfolding unat_suc_u32 [OF assms(2)] by simp
  ultimately show ?thesis by simp
qed

lemma terminal_initialize_blanked: "blanked s 2000 (terminal_initialize s)"
proof -
  let ?s = "s\<lparr>terminal_row := 0, terminal_column := 0,
         terminal_color := vga_entry_color VGA_COLOR_LIGHT_GREY VGA_COLOR_BLACK,
         terminal_buffer := VGA_MEMORY\<rparr>"
  have "blanked s (unat VGA_HEIGHT * 80) (terminal_initialize s)"
    unfolding terminal_initialize_def Let_def
  proof (rule for_loop_rule [where P = "\<lambda>y. blanked s (unat y * 80)"])
    show "blanked s (unat (0::u32) * 80) ?s" by (cases s) (simp add: blanked_def)
  next
    fix y :: u32 and s1
    assume "y < VGA_HEIGHT" "blanked s (unat y * 80) s1"
    then show "blanked s (unat (y + 1) * 80) (for_loop 0 VGA_WIDTH (\<lambda>x s.
        buffer_store (y * VGA_WIDTH + x) (vga_entry (of_char CHR '' '') (terminal_color s)) s) s1)"
      by (intro for_row_blanked)
  qed simp
  then show ?thesis by simp
qed

section \<open>Putting characters\<close>

definition cursor :: "'a tty_scheme \<Rightarrow> nat" where
  "cursor s = unat (terminal_row s) * 80 + unat (terminal_column s)"

definition on_screen :: "'a tty_scheme \<Rightarrow> bool" where
  "on_screen s \<longleftrightarrow> terminal_row s < VGA_HEIGHT \<and> terminal_column s < VGA_WIDTH"

lemma cursor_word:
  assumes "on_screen s"
  shows "unat (terminal_row s * VGA_WIDTH + terminal_column s) = cursor s" "cursor s < 2000"
proof -
  have r: "unat (terminal_row s) < 25" "unat (terminal_column s) < 80"
    using assms by (simp_all add: on_screen_def word_less_nat_alt)
  then have "unat (terminal_row s * VGA_WIDTH) = unat (terminal_row s) * 80"
    by (subst unat_mult_u32) auto
  then show "unat (terminal_row s * VGA_WIDTH + terminal_column s) = cursor s"
    using r by (subst unat_plus_u32) (auto simp: cursor_def)
  show "cursor s < 2000" using r by (simp add: cursor_def)
qed

lemma terminal_putchar_frame:
  assumes "on_screen s"
  shows "mem (terminal_putchar c s)
       = store16 (mem s) (cell (terminal_buffer s) (cursor s)) (vga_entry c (terminal_color s))"
    "on_screen (terminal_putchar c s)"
    "cursor (terminal_putchar c s) = (cursor s + 1) mod 2000"
    "terminal_buffer (terminal_putchar c s) = terminal_buffer s"
    "terminal_color (terminal_putchar c s) = terminal_color s"
proof -
  note w = cursor_word(1) [OF assms]
  have r: "unat (terminal_row s) < 25" "unat (terminal_column s) < 80"
    using assms by (simp_all add: on_screen_def word_less_nat_alt)
  have col: "unat (terminal_column s + 1) = Suc (unat (terminal_column s))"
    and row: "unat (terminal_row s + 1) = Suc (unat (terminal_row s))"
    using assms by (auto simp: on_screen_def intro: unat_suc_u32)
  have ceq: "terminal_column s = 79 \<longleftrightarrow> unat (terminal_column s) = 79"
    and req: "terminal_row s = 24 \<longleftrightarrow> unat (terminal_row s) = 24"
    unfolding word_unat_eq_iff by simp_all
  note defs = terminal_putchar_def terminal_putentryat_def Let_def buffer_store_cell [OF w] ceq req
  show "mem (terminal_putchar c s)
       = store16 (mem s) (cell (terminal_buffer s) (cursor s)) (vga_entry c (terminal_color s))"
    "terminal_buffer (terminal_putchar c s) = terminal_buffer s"
    "terminal_color (terminal_putchar c s) = terminal_color s"
    by (simp_all add: defs)
  show "on_screen (terminal_putchar c s)"
    using r by (auto simp: defs on_screen_def word_less_nat_alt col row)
  show "cursor (terminal_putchar c s) = (cursor s + 1) mod 2000"
    using r by (auto simp: defs cursor_def col row)
qed

lemma load16_cell_putchar:
  assumes "on_screen s" "i < 1000000"
  shows "load16 (mem (terminal_putchar c s)) (cell (terminal_buffer s) i) =
     (if i = cursor s then vga_entry c (terminal_color s) else load16 (mem s) (cell (terminal_buffer s) i))"
  using cell_apart [of "cursor s" i "terminal_buffer s"] cursor_word(2) [OF assms(1)] assms(2)
  by (auto simp: terminal_putchar_frame(1) [OF assms(1)] mem_simps)

text \<open>Bytes \<open>bs\<close> without a newline are written cell by cell from the cursor on.\<close>

lemma terminal_write_cells:
  assumes "on_screen s" "0x0A \<notin> set bs" "cursor s + length bs < 2000"
  defines "s' \<equiv> terminal_write (buf_reader bs) (of_nat (length bs)) s"
  shows "on_screen s'" "cursor s' = cursor s + length bs"
    "\<forall>i < 2000. load16 (mem s') (cell (terminal_buffer s) i) =
       (if cursor s \<le> i \<and> i < cursor s + length bs then vga_entry (bs ! (i - cursor s)) (terminal_color s)
        else load16 (mem s) (cell (terminal_buffer s) i))"
proof -
  let ?n = "of_nat (length bs) :: u32"
  let ?P = "\<lambda>j s'. on_screen s' \<and> terminal_buffer s' = terminal_buffer s \<and> terminal_color s' = terminal_color s
     \<and> cursor s' = cursor s + unat j
     \<and> (\<forall>i < 2000. load16 (mem s') (cell (terminal_buffer s) i) =
       (if cursor s \<le> i \<and> i < cursor s + unat j then vga_entry (bs ! (i - cursor s)) (terminal_color s)
        else load16 (mem s) (cell (terminal_buffer s) i)))"
  have n: "unat ?n = length bs" using assms(3) by (intro unat_of_nat_u32) simp
  have "?P ?n s'"
    unfolding s'_def terminal_write_def
  proof (rule for_loop_rule [where P = ?P])
    show "?P 0 s" using assms(1) by auto
  next
    fix j :: u32 and t
    assume j: "j < ?n" and IH: "?P j t"
    have jlt: "unat j < length bs" using j n by (simp add: word_less_nat_alt)
    then have d: "buf_reader bs j (mem t) = bs ! unat j" by (simp add: buf_reader_def)
    have "bs ! unat j \<noteq> 0x0A" using assms(2) jlt nth_mem by metis
    moreover note os = conjunct1 [OF IH]
    moreover have suc: "unat (j + 1) = Suc (unat j)" using j by (rule unat_suc_u32)
    moreover have "(cursor t + 1) mod 2000 = cursor s + Suc (unat j)" using IH jlt assms(3) by simp
    moreover have "load16 (mem (terminal_putchar (bs ! unat j) t)) (cell (terminal_buffer s) i) =
        (if cursor s \<le> i \<and> i < cursor s + Suc (unat j) then vga_entry (bs ! (i - cursor s)) (terminal_color s)
         else load16 (mem s) (cell (terminal_buffer s) i))" if "i < 2000" for i
      using load16_cell_putchar [OF os, of i "bs ! unat j"] IH that by auto
    ultimately show "?P (j + 1) (if buf_reader bs j (mem t) = 0x0A then terminal_newline t
        else terminal_putchar (buf_reader bs j (mem t)) t)"
      unfolding d suc using IH terminal_putchar_frame [OF os, of "bs ! unat j"] by simp
  qed simp
  then show "on_screen s'" "cursor s' = cursor s + length bs"
    "\<forall>i < 2000. load16 (mem s') (cell (terminal_buffer s) i) =
       (if cursor s \<le> i \<and> i < cursor s + length bs then vga_entry (bs ! (i - cursor s)) (terminal_color s)
        else load16 (mem s) (cell (terminal_buffer s) i))"
    unfolding n by blast+
qed

section \<open>Properties\<close>

text \<open>
  After \<^verbatim>\<open>terminal_initialize\<close> every one of the 2000 cells of the VGA text buffer is a grey
  blank on black, the cursor is at the top left, and no byte outside the frame buffer changed.
\<close>

theorem terminal_initialize_blanks:
  "map (\<lambda>i. load16 (mem (terminal_initialize s)) (cell VGA_MEMORY i)) [0..<2000] = replicate 2000 blank_entry
   \<and> same_outside (in_region VGA_MEMORY 4000) (mem s) (mem (terminal_initialize s))
   \<and> on_screen (terminal_initialize s) \<and> cursor (terminal_initialize s) = 0"
proof -
  let ?t = "terminal_initialize s"
  have b: "blanked s 2000 ?t" by (rule terminal_initialize_blanked)
  then have t: "?t = s\<lparr>mem := mem ?t, terminal_row := 0, terminal_column := 0,
         terminal_color := vga_entry_color VGA_COLOR_LIGHT_GREY VGA_COLOR_BLACK,
         terminal_buffer := VGA_MEMORY\<rparr>" by (simp add: blanked_def)
  have "terminal_row ?t = 0" "terminal_column ?t = 0"
    using arg_cong [OF t, of terminal_row] arg_cong [OF t, of terminal_column] by simp_all
  moreover have "map (\<lambda>i. load16 (mem ?t) (cell VGA_MEMORY i)) [0..<2000] = replicate 2000 blank_entry"
    using b by (intro replicate_eqI) (auto simp: blanked_def)
  ultimately show ?thesis using b by (simp add: blanked_def on_screen_def cursor_def)
qed

text \<open>
  With the cursor on the screen, \<^verbatim>\<open>terminal_putchar\<close> stores the character with the current
  colour in the cell under the cursor, leaves every other cell and every byte outside the frame
  buffer alone, keeps the cursor on the screen and moves it to the next cell, around the screen.
\<close>

theorem terminal_putchar_cell:
  assumes "on_screen s"
  shows "(\<forall>i < 2000. load16 (mem (terminal_putchar c s)) (cell (terminal_buffer s) i) =
      (if i = cursor s then vga_entry c (terminal_color s) else load16 (mem s) (cell (terminal_buffer s) i)))
     \<and> same_outside (in_region (terminal_buffer s) 4000) (mem s) (mem (terminal_putchar c s))
     \<and> on_screen (terminal_putchar c s) \<and> cursor (terminal_putchar c s) = (cursor s + 1) mod 2000"
proof -
  have "same_outside (in_region (terminal_buffer s) 4000) (mem s) (mem (terminal_putchar c s))"
    unfolding terminal_putchar_frame(1) [OF assms]
    using cell_in_region [of "terminal_buffer s" "cursor s" _ 2000] cursor_word(2) [OF assms]
    by (intro same_outside_store16) simp
  then show ?thesis
    using load16_cell_putchar [OF assms] terminal_putchar_frame [OF assms] by simp
qed

definition home_tty :: tty where
  "home_tty = \<lparr>mem = (\<lambda>_. 0), io = [], port_env = (\<lambda>_ _. 0), in_count = 0,
     terminal_row = 24, terminal_column = 79, terminal_color = 7, terminal_buffer = VGA_MEMORY\<rparr>"

theorem terminal_putchar_cell_witness:
  "load16 (mem (terminal_putchar 0x41 home_tty)) (cell VGA_MEMORY 1999) = 0x0741
   \<and> cursor (terminal_putchar 0x41 home_tty) = 0"
proof -
  have "on_screen home_tty" "cursor home_tty = 1999"
    by (simp_all add: home_tty_def on_screen_def cursor_def)
  moreover have "vga_entry 0x41 7 = 0x0741" by (simp add: vga_entry_def)
  ultimately show ?thesis using terminal_putchar_cell [of home_tty "0x41"]
    by (auto simp: home_tty_def)
qed

text \<open>
  Writing a text without newlines that fits before the end of the screen puts exactly its
  characters, in order, into the cells from the cursor on, and moves the cursor past them.
\<close>

theorem terminal_write_text:
  assumes "on_screen s" "0x0A \<notin> set bs" "cursor s + length bs < 2000"
  shows "map (\<lambda>k. load16 (mem (terminal_write (buf_reader bs) (of_nat (length bs)) s))
           (cell (terminal_buffer s) (cursor s + k))) [0..<length bs]
       = map (\<lambda>b. vga_entry b (terminal_color s)) bs
     \<and> cursor (terminal_write (buf_reader bs) (of_nat (length bs)) s) = cursor s + length bs"
proof -
  note w = terminal_write_cells [OF assms]
  have "load16 (mem (terminal_write (buf_reader bs) (of_nat (length bs)) s))
      (cell (terminal_buffer s) (cursor s + k)) = vga_entry (bs ! k) (terminal_color s)"
    if "k < length bs" for k
    using w(3) that assms(3) by auto
  then show ?thesis using w(2) by (auto intro: nth_equalityI)
qed

theorem terminal_write_text_witness:
  "cursor (terminal_write (buf_reader [0x48, 0x69]) 2 (home_tty\<lparr>terminal_row := 0\<rparr>)) = 81"
proof -
  have "on_screen (home_tty\<lparr>terminal_row := 0\<rparr>)" "cursor (home_tty\<lparr>terminal_row := 0\<rparr>) = 79"
    by (simp_all add: home_tty_def on_screen_def cursor_def)
  then show ?thesis using terminal_write_text [of "home_tty\<lparr>terminal_row := 0\<rparr>" "[0x48, 0x69]"]
    by simp
qed

text \<open>
  A newline on the last row does not wrap or scroll: the row becomes 25, and the next
  character is stored in the two bytes just past the 4000 bytes of the frame buffer.
\<close>

theorem terminal_newline_leaves_screen:
  assumes "terminal_row s = 24"
  shows "\<not> on_screen (terminal_newline s)
     \<and> mem (terminal_putchar c (terminal_newline s))
        = store16 (mem s) (terminal_buffer s + 4000) (vga_entry c (terminal_color s))"
  using assms by (simp add: terminal_newline_def on_screen_def terminal_putchar_def
      terminal_putentryat_def buffer_store_def Let_def)

theorem terminal_newline_leaves_screen_witness:
  "mem (terminal_putchar 0x41 (terminal_newline home_tty)) 0xB8FA0 = 0x41"
proof -
  have "terminal_row home_tty = 24" by (simp add: home_tty_def)
  from terminal_newline_leaves_screen [OF this, of "0x41"] show ?thesis
    by (simp add: home_tty_def store16_def vga_entry_def)
qed

end
