(* ===== verification/Stdio.thy ===== *)
theory Stdio
  imports Tty
begin

text \<open>
  The kernel's copy of the C library's output, \<^verbatim>\<open>libc/stdio/*.c\<close> and \<^verbatim>\<open>libc/stdlib/abort.c\<close>, as
  built for the kernel (\<^verbatim>\<open>__is_libk\<close>): \<^verbatim>\<open>putchar\<close> writes to the VGA terminal.

  A format is a C string literal, given as the list of its characters; a result \<open>None\<close> means
  that an argument is missing or that a string argument has no terminator.  Lengths are
  \<^verbatim>\<open>size_t\<close> and the count of written characters is an \<^verbatim>\<open>int\<close>, both 32 bits wide.

  \<^verbatim>\<open>printf\<close> prints its literal text in chunks; the lemmas show that the chunks add up to the
  rendering of the format character by character, and that the result is its length.
\<close>

definition putchar :: "u32 \<Rightarrow> 'a tty_scheme \<Rightarrow> u32 \<times> 'a tty_scheme" where
  "putchar ic s = (ic, terminal_write (\<lambda>_ _. ucast ic) 1 s)"

abbreviation EOF :: u32 where "EOF \<equiv> - 1"

function print_from :: "(u32 \<Rightarrow> memory \<Rightarrow> u8) \<Rightarrow> u32 \<Rightarrow> u32 \<Rightarrow> 'a tty_scheme \<Rightarrow> bool \<times> 'a tty_scheme" where
  "print_from bytes i n s =
     (if i < n then
        (if fst (putchar (ucast (bytes i (mem s))) s) = EOF
         then (False, snd (putchar (ucast (bytes i (mem s))) s))
         else print_from bytes (i + 1) n (snd (putchar (ucast (bytes i (mem s))) s)))
      else (True, s))"
  by pat_completeness auto
termination
proof (relation "measure (\<lambda>(bytes, i, n, s). unat n - unat i)")
  fix bytes :: "u32 \<Rightarrow> memory \<Rightarrow> u8" and i n :: u32 and s :: "'a tty_scheme"
  assume lt: "i < n"
  then show "((bytes, i + 1, n, snd (putchar (ucast (bytes i (mem s))) s)), bytes, i, n, s)
      \<in> measure (\<lambda>(bytes, i, n, s). unat n - unat i)"
    using unat_suc_u32 [OF lt] by (simp add: word_less_nat_alt)
qed simp

declare print_from.simps [simp del]

definition print :: "(u32 \<Rightarrow> memory \<Rightarrow> u8) \<Rightarrow> u32 \<Rightarrow> 'a tty_scheme \<Rightarrow> bool \<times> 'a tty_scheme" where
  "print data n s = print_from data 0 n s"

definition lit :: "string \<Rightarrow> u8 list" where
  "lit cs = map of_char cs"

text \<open>The length of the literal text that starts at \<open>format\<close>: at least one character.\<close>

definition literal_amount :: "string \<Rightarrow> nat" where
  "literal_amount format = 1 + length (takeWhile (\<lambda>c. c \<noteq> CHR ''%'') (tl format))"

text \<open>One chunk: the space check, \<^verbatim>\<open>print\<close>, and the count; \<open>k\<close> continues after it.\<close>

definition print_chunk :: "(u32 \<Rightarrow> memory \<Rightarrow> u8) \<Rightarrow> u32 \<Rightarrow> u32 \<Rightarrow> 'a tty_scheme \<Rightarrow>
    (u32 \<Rightarrow> 'a tty_scheme \<Rightarrow> (u32 \<times> 'a tty_scheme) option) \<Rightarrow> (u32 \<times> 'a tty_scheme) option" where
  "print_chunk data n written s k =
     (let maxrem = 0x7FFFFFFF - written in
      if maxrem < n then Some (- 1, s)
      else case print data n s of
             (False, s') \<Rightarrow> Some (- 1, s')
           | (True, s') \<Rightarrow> k (written + n) s')"

function printf_loop :: "string \<Rightarrow> u32 list \<Rightarrow> u32 \<Rightarrow> 'a tty_scheme \<Rightarrow> (u32 \<times> 'a tty_scheme) option" where
  "printf_loop [] args written s = Some (written, s)"
| "printf_loop (c # r) args written s =
     (if c \<noteq> CHR ''%'' \<or> (\<exists>r'. r = CHR ''%'' # r') then
        (let format = (if c = CHR ''%'' then r else c # r); amount = literal_amount format
         in print_chunk (buf_reader (lit (take amount format))) (of_nat amount) written s
              (printf_loop (drop amount format) args))
      else (case r of
          [] \<Rightarrow> print_chunk (buf_reader (lit (c # r))) (of_nat (length (c # r))) written s
                  (\<lambda>written s. Some (written, s))
        | d # r' \<Rightarrow>
            if d = CHR ''c'' then
              (case args of [] \<Rightarrow> None
               | a # args' \<Rightarrow> print_chunk (buf_reader [ucast a]) 1 written s (printf_loop r' args'))
            else if d = CHR ''s'' then
              (case args of [] \<Rightarrow> None
               | a # args' \<Rightarrow>
                   (case strlen a (mem s) of None \<Rightarrow> None
                    | Some len \<Rightarrow> print_chunk (mem_reader a) len written s (printf_loop r' args')))
            else if d = CHR ''x'' then printf_loop r args written s
            else print_chunk (buf_reader (lit (c # r))) (of_nat (length (c # r))) written s
                   (\<lambda>written s. Some (written, s))))"
  by pat_completeness auto
termination
  by (relation "measure (\<lambda>(f, args, written, s). length f)") (auto simp: literal_amount_def split: if_splits)

definition printf :: "string \<Rightarrow> u32 list \<Rightarrow> 'a tty_scheme \<Rightarrow> (u32 \<times> 'a tty_scheme) option" where
  "printf format args s = printf_loop format args 0 s"

definition puts :: "u32 \<Rightarrow> 'a tty_scheme \<Rightarrow> (u32 \<times> 'a tty_scheme) option" where
  "puts str s = printf (''%s'' @ [CHR 0x0A]) [str] s"

definition abort :: "'a tty_scheme \<Rightarrow> 'a tty_scheme outcome option" where
  "abort s = map_option (\<lambda>(n, s'). Halts s') (printf (''kernel: panic: abort()'' @ [CHR 0x0A]) [] s)"

section \<open>Printing bytes\<close>

text \<open>What the terminal does with a sequence of bytes.\<close>

fun tty_puts :: "u8 list \<Rightarrow> 'a tty_scheme \<Rightarrow> 'a tty_scheme" where
  "tty_puts [] s = s"
| "tty_puts (b # bs) s = tty_puts bs (if b = 0x0A then terminal_newline s else terminal_putchar b s)"

lemma tty_puts_append [simp]: "tty_puts (xs @ ys) s = tty_puts ys (tty_puts xs s)"
  by (induction xs arbitrary: s) auto

lemma terminal_write_one:
  "terminal_write (\<lambda>_ _. b) 1 s = tty_puts [b] s"
  by (simp add: terminal_write_def for_loop.simps [of 0 1])

lemma terminal_write_puts:
  assumes "length bs < 4294967296"
  shows "terminal_write (buf_reader bs) (of_nat (length bs)) s = tty_puts bs s"
proof -
  let ?n = "of_nat (length bs) :: u32"
  have n: "unat ?n = length bs" using assms by (rule unat_of_nat_u32)
  have "terminal_write (buf_reader bs) ?n s = tty_puts (take (unat ?n) bs) s"
    unfolding terminal_write_def
  proof (rule for_loop_rule [where P = "\<lambda>j u. u = tty_puts (take (unat j) bs) s"])
    fix j :: u32 and u
    assume j: "j < ?n" and u: "u = tty_puts (take (unat j) bs) s"
    have l: "unat j < length bs" using j n by (simp add: word_less_nat_alt)
    then have "take (unat (j + 1)) bs = take (unat j) bs @ [bs ! unat j]"
      using unat_suc_u32 [OF j] by (simp add: take_Suc_conv_app_nth)
    then show "(if buf_reader bs j (mem u) = 0x0A then terminal_newline u else terminal_putchar (buf_reader bs j (mem u)) u)
        = tty_puts (take (unat (j + 1)) bs) s" using l by (simp add: u buf_reader_def)
  qed simp_all
  then show ?thesis using n by simp
qed

lemma putchar_eq: "putchar (ucast b) s = (ucast b, tty_puts [b] s)"
  unfolding putchar_def terminal_write_one by simp

lemma print_from_list:
  "length bs < 4294967296 \<Longrightarrow> unat i \<le> length bs \<Longrightarrow>
   print_from (buf_reader bs) i (of_nat (length bs)) s = (True, tty_puts (drop (unat i) bs) s)"
proof (induction "length bs - unat i" arbitrary: i s)
  case 0
  have "unat (of_nat (length bs) :: u32) = length bs" using 0 by (intro unat_of_nat_u32)
  then have "\<not> i < of_nat (length bs)" using 0 by (simp add: word_less_nat_alt)
  then show ?case using 0 by (simp add: print_from.simps [of _ i])
next
  case (Suc k)
  let ?n = "of_nat (length bs) :: u32"
  have n: "unat ?n = length bs" using Suc by (intro unat_of_nat_u32)
  have lt: "i < ?n" using Suc n by (simp add: word_less_nat_alt)
  have suc: "unat (i + 1) = Suc (unat i)" using lt by (rule unat_suc_u32)
  have ilt: "unat i < length bs" using Suc by auto
  then have rd: "buf_reader bs i (mem s) = bs ! unat i" by (simp add: buf_reader_def)
  have "print_from (buf_reader bs) (i + 1) ?n (tty_puts [bs ! unat i] s)
      = (True, tty_puts (drop (unat (i + 1)) bs) (tty_puts [bs ! unat i] s))"
    by (rule Suc.hyps(1)) (use Suc suc in auto)
  moreover have "drop (unat i) bs = bs ! unat i # drop (unat (i + 1)) bs"
    using ilt suc by (simp add: Cons_nth_drop_Suc)
  ultimately show ?case
    using lt by (simp add: print_from.simps [of _ i] rd putchar_eq ucast_u8_neq_minus_1)
qed

lemma print_list:
  "length bs < 4294967296 \<Longrightarrow> print (buf_reader bs) (of_nat (length bs)) s = (True, tty_puts bs s)"
  using print_from_list [of bs 0 s] by (simp add: print_def)

lemma print_chunk_list:
  assumes "length bs + unat written \<le> 2147483647"
  shows "print_chunk (buf_reader bs) (of_nat (length bs)) written s k
     = k (written + of_nat (length bs)) (tty_puts bs s)"
proof -
  have "unat (0x7FFFFFFF - written) = 2147483647 - unat written"
    using assms by (subst unat_minus_u32) (auto simp: word_le_nat_alt)
  moreover have "unat (of_nat (length bs) :: u32) = length bs"
    using assms by (intro unat_of_nat_u32) simp
  ultimately have "\<not> 0x7FFFFFFF - written < of_nat (length bs)"
    using assms by (simp add: word_less_nat_alt)
  then show ?thesis using assms print_list [of bs s] by (simp add: print_chunk_def Let_def)
qed

section \<open>The text of a format\<close>

text \<open>
  The reference, for formats without string arguments: \<open>%%\<close> prints a percent sign, \<open>%c\<close> the
  character argument, \<open>%x\<close> is not handled and prints its letter, and any other percent sign
  ends the interpretation: the rest of the format is printed as it stands.
\<close>

fun printf_text :: "string \<Rightarrow> u32 list \<Rightarrow> u8 list option" where
  "printf_text [] args = Some []"
| "printf_text (c # r) args =
     (if c \<noteq> CHR ''%'' then map_option (\<lambda>t. of_char c # t) (printf_text r args)
      else case r of
        [] \<Rightarrow> Some [of_char c]
      | d # r' \<Rightarrow>
          if d = CHR ''%'' then map_option (\<lambda>t. of_char d # t) (printf_text r' args)
          else if d = CHR ''c'' then
            (case args of [] \<Rightarrow> None | a # args' \<Rightarrow> map_option (\<lambda>t. ucast a # t) (printf_text r' args'))
          else if d = CHR ''x'' then printf_text r args
          else if d = CHR ''s'' then None
          else Some (lit (c # r)))"

lemma printf_text_plain:
  "CHR ''%'' \<notin> set xs \<Longrightarrow> printf_text (xs @ r) args = map_option (\<lambda>t. lit xs @ t) (printf_text r args)"
proof (induction xs)
  case Nil
  show ?case by (cases "printf_text r args") (simp_all add: lit_def)
next
  case (Cons x xs)
  then have "x \<noteq> CHR ''%''" "CHR ''%'' \<notin> set xs" by auto
  with Cons.IH have "printf_text ((x # xs) @ r) args
      = map_option (\<lambda>t. of_char x # t) (map_option (\<lambda>t. lit xs @ t) (printf_text r args))"
    by simp
  then show ?case unfolding option.map_comp by (simp add: lit_def comp_def)
qed

lemma takeWhile_split: "take (length (takeWhile P xs)) xs = takeWhile P xs"
  by (rule takeWhile_eq_take [symmetric])

text \<open>The literal chunk of the loop: its first character, then text without percent signs.\<close>

lemma literal_chunk:
  assumes "format = c # r"
  shows "take (literal_amount format) format = c # takeWhile (\<lambda>c. c \<noteq> CHR ''%'') r"
    "drop (literal_amount format) format = dropWhile (\<lambda>c. c \<noteq> CHR ''%'') r"
  using assms by (simp_all add: literal_amount_def takeWhile_split dropWhile_eq_drop)

lemma printf_text_chunk:
  "printf_text r args = map_option (\<lambda>t. lit (takeWhile (\<lambda>c. c \<noteq> CHR ''%'') r) @ t)
     (printf_text (dropWhile (\<lambda>c. c \<noteq> CHR ''%'') r) args)"
proof -
  have "CHR ''%'' \<notin> set (takeWhile (\<lambda>c. c \<noteq> CHR ''%'') r)" by (auto dest: set_takeWhileD)
  from printf_text_plain [OF this, of "dropWhile (\<lambda>c. c \<noteq> CHR ''%'') r" args] show ?thesis by simp
qed

lemma printf_loop_literal:
  assumes "c \<noteq> CHR ''%'' \<or> (\<exists>r'. r = CHR ''%'' # r')"
    and "format = (if c = CHR ''%'' then r else c # r)"
    and "length (lit (take (literal_amount format) format)) + unat written \<le> 2147483647"
  shows "printf_loop (c # r) args written s =
     printf_loop (drop (literal_amount format) format) args
       (written + of_nat (length (lit (take (literal_amount format) format))))
       (tty_puts (lit (take (literal_amount format) format)) s)"
proof -
  have ne: "format \<noteq> []" using assms(1,2) by auto
  then have len: "length (lit (take (literal_amount format) format)) = literal_amount format"
    using length_takeWhile_le [of "\<lambda>c. c \<noteq> CHR ''%''" "tl format"]
    by (cases format) (auto simp: lit_def literal_amount_def)
  have "printf_loop (c # r) args written s =
    print_chunk (buf_reader (lit (take (literal_amount format) format))) (of_nat (literal_amount format))
      written s (printf_loop (drop (literal_amount format) format) args)"
    using assms(1) by (simp add: assms(2) Let_def)
  then show ?thesis using print_chunk_list [OF assms(3)] len by simp
qed

lemma printf_loop_text:
  assumes "printf_text f args = Some t" "length t + unat written \<le> 2147483647"
  shows "printf_loop f args written s = Some (written + of_nat (length t), tty_puts t s)"
  using assms
proof (induction f arbitrary: args t written s rule: length_induct)
  case (1 f)
  have wr: "unat (written + of_nat k) = unat written + k" if "k + unat written \<le> 2147483647" for k
    using that by (subst unat_plus_u32) (simp_all add: unat_of_nat_u32)
  show ?case
  proof (cases f)
    case (Cons c r)
    let ?P = "\<lambda>c. c \<noteq> CHR ''%''"
    have literal: ?thesis
      if l1: "c \<noteq> CHR ''%'' \<or> (\<exists>r'. r = CHR ''%'' # r')" and l2: "format = (if c = CHR ''%'' then r else c # r)"
         and l3: "printf_text f args = map_option (\<lambda>u. of_char (hd format) # u) (printf_text (tl format) args)"
       for format
    proof -
      obtain x q where fmt: "format = x # q" using l1 l2 by (cases format) (auto split: if_splits)
      let ?u = "lit (x # takeWhile ?P q)"
      have "printf_text f args = map_option (\<lambda>v. ?u @ v) (printf_text (dropWhile ?P q) args)"
        unfolding l3 fmt list.sel printf_text_chunk [of q args] option.map_comp
        by (simp add: lit_def comp_def)
      then obtain v where v: "printf_text (dropWhile ?P q) args = Some v" "t = ?u @ v"
        using "1.prems"(1)
        by (cases "printf_text (dropWhile ?P q) args") (simp_all del: printf_text.simps)
      have len: "length ?u + unat written \<le> 2147483647" using v "1.prems"(2) by simp
      have "printf_loop f args written s
          = printf_loop (dropWhile ?P q) args (written + of_nat (length ?u)) (tty_puts ?u s)"
        using printf_loop_literal [OF l1 l2, of written args s] len Cons
        unfolding literal_chunk [OF fmt] by simp
      also have "\<dots> = Some (written + of_nat (length ?u) + of_nat (length v), tty_puts v (tty_puts ?u s))"
      proof (rule "1.IH"[rule_format, OF _ v(1)])
        show "length (dropWhile ?P q) < length f"
          using l2 Cons fmt length_dropWhile_le [of ?P q] by (auto split: if_splits)
        show "length v + unat (written + of_nat (length ?u)) \<le> 2147483647"
          using wr [OF len] v "1.prems"(2) by simp
      qed
      finally show ?thesis using v(2) by (simp add: add.assoc del: tty_puts.simps)
    qed
    show ?thesis
    proof (cases "c = CHR ''%''")
      case False
      then show ?thesis by (intro literal [of f]) (auto simp: Cons)
    next
      case pct: True
      consider (rest) "r = [] \<or> (\<exists>d r'. r = d # r' \<and> d \<notin> {CHR ''%'', CHR ''c'', CHR ''x'', CHR ''s''})"
        | (pp) r' where "r = CHR ''%'' # r'" | (c) r' where "r = CHR ''c'' # r'"
        | (x) r' where "r = CHR ''x'' # r'" | (s) r' where "r = CHR ''s'' # r'"
        by (cases r) auto
      then show ?thesis
      proof cases
        case rest
        then have "t = lit (c # r)"
          and "printf_loop f args written s = print_chunk (buf_reader (lit (c # r)))
             (of_nat (length (lit (c # r)))) written s (\<lambda>written s. Some (written, s))"
          using "1.prems"(1) Cons pct by (auto simp: lit_def)
        then show ?thesis using print_chunk_list [of t written s "\<lambda>written s. Some (written, s)"] "1.prems"(2)
          by simp
      next
        case pp
        then show ?thesis by (intro literal [of r]) (auto simp: Cons pct)
      next
        case c
        then obtain a args' u where a: "args = a # args'" "printf_text r' args' = Some u" "t = ucast a # u"
          using "1.prems"(1) Cons pct by (cases args) auto
        have "printf_loop f args written s = printf_loop r' args' (written + 1) (tty_puts [ucast a] s)"
          using print_chunk_list [of "[ucast a]" written s "printf_loop r' args'"] a "1.prems"(2) Cons pct c
          by simp
        also have "\<dots> = Some (written + 1 + of_nat (length u), tty_puts u (tty_puts [ucast a] s))"
          using wr [of 1] a c Cons "1.prems"(2) by (intro "1.IH"[rule_format]) auto
        finally show ?thesis using a by (simp add: add.assoc)
      next
        case x
        then have "printf_text r args = Some t" "printf_loop f args written s = printf_loop r args written s"
          using "1.prems"(1) Cons pct by (simp_all del: printf_text.simps(2) add: printf_text.simps(2) [of "CHR ''%''"])
        moreover have "length r < length f" using Cons by simp
        ultimately show ?thesis using "1.IH" "1.prems"(2) by simp
      next
        case s
        then show ?thesis using "1.prems"(1) Cons pct by simp
      qed
    qed
  qed (use 1 in auto)
qed

section \<open>Properties\<close>

text \<open>
  C30. \<^verbatim>\<open>printf\<close> on a format without string arguments prints exactly the text of the format,
  although it prints it in chunks, and returns its length, as long as that length is an \<^verbatim>\<open>int\<close>.  A text
  without newlines that fits before the end of the screen appears there: its characters, in order, in
  the cells from the cursor on, and the cursor behind them.
\<close>

theorem printf_prints_text:
  assumes "printf_text f args = Some t" "length t \<le> 2147483647"
  shows "printf f args s = Some (of_nat (length t), tty_puts t s)
    \<and> (on_screen s \<longrightarrow> 0x0A \<notin> set t \<longrightarrow> cursor s + length t < 2000 \<longrightarrow>
         map (\<lambda>k. load16 (mem (tty_puts t s)) (cell (terminal_buffer s) (cursor s + k))) [0..<length t]
           = map (\<lambda>b. vga_entry b (terminal_color s)) t
         \<and> cursor (tty_puts t s) = cursor s + length t)"
  using printf_loop_text [OF assms(1), of 0 s] terminal_write_text [of s t] terminal_write_puts [of t s] assms(2)
  by (simp add: printf_def)

theorem printf_prints_text_witness:
  "\<exists>s'. printf ''100%% %c %x!'' [0x41] (home_tty\<lparr>terminal_row := 0\<rparr>) = Some (9, s')
     \<and> load16 (mem s') (cell VGA_MEMORY 79) = vga_entry 0x31 7 \<and> cursor s' = 88"
proof -
  let ?s = "home_tty\<lparr>terminal_row := 0\<rparr>" and ?t = "lit ''100% A x!''"
  have t: "printf_text ''100%% %c %x!'' [0x41] = Some ?t" "length ?t = 9" "0x0A \<notin> set ?t" "?t ! 0 = 0x31" by (simp_all add: lit_def)
  have s: "on_screen ?s" "cursor ?s = 79" "terminal_buffer ?s = VGA_MEMORY" "terminal_color ?s = 7"
    by (simp_all add: home_tty_def on_screen_def cursor_def)
  have p: "printf ''100%% %c %x!'' [0x41] ?s = Some (9, tty_puts ?t ?s)" "cursor (tty_puts ?t ?s) = 88"
    "map (\<lambda>k. load16 (mem (tty_puts ?t ?s)) (cell VGA_MEMORY (79 + k))) [0..<9] = map (\<lambda>b. vga_entry b 7) ?t"
    using printf_prints_text [OF t(1), of ?s] t(2,3) s by simp_all
  have "load16 (mem (tty_puts ?t ?s)) (cell VGA_MEMORY (79 + 0)) = vga_entry (?t ! 0) 7"
    using arg_cong [OF p(3), of "\<lambda>xs. xs ! 0"] t(2) by (simp add: nth_map)
  then show ?thesis using p(1,2) t(4) by auto
qed

end
