(* ===== verification/Spinlock.thy ===== *)
theory Spinlock
  imports Prelude
begin

text \<open>
  The spin lock of \<^verbatim>\<open>kernel/include/kernel/spinlock.h\<close>, twice: as the functions a single
  processor runs, which is how the allocator uses it, and as the atomic steps of any number of
  processors that call \<^verbatim>\<open>spin_lock\<close>, \<^verbatim>\<open>spin_trylock\<close> and \<^verbatim>\<open>spin_unlock\<close> on one lock word.

  The lemmas show that on one processor taking a free lock returns and taking a held lock does
  not, and that in every reachable state of the concurrent system at most one processor is
  between lock and unlock, the lock word is busy exactly when one is, and a free lock that a
  processor waits for is taken, by that processor or another, before the waiting one has made
  more than two steps of its own.
\<close>

abbreviation EBUSY :: u32 where "EBUSY \<equiv> 1"

type_synonym spinlock = u32

section \<open>One processor\<close>

text \<open>The exchange returns the old value of the lock word and the new one.\<close>

definition xchg_32 :: "spinlock \<Rightarrow> u32 \<Rightarrow> u32 \<times> spinlock" where
  "xchg_32 lock x = (lock, x)"

text \<open>\<^verbatim>\<open>while (*lock) cpu_relax();\<close> on a processor that nobody interrupts.\<close>

partial_function (option) spin_relax :: "spinlock \<Rightarrow> spinlock option" where
  "spin_relax lock = (if lock \<noteq> 0 then spin_relax lock else Some lock)"

partial_function (option) spin_lock :: "spinlock \<Rightarrow> spinlock option" where
  "spin_lock lock =
     (case xchg_32 lock EBUSY of
        (old, lock') \<Rightarrow> if old = 0 then Some lock' else Option.bind (spin_relax lock') spin_lock)"

definition spin_unlock :: "spinlock \<Rightarrow> spinlock" where
  "spin_unlock lock = 0"

definition spin_trylock :: "spinlock \<Rightarrow> u32 \<times> spinlock" where
  "spin_trylock lock = xchg_32 lock EBUSY"

lemma spin_relax_eq: "spin_relax lock = (if lock = 0 then Some 0 else None)"
proof (cases "lock = 0")
  case True
  then show ?thesis by (simp add: spin_relax.simps)
next
  case False
  have "r = 0 \<and> lock = 0" if "spin_relax lock = Some r" for r
    by (rule spin_relax.raw_induct [OF _ that]) (auto split: if_splits)
  with False show ?thesis by (cases "spin_relax lock") auto
qed

lemma spin_lock_eq: "spin_lock lock = (if lock = 0 then Some EBUSY else None)"
  by (simp add: spin_lock.simps xchg_32_def spin_relax_eq)

section \<open>Many processors\<close>

text \<open>
  Where a processor stands: outside, about to exchange at the head of the loop of \<^verbatim>\<open>spin_lock\<close>,
  in its inner loop, or holding the lock.
\<close>

datatype pc = Outside | Exchanging | Relaxing | Holding

record lock_system =
  lock_word :: spinlock
  pcs :: "nat \<Rightarrow> pc"

definition lock_init :: lock_system where
  "lock_init = \<lparr>lock_word = 0, pcs = (\<lambda>_. Outside)\<rparr>"

definition at :: "nat \<Rightarrow> pc \<Rightarrow> lock_system \<Rightarrow> lock_system" where
  "at i p s = s\<lparr>pcs := (pcs s)(i := p)\<rparr>"

lemma at_sel [simp]:
  "lock_word (at i p s) = lock_word s" "pcs (at i p s) = (pcs s)(i := p)"
  by (simp_all add: at_def)

inductive lock_step :: "nat \<Rightarrow> lock_system \<Rightarrow> lock_system \<Rightarrow> bool" where
  call: "pcs s i = Outside \<Longrightarrow> lock_step i s (at i Exchanging s)"
| exchange_free: "pcs s i = Exchanging \<Longrightarrow> xchg_32 (lock_word s) EBUSY = (0, w) \<Longrightarrow>
    lock_step i s (at i Holding (s\<lparr>lock_word := w\<rparr>))"
| exchange_held: "pcs s i = Exchanging \<Longrightarrow> xchg_32 (lock_word s) EBUSY = (old, w) \<Longrightarrow> old \<noteq> 0 \<Longrightarrow>
    lock_step i s (at i Relaxing (s\<lparr>lock_word := w\<rparr>))"
| relax: "pcs s i = Relaxing \<Longrightarrow> lock_word s \<noteq> 0 \<Longrightarrow> lock_step i s s"
| retry: "pcs s i = Relaxing \<Longrightarrow> lock_word s = 0 \<Longrightarrow> lock_step i s (at i Exchanging s)"
| try_free: "pcs s i = Outside \<Longrightarrow> spin_trylock (lock_word s) = (0, w) \<Longrightarrow>
    lock_step i s (at i Holding (s\<lparr>lock_word := w\<rparr>))"
| try_held: "pcs s i = Outside \<Longrightarrow> spin_trylock (lock_word s) = (old, w) \<Longrightarrow> old \<noteq> 0 \<Longrightarrow>
    lock_step i s (s\<lparr>lock_word := w\<rparr>)"
| unlock: "pcs s i = Holding \<Longrightarrow> lock_step i s (at i Outside (s\<lparr>lock_word := spin_unlock (lock_word s)\<rparr>))"

inductive_cases lock_stepE: "lock_step i s t"

inductive lock_reachable :: "lock_system \<Rightarrow> bool" where
  start: "lock_reachable lock_init"
| step: "lock_reachable s \<Longrightarrow> lock_step i s t \<Longrightarrow> lock_reachable t"

text \<open>The invariant: the word is busy exactly while somebody holds, and nobody shares.\<close>

definition lock_inv :: "lock_system \<Rightarrow> bool" where
  "lock_inv s \<longleftrightarrow>
     (lock_word s = 0 \<longleftrightarrow> (\<forall>i. pcs s i \<noteq> Holding))
     \<and> (\<forall>i j. pcs s i = Holding \<and> pcs s j = Holding \<longrightarrow> i = j)"

lemma lock_inv_step: "lock_step i s t \<Longrightarrow> lock_inv s \<Longrightarrow> lock_inv t"
proof (induction rule: lock_step.induct)
  case (unlock s i)
  then show ?case by (auto simp: lock_inv_def spin_unlock_def)
next
  case (exchange_held s i old w)
  then have "pcs (at i Relaxing (s\<lparr>lock_word := w\<rparr>)) j = Holding \<longleftrightarrow> pcs s j = Holding" for j by auto
  then show ?case using exchange_held unfolding lock_inv_def by (simp add: xchg_32_def)
next
  case (call s i)
  then have "pcs (at i Exchanging s) j = Holding \<longleftrightarrow> pcs s j = Holding" for j by auto
  then show ?case using call unfolding lock_inv_def by simp
next
  case (retry s i)
  then have "pcs (at i Exchanging s) j = Holding \<longleftrightarrow> pcs s j = Holding" for j by auto
  then show ?case using retry unfolding lock_inv_def by simp
next
  case (try_held s i old w)
  then show ?case by (auto simp: lock_inv_def xchg_32_def spin_trylock_def)
qed (auto simp: lock_inv_def xchg_32_def spin_trylock_def split: if_splits)

lemma lock_inv_reachable: "lock_reachable s \<Longrightarrow> lock_inv s"
proof (induction rule: lock_reachable.induct)
  case start
  show ?case by (simp add: lock_inv_def lock_init_def)
next
  case (step s i t)
  then show ?case by (blast intro: lock_inv_step)
qed

section \<open>Properties\<close>

text \<open>
  C13. Mutual exclusion: in every state that any number of processors can reach by taking,
  trying and releasing the lock in any order, at most one of them holds it.
\<close>

theorem spin_lock_mutual_exclusion:
  assumes "lock_reachable s" "pcs s i = Holding" "pcs s j = Holding"
  shows "i = j"
  using lock_inv_reachable [OF assms(1)] assms(2,3) by (auto simp: lock_inv_def)

text \<open>A run in which processor 1 takes the lock and processor 2 then finds it held.\<close>

definition contended :: lock_system where
  "contended = \<lparr>lock_word = 1, pcs = (\<lambda>_. Outside)(1 := Holding, 2 := Relaxing)\<rparr>"

lemma contended_reachable: "lock_reachable contended"
proof -
  let ?s1 = "at 1 Holding (lock_init\<lparr>lock_word := 1\<rparr>)"
  have "lock_step 1 lock_init ?s1"
    by (rule lock_step.try_free) (simp_all add: lock_init_def spin_trylock_def xchg_32_def)
  then have "lock_reachable ?s1" by (rule lock_reachable.step [OF lock_reachable.start])
  moreover have "lock_step 2 ?s1 (at 2 Exchanging ?s1)"
    by (rule lock_step.call) (simp add: lock_init_def)
  ultimately have "lock_reachable (at 2 Exchanging ?s1)" by (rule lock_reachable.step)
  moreover have "lock_step 2 (at 2 Exchanging ?s1) (at 2 Relaxing ((at 2 Exchanging ?s1)\<lparr>lock_word := 1\<rparr>))"
    by (rule lock_step.exchange_held [where old = 1]) (simp_all add: xchg_32_def)
  ultimately have "lock_reachable (at 2 Relaxing ((at 2 Exchanging ?s1)\<lparr>lock_word := 1\<rparr>))"
    by (rule lock_reachable.step)
  moreover have "at 2 Relaxing ((at 2 Exchanging ?s1)\<lparr>lock_word := 1\<rparr>) = contended"
    by (simp add: contended_def lock_init_def at_def)
  ultimately show ?thesis by simp
qed

theorem spin_lock_mutual_exclusion_witness:
  "lock_reachable contended \<and> pcs contended 1 = Holding \<and> {j. pcs contended j = Holding} = {1}"
proof -
  have "pcs contended 1 = Holding" by (simp add: contended_def)
  with spin_lock_mutual_exclusion [OF contended_reachable] contended_reachable show ?thesis by blast
qed

section \<open>Runs\<close>

text \<open>
  A run is a list of steps, each with the processor that makes it and the state it leads to; any
  processor may make the next one.
\<close>

fun lock_run :: "lock_system \<Rightarrow> (nat \<times> lock_system) list \<Rightarrow> bool" where
  "lock_run s [] \<longleftrightarrow> True"
| "lock_run s ((j, t) # r) \<longleftrightarrow> lock_step j s t \<and> lock_run t r"

definition own_steps :: "nat \<Rightarrow> (nat \<times> lock_system) list \<Rightarrow> nat" where
  "own_steps i r = length (filter (\<lambda>(j, t). j = i) r)"

lemma own_steps_simps [simp]:
  "own_steps i [] = 0" "own_steps i ((j, t) # r) = (if j = i then Suc (own_steps i r) else own_steps i r)"
  by (simp_all add: own_steps_def)

text \<open>Every step from a free lock that does not take it, and nobody is ever stuck.\<close>

lemma lock_step_idle:
  assumes "lock_step j s t" "lock_word s = 0" "\<forall>k. pcs s k \<noteq> Holding" "pcs t j \<noteq> Holding"
  shows "(pcs s j = Outside \<or> pcs s j = Relaxing) \<and> t = at j Exchanging s"
  using assms(1) by (rule lock_stepE) (use assms(2-4) in \<open>auto simp: xchg_32_def spin_trylock_def\<close>)

lemma lock_step_enabled: "\<exists>t. lock_step i s t"
proof (cases "pcs s i")
  case Outside
  then show ?thesis by (blast intro: lock_step.call)
next
  case Exchanging
  then show ?thesis
    using lock_step.exchange_free [of s i EBUSY] lock_step.exchange_held [of s i "lock_word s" EBUSY]
    by (cases "lock_word s = 0") (auto simp: xchg_32_def)
next
  case Relaxing
  then show ?thesis by (cases "lock_word s = 0") (blast intro: lock_step.relax lock_step.retry)+
next
  case Holding
  then show ?thesis by (blast intro: lock_step.unlock)
qed

text \<open>
  While a free lock stays free, a processor at the exchange makes no step at all and one in its
  inner loop makes one at most.
\<close>

lemma lock_run_idle:
  assumes "lock_run s r" "lock_word s = 0" "\<forall>k. pcs s k \<noteq> Holding"
    and "\<not> (\<exists>(j, t) \<in> set r. pcs t j = Holding)"
  shows "(pcs s i = Exchanging \<longrightarrow> own_steps i r = 0) \<and> (pcs s i = Relaxing \<longrightarrow> own_steps i r \<le> 1)"
  using assms
proof (induction s r rule: lock_run.induct)
  case (2 s j t r)
  then have "lock_step j s t" "pcs t j \<noteq> Holding" by auto
  then have t: "pcs s j = Outside \<or> pcs s j = Relaxing" "t = at j Exchanging s"
    using lock_step_idle 2 by blast+
  moreover have "(pcs t i = Exchanging \<longrightarrow> own_steps i r = 0) \<and> (pcs t i = Relaxing \<longrightarrow> own_steps i r \<le> 1)"
    using 2 t by (intro "2.IH") auto
  ultimately show ?case by (auto split: if_splits)
qed simp

text \<open>
  C35. Progress: take any reachable state in which nobody holds the lock and a processor waits
  inside \<^verbatim>\<open>spin_lock\<close>. That processor can make a step, and in every run from there, whatever
  the other processors do in between, the lock has been taken by some processor before the
  waiting one has made more than two steps of its own: a free lock is never spun on for longer.
  Which of several waiting processors gets it is not determined, and the lock is not fair.
\<close>

theorem spin_lock_progress:
  assumes "lock_reachable s" "\<forall>j. pcs s j \<noteq> Holding" "pcs s i = Exchanging \<or> pcs s i = Relaxing"
  shows "(\<exists>t. lock_step i s t)
    \<and> (\<forall>r. lock_run s r \<longrightarrow> 2 \<le> own_steps i r \<longrightarrow> (\<exists>(j, t) \<in> set r. pcs t j = Holding))"
proof -
  have "lock_word s = 0" using lock_inv_reachable [OF assms(1)] assms(2) by (simp add: lock_inv_def)
  then have "\<exists>(j, t) \<in> set r. pcs t j = Holding" if "lock_run s r" "2 \<le> own_steps i r" for r
    using lock_run_idle [OF that(1) _ assms(2), of i] assms(3) that(2) by force
  with lock_step_enabled show ?thesis by blast
qed

text \<open>Processor 1 has released the lock that processor 2 was waiting for.\<close>

definition released :: lock_system where
  "released = at 1 Outside (contended\<lparr>lock_word := spin_unlock (lock_word contended)\<rparr>)"

lemma released_reachable: "lock_reachable released"
  unfolding released_def
  by (rule lock_reachable.step [OF contended_reachable lock_step.unlock]) (simp add: contended_def)

lemma released_sel:
  "lock_word released = 0" "pcs released = (\<lambda>_. Outside)(2 := Relaxing)"
  by (simp_all add: released_def contended_def spin_unlock_def fun_eq_iff)

theorem spin_lock_progress_witness:
  "lock_reachable released \<and> (\<exists>t. lock_step 2 released t)
   \<and> (\<exists>(j, t) \<in> set [(2, at 2 Exchanging released),
        (2, at 2 Holding ((at 2 Exchanging released)\<lparr>lock_word := EBUSY\<rparr>))]. pcs t j = Holding)"
proof -
  let ?r = "[(2, at 2 Exchanging released),
    (2, at 2 Holding ((at 2 Exchanging released)\<lparr>lock_word := EBUSY\<rparr>))]"
  have "lock_step 2 released (at 2 Exchanging released)"
    by (rule lock_step.retry) (simp_all add: released_sel)
  moreover have "lock_step 2 (at 2 Exchanging released)
      (at 2 Holding ((at 2 Exchanging released)\<lparr>lock_word := EBUSY\<rparr>))"
    by (rule lock_step.exchange_free) (simp_all add: released_sel xchg_32_def)
  ultimately have "lock_run released ?r" by simp
  moreover have "2 \<le> own_steps 2 ?r" by simp
  moreover have "\<forall>j. pcs released j \<noteq> Holding" by (simp add: released_sel)
  ultimately show ?thesis
    using spin_lock_progress [OF released_reachable, of 2] released_reachable
    by (simp only: released_sel fun_upd_same) blast
qed

end
