(* ===== verification/Descriptors.thy ===== *)
theory Descriptors
  imports Tty
begin

text \<open>
  The segment and interrupt descriptor tables: \<^verbatim>\<open>kernel/kernel/gdt.c\<close>, \<^verbatim>\<open>idt.c\<close> and their headers,
  with the two assembler routines of \<^verbatim>\<open>boot.S\<close> that load them.  The addresses of the tables are
  chosen by the linker and are the parameters \<open>gdt_addr\<close> and \<open>idt_addr\<close>.  The GDT has three
  entries and an index outside is undefined; the IDT is indexed by a byte, so each of its 256
  entries is always in range. The state also has the interrupt flag that \<^verbatim>\<open>sti\<close> sets.

  The lemmas decode the entries as the processor does: a gate or segment that was set reads
  back with the base, limit, selector and flags it was set with.
\<close>

record gdt_entry =
  limit_low :: u16
  base_low :: u16
  base_middle :: u8
  access :: u8
  granularity :: u8
  base_high :: u8

record gdt_ptr =
  gp_limit :: u16
  gp_base :: u32

record idt_entry =
  base_lo :: u16
  sel :: u16
  always0 :: u8
  flags :: u8
  base_hi :: u16

record idt_ptr =
  idtp_limit :: u16
  idtp_base :: u32

record desc = tty +
  gdt :: "gdt_entry list"
  gp :: gdt_ptr
  gdt_addr :: u32
  idt :: "u8 \<Rightarrow> idt_entry"
  idtp :: idt_ptr
  idt_addr :: u32
  gdtr :: gdt_ptr
  idtr :: idt_ptr
  cs_sel :: u16
  data_sel :: u16
  iflag :: bool

definition gdt_set_gate :: "u32 \<Rightarrow> u32 \<Rightarrow> u32 \<Rightarrow> u8 \<Rightarrow> u8 \<Rightarrow> 'a desc_scheme \<Rightarrow> 'a desc_scheme option" where
  "gdt_set_gate num bas limit acc gran s =
     (if unat num < length (gdt s)
      then Some (s\<lparr>gdt := (gdt s)[unat num := (gdt s ! unat num)\<lparr>
             base_low := ucast (bas AND 0xFFFF),
             base_middle := ucast (drop_bit 16 bas AND 0xFF),
             base_high := ucast (drop_bit 24 bas AND 0xFF),
             limit_low := ucast (limit AND 0xFFFF),
             granularity := ucast (drop_bit 16 limit AND 0x0F) OR (gran AND 0xF0),
             access := acc\<rparr>]\<rparr>)
      else None)"

text \<open>
  \<^verbatim>\<open>lgdt\<close>, then the kernel data selector into the data segment registers and a far jump that
  loads the code selector.
\<close>

definition gdt_flush :: "gdt_ptr \<Rightarrow> 'a desc_scheme \<Rightarrow> 'a desc_scheme" where
  "gdt_flush ptr s = s\<lparr>gdtr := ptr, data_sel := 0x10, cs_sel := 0x08\<rparr>"

definition gdt_install :: "'a desc_scheme \<Rightarrow> 'a desc_scheme option" where
  "gdt_install s =
     do {
       let s = s\<lparr>gp := \<lparr>gp_limit = 8 * 3 - 1, gp_base = gdt_addr s\<rparr>\<rparr>;
       s \<leftarrow> gdt_set_gate 0 0 0 0 0 s;
       s \<leftarrow> gdt_set_gate 1 0 0xFFFFFFFF 0x9A 0xCF s;
       s \<leftarrow> gdt_set_gate 2 0 0xFFFFFFFF 0x92 0xCF s;
       Some (gdt_flush (gp s) s)
     }"

definition idt_set_gate :: "u8 \<Rightarrow> u32 \<Rightarrow> u16 \<Rightarrow> u8 \<Rightarrow> 'a desc_scheme \<Rightarrow> 'a desc_scheme" where
  "idt_set_gate num bas selector flgs s =
     s\<lparr>idt := (idt s)(num := (idt s num)\<lparr>
         base_lo := ucast (bas AND 0xFFFF),
         base_hi := ucast (drop_bit 16 bas AND 0xFFFF),
         sel := selector,
         always0 := 0,
         flags := flgs\<rparr>)\<rparr>"

definition idt_load :: "idt_ptr \<Rightarrow> 'a desc_scheme \<Rightarrow> 'a desc_scheme" where
  "idt_load ptr s = s\<lparr>idtr := ptr\<rparr>"

definition zero_gate :: idt_entry where
  "zero_gate = \<lparr>base_lo = 0, sel = 0, always0 = 0, flags = 0, base_hi = 0\<rparr>"

definition idt_install :: "'a desc_scheme \<Rightarrow> 'a desc_scheme" where
  "idt_install s =
     (let s = s\<lparr>idtp := \<lparr>idtp_limit = 8 * 256 - 1, idtp_base = idt_addr s\<rparr>\<rparr>;
          s = s\<lparr>idt := (\<lambda>_. zero_gate)\<rparr>
      in idt_load (idtp s) s)"

section \<open>How the processor reads the entries\<close>

definition seg_base :: "gdt_entry \<Rightarrow> u32" where
  "seg_base e = ucast (base_low e) OR push_bit 16 (ucast (base_middle e)) OR push_bit 24 (ucast (base_high e))"

definition seg_limit :: "gdt_entry \<Rightarrow> u32" where
  "seg_limit e = ucast (limit_low e) OR push_bit 16 (ucast (granularity e AND 0x0F))"

text \<open>With the granularity bit the limit counts pages: the last byte of the segment.\<close>

definition seg_last :: "gdt_entry \<Rightarrow> u32" where
  "seg_last e = (if bit (granularity e) 7 then push_bit 12 (seg_limit e) OR 0xFFF else seg_limit e)"

definition gate_offset :: "idt_entry \<Rightarrow> u32" where
  "gate_offset e = ucast (base_lo e) OR push_bit 16 (ucast (base_hi e))"

lemma join_halves: "(ucast (ucast (v AND 0xFFFF) :: u16) :: u32)
    OR push_bit 16 (ucast (ucast (drop_bit 16 v AND 0xFFFF) :: u16)) = v"
proof (rule bit_word_eqI)
  fix n
  assume n: "n < LENGTH(32)"
  have m: "(0xFFFF :: u32) = mask 16" by (simp add: mask_eq_exp_minus_1)
  show "bit ((ucast (ucast (v AND 0xFFFF) :: u16) :: u32)
    OR push_bit 16 (ucast (ucast (drop_bit 16 v AND 0xFFFF) :: u16))) n = bit v n"
    using n unfolding m by (cases "n < 16") (auto simp: bit_simps)
qed

lemma join_base: "(ucast (ucast (v AND 0xFFFF) :: u16) :: u32)
    OR push_bit 16 (ucast (ucast (drop_bit 16 v AND 0xFF) :: u8))
    OR push_bit 24 (ucast (ucast (drop_bit 24 v AND 0xFF) :: u8)) = v"
proof (rule bit_word_eqI)
  fix n
  assume "n < LENGTH(32)"
  then have n: "n < 16 \<or> 16 \<le> n \<and> n < 24 \<or> 24 \<le> n \<and> n < 32" by auto
  have m: "(0xFFFF :: u32) = mask 16" "(0xFF :: u32) = mask 8" by (simp_all add: mask_eq_exp_minus_1)
  show "bit ((ucast (ucast (v AND 0xFFFF) :: u16) :: u32)
    OR push_bit 16 (ucast (ucast (drop_bit 16 v AND 0xFF) :: u8))
    OR push_bit 24 (ucast (ucast (drop_bit 24 v AND 0xFF) :: u8))) n = bit v n"
    using n unfolding m by (elim disjE) (auto simp: bit_simps)
qed

lemma join_limit: "(ucast (ucast (v AND 0xFFFF) :: u16) :: u32)
    OR push_bit 16 (ucast ((ucast (drop_bit 16 v AND 0x0F) OR (g AND 0xF0)) AND 0x0F :: u8)) = v AND 0xFFFFF"
proof (rule bit_word_eqI)
  fix n
  assume "n < LENGTH(32)"
  then have n: "n < 16 \<or> 16 \<le> n \<and> n < 20 \<or> 20 \<le> n \<and> n < 32" by auto
  have m: "(0xFFFF :: u32) = mask 16" "(0x0F :: u32) = mask 4" "(0xFFFFF :: u32) = mask 20"
     "(0x0F :: u8) = mask 4" "(0xF0 :: u8) = push_bit 4 (mask 4)"
    by (simp_all add: mask_eq_exp_minus_1)
  show "bit ((ucast (ucast (v AND 0xFFFF) :: u16) :: u32)
    OR push_bit 16 (ucast ((ucast (drop_bit 16 v AND 0x0F) OR (g AND 0xF0)) AND 0x0F :: u8))) n
    = bit (v AND 0xFFFFF) n"
    using n unfolding m by (elim disjE) (auto simp: bit_simps)
qed

lemma idt_set_gate_fields:
  "gate_offset (idt (idt_set_gate num bas selector flgs s) v) =
     (if v = num then bas else gate_offset (idt s v))
   \<and> sel (idt (idt_set_gate num bas selector flgs s) v) = (if v = num then selector else sel (idt s v))
   \<and> flags (idt (idt_set_gate num bas selector flgs s) v) = (if v = num then flgs else flags (idt s v))
   \<and> idt_set_gate num bas selector flgs s = s\<lparr>idt := idt (idt_set_gate num bas selector flgs s)\<rparr>"
  by (simp add: idt_set_gate_def gate_offset_def join_halves)

section \<open>Properties\<close>

text \<open>
  Setting a segment descriptor inside the table returns, changes only that entry, and the
  processor decodes it to the base, the low 20 bits of the limit, the access byte and the flag
  nibble it was set with.
\<close>

theorem gdt_set_gate_decodes:
  assumes "unat num < length (gdt s)"
  shows "\<exists>s' e. gdt_set_gate num bas limit acc gran s = Some s' \<and> gdt s' = (gdt s)[unat num := e]
     \<and> s' = s\<lparr>gdt := gdt s'\<rparr>
     \<and> seg_base e = bas \<and> seg_limit e = limit AND 0xFFFFF \<and> access e = acc
     \<and> drop_bit 4 (granularity e) = drop_bit 4 gran"
proof -
  have nib: "drop_bit 4 (ucast (drop_bit 16 limit AND 0x0F) OR (gran AND 0xF0) :: u8) = drop_bit 4 gran"
  proof -
    have m: "(0x0F :: u32) = mask 4" "(0xF0 :: u8) = push_bit 4 (mask 4)" by (simp_all add: mask_eq_exp_minus_1)
    show ?thesis unfolding m by (rule bit_word_eqI) (auto simp: bit_simps dest: bit_imp_le_length)
  qed
  let ?e = "(gdt s ! unat num)\<lparr>base_low := ucast (bas AND 0xFFFF),
             base_middle := ucast (drop_bit 16 bas AND 0xFF),
             base_high := ucast (drop_bit 24 bas AND 0xFF),
             limit_low := ucast (limit AND 0xFFFF),
             granularity := ucast (drop_bit 16 limit AND 0x0F) OR (gran AND 0xF0),
             access := acc\<rparr>"
  have "gdt_set_gate num bas limit acc gran s = Some (s\<lparr>gdt := (gdt s)[unat num := ?e]\<rparr>)"
    using assms by (simp add: gdt_set_gate_def)
  moreover have "seg_base ?e = bas" "seg_limit ?e = limit AND 0xFFFFF" "access ?e = acc"
    by (simp_all add: seg_base_def seg_limit_def join_base join_limit)
  moreover have "granularity ?e = ucast (drop_bit 16 limit AND 0x0F) OR (gran AND 0xF0)" by simp
  then have "drop_bit 4 (granularity ?e) = drop_bit 4 gran" by (simp only: nib)
  ultimately show ?thesis
    by (intro exI [of _ "s\<lparr>gdt := (gdt s)[unat num := ?e]\<rparr>"] exI [of _ ?e] conjI)
      (assumption | simp)+
qed

definition blank_desc :: desc where
  "blank_desc =
     \<lparr>mem = (\<lambda>_. 0), io = [], port_env = (\<lambda>_ _. 0x20), in_count = 0,
      terminal_row = 0, terminal_column = 0, terminal_color = 7, terminal_buffer = VGA_MEMORY,
      gdt = replicate 3 \<lparr>limit_low = 0, base_low = 0, base_middle = 0, access = 0, granularity = 0, base_high = 0\<rparr>,
      gp = \<lparr>gp_limit = 0, gp_base = 0\<rparr>, gdt_addr = 0x110000, idt = (\<lambda>_. zero_gate),
      idtp = \<lparr>idtp_limit = 0, idtp_base = 0\<rparr>, idt_addr = 0x111000,
      gdtr = \<lparr>gp_limit = 0, gp_base = 0\<rparr>, idtr = \<lparr>idtp_limit = 0, idtp_base = 0\<rparr>,
      cs_sel = 0, data_sel = 0, iflag = False\<rparr>"

theorem gdt_set_gate_decodes_witness:
  "\<exists>s'. gdt_set_gate 1 0x12345678 0xABCDE 0x9A 0xCF blank_desc = Some s'
     \<and> seg_base (gdt s' ! 1) = 0x12345678 \<and> seg_limit (gdt s' ! 1) = 0xABCDE"
proof -
  have len: "unat (1 :: u32) < length (gdt blank_desc)" by (simp add: blank_desc_def)
  from gdt_set_gate_decodes [OF len, of "0x12345678" "0xABCDE" "0x9A" "0xCF"] len
  show ?thesis by (auto simp: blank_desc_def)
qed

lemma gdt_install_effect:
  assumes "length (gdt s) = 3"
  shows "\<exists>s'. gdt_install s = Some s' \<and> length (gdt s') = 3
     \<and> seg_base (gdt s' ! 0) = 0 \<and> seg_last (gdt s' ! 0) = 0 \<and> access (gdt s' ! 0) = 0
     \<and> (\<forall>i \<in> {1, 2}. seg_base (gdt s' ! i) = 0 \<and> seg_last (gdt s' ! i) = 0xFFFFFFFF)
     \<and> access (gdt s' ! 1) = 0x9A \<and> access (gdt s' ! 2) = 0x92
     \<and> gdtr s' = \<lparr>gp_limit = 23, gp_base = gdt_addr s\<rparr> \<and> cs_sel s' = 8 * 1 \<and> data_sel s' = 8 * 2"
proof -
  from assms obtain a b c where "gdt s = [a, b, c]"
    by (metis (no_types, lifting) length_0_conv length_Suc_conv numeral_3_eq_3)
  then show ?thesis
    by (simp add: gdt_install_def gdt_set_gate_def gdt_flush_def Let_def seg_base_def seg_last_def seg_limit_def)
qed

lemma gdt_install_frame:
  "gdt_install s = Some s' \<Longrightarrow>
   s' = s\<lparr>gp := gp s', gdt := gdt s', gdtr := gdtr s', data_sel := 0x10, cs_sel := 0x08\<rparr>"
  by (auto simp: gdt_install_def gdt_set_gate_def gdt_flush_def Let_def split: if_splits bind_splits)

text \<open>
  C36. \<^verbatim>\<open>gdt_install\<close> on the three-entry table returns with the null descriptor in entry 0 and
  flat segments over the whole 4 GB address space in entries 1 (code) and 2 (data), loads the
  table register with the table's address and last byte, and selects the two segments.
\<close>

theorem gdt_install_flat:
  assumes "length (gdt s) = 3"
  shows "\<exists>s'. gdt_install s = Some s' \<and> length (gdt s') = 3
     \<and> seg_base (gdt s' ! 0) = 0 \<and> seg_last (gdt s' ! 0) = 0 \<and> access (gdt s' ! 0) = 0
     \<and> (\<forall>i \<in> {1, 2}. seg_base (gdt s' ! i) = 0 \<and> seg_last (gdt s' ! i) = 0xFFFFFFFF)
     \<and> access (gdt s' ! 1) = 0x9A \<and> access (gdt s' ! 2) = 0x92
     \<and> gdtr s' = \<lparr>gp_limit = 23, gp_base = gdt_addr s\<rparr> \<and> cs_sel s' = 8 * 1 \<and> data_sel s' = 8 * 2"
  by (rule gdt_install_effect [OF assms])

theorem gdt_install_flat_witness:
  "\<exists>s'. gdt_install blank_desc = Some s' \<and> seg_last (gdt s' ! 1) = 0xFFFFFFFF"
  using gdt_install_flat [of blank_desc] by (auto simp: blank_desc_def)

text \<open>
  Setting an interrupt gate changes exactly the entry of its vector, and the processor
  decodes that entry to the handler address, selector and flags it was set with.
\<close>

theorem idt_set_gate_decodes:
  "gate_offset (idt (idt_set_gate num bas selector flgs s) v) =
     (if v = num then bas else gate_offset (idt s v))
   \<and> sel (idt (idt_set_gate num bas selector flgs s) v) = (if v = num then selector else sel (idt s v))
   \<and> flags (idt (idt_set_gate num bas selector flgs s) v) = (if v = num then flgs else flags (idt s v))
   \<and> idt_set_gate num bas selector flgs s = s\<lparr>idt := idt (idt_set_gate num bas selector flgs s)\<rparr>"
  by (rule idt_set_gate_fields)

end
