(* ===== verification/Interrupts.thy ===== *)
theory Interrupts
  imports Descriptors Serial
begin

text \<open>
  Exceptions and hardware interrupts, \<^verbatim>\<open>kernel/kernel/isrc.c\<close> and \<^verbatim>\<open>irq.c\<close>: filling the IDT with
  the entry stubs of \<^verbatim>\<open>boot.S\<close>, programming the two interrupt controllers, and the C handlers
  the stubs call.  The addresses of the stubs are chosen by the linker: the functions \<open>isr\<close> and
  \<open>irq\<close> are parameters.  So is the code behind a handler installed at run time: \<open>run h r s\<close> is
  what calling address \<open>h\<close> on the saved registers \<open>r\<close> does.

  The lemmas show the IDT after installation, the vectors the controllers are programmed to
  (read off a model of the 8259's initialisation sequence), the message and halt of an
  exception, and the acknowledgements a hardware interrupt sends.
\<close>

record regs =
  r_gs :: u32  r_fs :: u32  r_es :: u32  r_ds :: u32
  r_edi :: u32  r_esi :: u32  r_ebp :: u32  r_esp :: u32
  r_ebx :: u32  r_edx :: u32  r_ecx :: u32  r_eax :: u32
  int_no :: u32  err_code :: u32
  r_eip :: u32  r_cs :: u32  r_eflags :: u32  r_useresp :: u32  r_ss :: u32

record irq_state = desc +
  irq_routines :: "u32 list"

section \<open>Exceptions\<close>

definition exception_messages :: "string list" where
  "exception_messages =
     [''Division By Zero'', ''Debug'', ''Non Maskable Interrupt'', ''Breakpoint'',
      ''Into Detected Overflow'', ''Out of Bounds'', ''Invalid Opcode'', ''No Coprocessor'',
      ''Double Fault'', ''Coprocessor Segment Overrun'', ''Bad TSS'', ''Segment Not Present'',
      ''Stack Fault'', ''General Protection Fault'', ''Page Fault'', ''Unknown Interrupt'',
      ''Coprocessor Fault'', ''Alignment Check'', ''Machine Check'', ''Reserved'',
      ''Reserved'', ''Reserved'', ''Reserved'', ''Reserved'',
      ''Reserved'', ''Reserved'', ''Reserved'', ''Reserved'',
      ''Reserved'', ''Reserved'', ''Reserved'', ''Reserved'']"

text \<open>Installing the gates \<open>first, first + 1, \<dots>\<close> for a list of entry addresses, in order.\<close>

fun set_gates :: "u8 \<Rightarrow> u32 list \<Rightarrow> 'a desc_scheme \<Rightarrow> 'a desc_scheme" where
  "set_gates first [] s = s"
| "set_gates first (h # hs) s = set_gates (first + 1) hs (idt_set_gate first h 0x08 0x8E s)"

definition isrs_install :: "(nat \<Rightarrow> u32) \<Rightarrow> 'a desc_scheme \<Rightarrow> 'a desc_scheme" where
  "isrs_install isr s = set_gates 0 (map isr [0..<32]) s"

definition fault_handler :: "regs \<Rightarrow> 'a desc_scheme \<Rightarrow> 'a desc_scheme outcome option" where
  "fault_handler r s =
     (if int_no r < 32
      then do {
        s \<leftarrow> qemu_printf (exception_messages ! unat (int_no r)) [] s;
        s \<leftarrow> qemu_printf ('' Exception. System Halted!'' @ [CHR 0x0A]) [] s;
        Some (Halts s)
      }
      else Some (Returns s))"

section \<open>Hardware interrupts\<close>

definition irq_install_handler :: "u32 \<Rightarrow> u32 \<Rightarrow> 'a irq_state_scheme \<Rightarrow> 'a irq_state_scheme option" where
  "irq_install_handler irq handler s =
     (if unat irq < length (irq_routines s)
      then Some (s\<lparr>irq_routines := (irq_routines s)[unat irq := handler]\<rparr>) else None)"

definition irq_uninstall_handler :: "u32 \<Rightarrow> 'a irq_state_scheme \<Rightarrow> 'a irq_state_scheme option" where
  "irq_uninstall_handler irq s =
     (if unat irq < length (irq_routines s)
      then Some (s\<lparr>irq_routines := (irq_routines s)[unat irq := 0]\<rparr>) else None)"

definition irq_remap :: "'a machine_scheme \<Rightarrow> 'a machine_scheme" where
  "irq_remap s = outportb_all
     [(0x20, 0x11), (0xA0, 0x11), (0x21, 0x20), (0xA1, 0x28), (0x21, 0x04),
      (0xA1, 0x02), (0x21, 0x01), (0xA1, 0x01), (0x21, 0x0), (0xA1, 0x0)] s"

definition irq_install :: "(nat \<Rightarrow> u32) \<Rightarrow> 'a desc_scheme \<Rightarrow> 'a desc_scheme" where
  "irq_install irq s = set_gates 32 (map irq [0..<16]) (irq_remap s)"

definition irq_handler ::
  "(u32 \<Rightarrow> regs \<Rightarrow> 'a irq_state_scheme \<Rightarrow> (regs \<times> 'a irq_state_scheme) option) \<Rightarrow>
   regs \<Rightarrow> 'a irq_state_scheme \<Rightarrow> (regs \<times> 'a irq_state_scheme) option" where
  "irq_handler run r s =
     do {
       s \<leftarrow> qemu_printf ''FAULT HANDLER FIRED %d'' [int_no r] s;
       handler \<leftarrow> (if unat (int_no r - 32) < length (irq_routines s)
                  then Some (irq_routines s ! unat (int_no r - 32)) else None);
       (r, s) \<leftarrow> (if handler \<noteq> 0 then run handler r s else Some (r, s));
       let s = (if 40 \<le> int_no r then outportb 0xA0 0x20 s else s);
       Some (r, outportb 0x20 0x20 s)
     }"

section \<open>The gates after installation\<close>

lemma set_gates_only_idt: "\<exists>t. set_gates f hs s = s\<lparr>idt := t\<rparr>"
proof (induction f hs s rule: set_gates.induct)
  case (1 f s)
  show ?case by (intro exI [of _ "idt s"]) simp
next
  case (2 f h hs s)
  then show ?case by (auto simp: idt_set_gate_def)
qed

definition handler_gate :: "u32 \<Rightarrow> idt_entry \<Rightarrow> bool" where
  "handler_gate h e \<longleftrightarrow> gate_offset e = h \<and> sel e = 0x08 \<and> flags e = 0x8E"

lemma handler_gate_set: "handler_gate h (idt (idt_set_gate num h 0x08 0x8E s) num)"
  using idt_set_gate_fields [of num h "0x08" "0x8E" s num] by (simp add: handler_gate_def)

lemma set_gates_before:
  "unat f + length hs \<le> 256 \<Longrightarrow> v < f \<Longrightarrow> idt (set_gates f hs s) v = idt s v"
proof (induction f hs s rule: set_gates.induct)
  case (2 f h hs s)
  have other: "idt (idt_set_gate f h 0x08 0x8E s) v = idt s v"
    using 2 by (auto simp: idt_set_gate_def)
  show ?case
  proof (cases hs)
    case Nil
    then show ?thesis using other by simp
  next
    case (Cons h' hs')
    then have "unat f + 1 < 256" using 2 by simp
    then have suc: "unat (f + 1) = Suc (unat f)" by (simp add: unat_word_ariths)
    then have "v < f + 1" using 2 by (simp add: word_less_nat_alt)
    then show ?thesis using 2 suc other by simp
  qed
qed simp

lemma set_gates_handlers:
  "unat f + length hs \<le> 256 \<Longrightarrow> k < length hs \<Longrightarrow> handler_gate (hs ! k) (idt (set_gates f hs s) (f + of_nat k))"
proof (induction f hs s arbitrary: k rule: set_gates.induct)
  case (2 f h hs s)
  show ?case
  proof (cases k)
    case 0
    show ?thesis
    proof (cases hs)
      case Nil
      then show ?thesis using 0 handler_gate_set by simp
    next
      case (Cons h' hs')
      then have "unat f + 1 < 256" using 2 by simp
      then have suc: "unat (f + 1) = Suc (unat f)" by (simp add: unat_word_ariths)
      have "f < f + 1" using suc by (simp add: word_less_nat_alt)
      then have "idt (set_gates (f + 1) hs (idt_set_gate f h 0x08 0x8E s)) f
          = idt (idt_set_gate f h 0x08 0x8E s) f"
        using 2 suc by (intro set_gates_before) auto
      then show ?thesis using 0 handler_gate_set [of h f s] by simp
    qed
  next
    case (Suc j)
    then have "hs \<noteq> []" using 2 by auto
    then have "unat f + 1 < 256" using 2 by (cases hs) auto
    then have suc: "unat (f + 1) = Suc (unat f)" by (simp add: unat_word_ariths)
    have "handler_gate (hs ! j) (idt (set_gates (f + 1) hs (idt_set_gate f h 0x08 0x8E s)) (f + 1 + of_nat j))"
      using 2 Suc suc by (intro "2.IH") auto
    then show ?thesis using Suc by (simp add: algebra_simps)
  qed
qed simp

lemma set_gates_after:
  "unat f + length hs \<le> unat v \<Longrightarrow> idt (set_gates f hs s) v = idt s v"
proof (induction f hs s rule: set_gates.induct)
  case (2 f h hs s)
  have "unat v < 256" using unsigned_less [where w = v and ?'a = nat] by simp
  then have suc: "unat (f + 1) = Suc (unat f)" using 2 by (simp add: unat_word_ariths)
  have "v \<noteq> f" using 2 by auto
  then have "idt (idt_set_gate f h 0x08 0x8E s) v = idt s v" by (simp add: idt_set_gate_def)
  then show ?case using 2 suc by simp
qed simp

section \<open>The interrupt controllers\<close>

text \<open>
  The part of the 8259A's behaviour that \<^verbatim>\<open>irq_remap\<close> relies on: a command byte with bit 4 set
  starts initialisation; the next three bytes on the data port are the vector base, the cascade
  wiring and the mode; after that, data bytes set the interrupt mask.
\<close>

datatype pic_phase = Operational | Expect_Base | Expect_Cascade | Expect_Mode

record pic =
  phase :: pic_phase
  vector_base :: u8
  cascade :: u8
  mode :: u8
  imask :: u8

definition pic_command :: "u8 \<Rightarrow> pic \<Rightarrow> pic" where
  "pic_command v c = (if v AND 0x10 \<noteq> 0 then c\<lparr>phase := Expect_Base\<rparr> else c)"

fun pic_data :: "u8 \<Rightarrow> pic \<Rightarrow> pic" where
  "pic_data v c =
     (case phase c of
        Expect_Base \<Rightarrow> c\<lparr>vector_base := v, phase := Expect_Cascade\<rparr>
      | Expect_Cascade \<Rightarrow> c\<lparr>cascade := v, phase := Expect_Mode\<rparr>
      | Expect_Mode \<Rightarrow> c\<lparr>mode := v, phase := Operational\<rparr>
      | Operational \<Rightarrow> c\<lparr>imask := v\<rparr>)"

fun pic_port :: "port_write \<Rightarrow> pic \<times> pic \<Rightarrow> pic \<times> pic" where
  "pic_port (Outb p v) (m, sl) =
     (if p = 0x20 then (pic_command v m, sl)
      else if p = 0x21 then (pic_data v m, sl)
      else if p = 0xA0 then (m, pic_command v sl)
      else if p = 0xA1 then (m, pic_data v sl)
      else (m, sl))"
| "pic_port w c = c"

definition programmed :: "u8 \<Rightarrow> u8 \<Rightarrow> pic" where
  "programmed base_vector wiring =
     \<lparr>phase = Operational, vector_base = base_vector, cascade = wiring, mode = 1, imask = 0\<rparr>"

text \<open>The writes that reach an interrupt controller.\<close>

fun is_pic_write :: "port_write \<Rightarrow> bool" where
  "is_pic_write (Outb p v) = (p \<in> {0x20, 0x21, 0xA0, 0xA1})"
| "is_pic_write w = False"

lemma filter_pic_serial [simp]: "filter is_pic_write (map (Outb PORT) bs) = []"
  by (induction bs) auto

section \<open>Properties\<close>

lemma installed_gates:
  "(\<forall>k < 32. handler_gate (isr k) (idt (irq_install irq (isrs_install isr (idt_install s))) (of_nat k)))
   \<and> (\<forall>k < 16. handler_gate (irq k) (idt (irq_install irq (isrs_install isr (idt_install s))) (32 + of_nat k)))
   \<and> (\<forall>v \<ge> 48. idt (irq_install irq (isrs_install isr (idt_install s))) v = zero_gate)"
proof -
  let ?s1 = "isrs_install isr (idt_install s)"
  let ?s2 = "irq_install irq ?s1"
  have remap: "idt (irq_remap t) = idt t" for t :: "'a desc_scheme"
    by (simp add: irq_remap_def outportb_all_eq)
  have "handler_gate (isr k) (idt ?s2 (of_nat k))" if "k < 32" for k
  proof -
    have "unat (of_nat k :: u8) = k" using that by (simp add: unat_of_nat)
    then have "idt ?s2 (of_nat k) = idt ?s1 (of_nat k)"
      unfolding irq_install_def using that
      by (subst set_gates_before) (simp_all add: word_less_nat_alt remap)
    moreover have "handler_gate (isr k) (idt ?s1 (of_nat k))"
      using set_gates_handlers [of 0 "map isr [0..<32]" k "idt_install s"] that
      by (simp add: isrs_install_def)
    ultimately show ?thesis by simp
  qed
  moreover have "handler_gate (irq k) (idt ?s2 (32 + of_nat k))" if "k < 16" for k
    using set_gates_handlers [of 32 "map irq [0..<16]" k "irq_remap ?s1"] that
    by (simp add: irq_install_def)
  moreover have "idt ?s2 v = zero_gate" if "48 \<le> v" for v
  proof -
    have v: "48 \<le> unat v" using that by (simp add: word_le_nat_alt)
    then have "idt ?s2 v = idt ?s1 v"
      unfolding irq_install_def by (subst set_gates_after) (simp_all add: remap)
    also have "\<dots> = idt (idt_install s) v"
      unfolding isrs_install_def using v by (subst set_gates_after) simp_all
    finally show ?thesis by (simp add: idt_install_def idt_load_def Let_def)
  qed
  ultimately show ?thesis by blast
qed

text \<open>
  C19. After the IDT is cleared and the exception and interrupt gates are installed, vector
  \<open>v\<close> below 32 leads to the \<open>v\<close>-th exception stub and vectors 32 to 47 to the sixteen interrupt
  stubs, all through present ring-0 interrupt gates on the code selector; every other vector is
  the empty gate.
\<close>

theorem interrupt_table_installed:
  "(\<forall>k < 32. handler_gate (isr k) (idt (irq_install irq (isrs_install isr (idt_install s))) (of_nat k)))
   \<and> (\<forall>k < 16. handler_gate (irq k) (idt (irq_install irq (isrs_install isr (idt_install s))) (32 + of_nat k)))
   \<and> (\<forall>v \<ge> 48. idt (irq_install irq (isrs_install isr (idt_install s))) v = zero_gate)"
  by (rule installed_gates)

theorem interrupt_table_installed_witness:
  "handler_gate 0x1000E0 (idt (irq_install (\<lambda>k. 0x200000 + of_nat k * 16)
     (isrs_install (\<lambda>k. 0x100000 + of_nat k * 16) (idt_install blank_desc))) 14)"
  using interrupt_table_installed [of "\<lambda>k. 0x100000 + of_nat k * 16" "\<lambda>k. 0x200000 + of_nat k * 16" blank_desc]
  by (elim conjE allE [of _ 14]) simp

text \<open>
  The ten port writes of \<^verbatim>\<open>irq_remap\<close>, in their order, leave both controllers operational
  whatever state they were in: the master on vectors 32 to 39 with the slave on line 2, the
  slave on vectors 40 to 47, 8086 mode, nothing masked.
\<close>

theorem irq_remap_programs_pics:
  "\<exists>ws. io (irq_remap s) = io s @ ws
     \<and> fold pic_port ws (master, slave) = (programmed 32 4, programmed 40 2)
     \<and> irq_remap s = s\<lparr>io := io s @ ws\<rparr>"
  by (simp add: irq_remap_def outportb_all_eq pic_command_def programmed_def)

lemma fault_handler_result:
  assumes "tx_live s"
  shows "\<exists>n. fault_handler r s =
     Some (if int_no r < 32
           then Halts (s\<lparr>io := io s @ map (Outb PORT)
              (map of_char (exception_messages ! unat (int_no r) @ '' Exception. System Halted!'' @ [CHR 0x0A])),
              in_count := n\<rparr>)
           else Returns s)"
proof (cases "int_no r < 32")
  case True
  let ?m1 = "exception_messages ! unat (int_no r)" and ?m2 = "'' Exception. System Halted!'' @ [CHR 0x0A]"
  have "unat (int_no r) < length exception_messages"
    using True by (simp add: exception_messages_def word_less_nat_alt)
  then have "?m1 \<in> set exception_messages" by simp
  then have "CHR ''%'' \<notin> set ?m1" by (auto simp: exception_messages_def)
  from qemu_printf_message [OF assms this] obtain s1
    where s1: "qemu_printf ?m1 [] s = Some s1" "printed (map of_char ?m1) s s1" by blast
  have "CHR ''%'' \<notin> set ?m2" by simp
  from qemu_printf_message [OF printed_live [OF s1(2) assms] this] obtain s2
    where s2: "qemu_printf ?m2 [] s1 = Some s2" "printed (map of_char ?m2) s1 s2" by blast
  from s1(2) s2(2) obtain n where "s2 = s\<lparr>io := io s @ map (Outb PORT) (map of_char (?m1 @ ?m2)), in_count := n\<rparr>"
    by (auto simp: printed_def)
  then show ?thesis using True s1(1) s2(1) by (auto simp: fault_handler_def)
next
  case False
  then show ?thesis by (simp add: fault_handler_def)
qed

text \<open>
  On a live UART an exception (vector below 32) prints its name and the halt message and
  halts, with nothing but the port traffic changed; any other vector returns at once.
\<close>

theorem fault_handler_halts:
  assumes "tx_live s"
  shows "\<exists>n. fault_handler r s =
     Some (if int_no r < 32
           then Halts (s\<lparr>io := io s @ map (Outb PORT)
              (map of_char (exception_messages ! unat (int_no r) @ '' Exception. System Halted!'' @ [CHR 0x0A])),
              in_count := n\<rparr>)
           else Returns s)"
  by (rule fault_handler_result [OF assms])

definition zero_regs :: regs where
  "zero_regs = \<lparr>r_gs = 0, r_fs = 0, r_es = 0, r_ds = 0, r_edi = 0, r_esi = 0, r_ebp = 0, r_esp = 0,
     r_ebx = 0, r_edx = 0, r_ecx = 0, r_eax = 0, int_no = 0, err_code = 0,
     r_eip = 0, r_cs = 0, r_eflags = 0, r_useresp = 0, r_ss = 0\<rparr>"

lemma blank_desc_live: "tx_live blank_desc"
  by (auto simp: tx_live_def tx_ready_def blank_desc_def)

theorem fault_handler_halts_witness:
  "\<exists>s'. fault_handler zero_regs blank_desc = Some (Halts s')
     \<and> io s' = map (\<lambda>c. Outb PORT (of_char c)) (''Division By Zero Exception. System Halted!'' @ [CHR 0x0A])"
  using fault_handler_halts [OF blank_desc_live, of zero_regs]
  by (auto simp: zero_regs_def exception_messages_def blank_desc_def)

text \<open>The bytes that \<^verbatim>\<open>irq_handler\<close> prints, and the acknowledgements it ends with.\<close>

definition irq_banner :: "regs \<Rightarrow> u8 list" where
  "irq_banner r = map of_char ''FAULT HANDLER FIRED '' @ conv_text CHR ''d'' (int_no r)"

definition eoi :: "regs \<Rightarrow> port_write list" where
  "eoi r = (if 40 \<le> int_no r then [Outb 0xA0 0x20] else []) @ [Outb 0x20 0x20]"

lemma irq_handler_steps:
  assumes "tx_live s"
  shows "\<exists>s1. printed (irq_banner r) s s1 \<and>
    irq_handler run r s =
      do {
        handler \<leftarrow> (if unat (int_no r - 32) < length (irq_routines s)
                   then Some (irq_routines s ! unat (int_no r - 32)) else None);
        (r', s2) \<leftarrow> (if handler \<noteq> 0 then run handler r s1 else Some (r, s1));
        Some (r', s2\<lparr>io := io s2 @ eoi r'\<rparr>)
      }"
proof -
  have "render (mem s) ''FAULT HANDLER FIRED %d'' [int_no r] = Some (irq_banner r)"
    by (simp add: irq_banner_def)
  from qemu_printf_printed [OF assms this] obtain s1
    where s1: "qemu_printf ''FAULT HANDLER FIRED %d'' [int_no r] s = Some s1" "printed (irq_banner r) s s1"
    by blast
  have "irq_routines s1 = irq_routines s" using s1(2) by (auto simp: printed_def)
  moreover have "outportb 0x20 0x20 (if 40 \<le> int_no r' then outportb 0xA0 0x20 t else t)
      = t\<lparr>io := io t @ eoi r'\<rparr>" for r' and t :: "'a irq_state_scheme"
    by (simp add: eoi_def outportb_def)
  ultimately show ?thesis using s1 by (intro exI [of _ s1]) (simp add: irq_handler_def Let_def)
qed

lemma irq_handler_idle:
  assumes "tx_live s" "length (irq_routines s) = 16" "32 \<le> int_no r" "int_no r < 48"
    and "irq_routines s ! unat (int_no r - 32) = 0"
  shows "\<exists>n. irq_handler run r s =
     Some (r, s\<lparr>io := io s @ map (Outb PORT) (irq_banner r)
        @ (if 8 \<le> int_no r - 32 then [Outb 0xA0 0x20, Outb 0x20 0x20] else [Outb 0x20 0x20]), in_count := n\<rparr>)"
proof -
  have u: "unat (int_no r - 32) = unat (int_no r) - 32" using assms(3) by (simp add: unat_minus_u32)
  have lo: "32 \<le> unat (int_no r)" "unat (int_no r) < 48"
    using assms(3,4) by (simp_all add: word_le_nat_alt word_less_nat_alt)
  have e: "eoi r = (if 8 \<le> int_no r - 32 then [Outb 0xA0 0x20, Outb 0x20 0x20] else [Outb 0x20 0x20])"
    using lo by (auto simp: eoi_def word_le_nat_alt u)
  from irq_handler_steps [OF assms(1), of r run] obtain s1 where s1: "printed (irq_banner r) s s1"
    and h: "irq_handler run r s =
      do {
        handler \<leftarrow> (if unat (int_no r - 32) < length (irq_routines s)
                   then Some (irq_routines s ! unat (int_no r - 32)) else None);
        (r', s2) \<leftarrow> (if handler \<noteq> 0 then run handler r s1 else Some (r, s1));
        Some (r', s2\<lparr>io := io s2 @ eoi r'\<rparr>)
      }" by blast
  have "irq_handler run r s = Some (r, s1\<lparr>io := io s1 @ eoi r\<rparr>)"
    unfolding h using u lo assms(2,5) by simp
  then show ?thesis using s1 unfolding e printed_def by (cases s) auto
qed

text \<open>
  A hardware interrupt on a line without a handler returns with the saved registers
  unchanged; it prints its banner and then acknowledges: the slave controller first and only
  for lines 8 to 15, the master always.
\<close>

theorem irq_handler_acknowledges:
  assumes "tx_live s" "length (irq_routines s) = 16" "32 \<le> int_no r" "int_no r < 48"
    and "irq_routines s ! unat (int_no r - 32) = 0"
  shows "\<exists>n. irq_handler run r s =
     Some (r, s\<lparr>io := io s @ map (Outb PORT) (irq_banner r)
        @ (if 8 \<le> int_no r - 32 then [Outb 0xA0 0x20, Outb 0x20 0x20] else [Outb 0x20 0x20]), in_count := n\<rparr>)"
  by (rule irq_handler_idle [OF assms])

definition idle_irq :: irq_state where
  "idle_irq = desc.extend blank_desc \<lparr>irq_routines = replicate 16 0\<rparr>"

lemma idle_irq_live: "tx_live idle_irq"
  by (auto simp: tx_live_def tx_ready_def idle_irq_def blank_desc_def desc.defs)

theorem irq_handler_acknowledges_witness:
  "\<exists>s'. irq_handler (\<lambda>h r s. None) (zero_regs\<lparr>int_no := 41\<rparr>) idle_irq = Some (zero_regs\<lparr>int_no := 41\<rparr>, s')
     \<and> filter is_pic_write (io s') = [Outb 0xA0 0x20, Outb 0x20 0x20]"
  using irq_handler_acknowledges [OF idle_irq_live, of "zero_regs\<lparr>int_no := 41\<rparr>" "\<lambda>h r s. None"]
  by (auto simp: idle_irq_def blank_desc_def desc.defs zero_regs_def)

text \<open>
  C16. A handler installed for an interrupt line is what runs on that line: the interrupt calls
  exactly this handler, once, on the saved registers, and acknowledges after it, choosing the
  controllers by the registers as the handler left them; other lines keep their handlers.
\<close>

theorem irq_install_handler_dispatches:
  assumes "tx_live s" "length (irq_routines s) = 16" "irq < 16" "h \<noteq> 0" "int_no r = irq + 32"
  shows "\<exists>s' s1. irq_install_handler irq h s = Some s'
     \<and> (\<forall>j < 16. j \<noteq> unat irq \<longrightarrow> irq_routines s' ! j = irq_routines s ! j)
     \<and> printed (irq_banner r) s' s1
     \<and> irq_handler run r s' = map_option (\<lambda>(r', s2). (r', s2\<lparr>io := io s2 @ eoi r'\<rparr>)) (run h r s1)"
proof -
  let ?s' = "s\<lparr>irq_routines := (irq_routines s)[unat irq := h]\<rparr>"
  have irq: "unat irq < 16" using assms(3) by (simp add: word_less_nat_alt)
  have n: "int_no r - 32 = irq" using assms(5) by simp
  have "irq_install_handler irq h s = Some ?s'" using irq assms(2) by (simp add: irq_install_handler_def)
  moreover have "tx_live ?s'" using assms(1) by (simp add: tx_live_def tx_ready_def)
  from irq_handler_steps [OF this, of r run] obtain s1 where "printed (irq_banner r) ?s' s1"
    and "irq_handler run r ?s' = Option.bind (run h r s1) (\<lambda>(r', s2). Some (r', s2\<lparr>io := io s2 @ eoi r'\<rparr>))"
    using irq assms(2,4) n by auto
  ultimately show ?thesis
    by (intro exI [of _ ?s'] exI [of _ s1]) (auto simp: map_option_case split: bind_splits option.splits)
qed

theorem irq_install_handler_dispatches_witness:
  "\<exists>s' s''. irq_install_handler 1 0x100500 idle_irq = Some s'
     \<and> irq_handler (\<lambda>h r s. Some (r\<lparr>r_eax := h\<rparr>, s)) (zero_regs\<lparr>int_no := 33\<rparr>) s'
        = Some (zero_regs\<lparr>int_no := 33, r_eax := 0x100500\<rparr>, s'')"
proof -
  let ?run = "\<lambda>h r (s :: irq_state). Some (r\<lparr>r_eax := h\<rparr>, s)"
  from irq_install_handler_dispatches [OF idle_irq_live, of 1 "0x100500" "zero_regs\<lparr>int_no := 33\<rparr>" ?run]
  show ?thesis by (auto simp: idle_irq_def blank_desc_def desc.defs zero_regs_def)
qed

end
