(* ===== verification/Pmm.thy ===== *)
theory Pmm
  imports Interrupts
begin

text \<open>
  The physical memory manager, \<^verbatim>\<open>kernel/kernel/pmm.c\<close> and \<^verbatim>\<open>pmm.h\<close>: a bitmap of frames, eight bits
  used of each 32-bit bucket, and the placement address above the kernel.

  The bitmap is an object in the flat memory at the address \<open>bitmap_addr\<close> the linker chose,
  because the code computes the placement address from it and because some of its accesses run
  past its 32768 buckets; such an access reaches the memory behind the array, as the compiled
  code does.  Variables with a name are not in that memory.  Where the linker places one of them
  behind the array, as it does in the kernel image that the repository ships with the placement
  address itself, at \<open>bitmap_addr + 0x20000\<close>, an access behind the array reaches that variable in
  the machine and a word of its own in the model: the bits numbered from 262144 on, which
  \<^verbatim>\<open>pmm_init\<close>, a search for a free frame in a full bitmap and \<^verbatim>\<open>free_page\<close> touch, are to be read so.

  The lemmas give the bit operations their laws (locale \<open>bit_table\<close>), show that allocation
  takes the lowest free frame and marks exactly that one, that freeing undoes it exactly when
  the placement address is not page aligned, and what the initial reservation marks.
\<close>

record pmm = irq_state +
  bitmap_addr :: u32
  placementaddr :: u32

abbreviation BITMAP_SIZE :: u32 where "BITMAP_SIZE \<equiv> 32768"
abbreviation PAGE_SIZE :: u32 where "PAGE_SIZE \<equiv> 0x1000"
abbreviation BLOCKS_PER_BUCKET :: u32 where "BLOCKS_PER_BUCKET \<equiv> 8"

definition BLOCK_ALIGN :: "u32 \<Rightarrow> u32" where
  "BLOCK_ALIGN addr = (addr AND 0xFFFFF000) + 0x1000"

text \<open>\<^verbatim>\<open>&bitmap[i / BLOCKS_PER_BUCKET]\<close>\<close>

definition bucket :: "u32 \<Rightarrow> 'a pmm_scheme \<Rightarrow> u32" where
  "bucket i s = bitmap_addr s + (i div BLOCKS_PER_BUCKET) * 4"

definition SETBIT :: "u32 \<Rightarrow> 'a pmm_scheme \<Rightarrow> 'a pmm_scheme" where
  "SETBIT i s = s\<lparr>mem := store32 (mem s) (bucket i s)
     (load32 (mem s) (bucket i s) OR push_bit (unat (i mod BLOCKS_PER_BUCKET)) 1)\<rparr>"

definition CLEARBIT :: "u32 \<Rightarrow> 'a pmm_scheme \<Rightarrow> 'a pmm_scheme" where
  "CLEARBIT i s = s\<lparr>mem := store32 (mem s) (bucket i s)
     (load32 (mem s) (bucket i s) AND NOT (push_bit (unat (i mod BLOCKS_PER_BUCKET)) 1))\<rparr>"

definition ISSET :: "u32 \<Rightarrow> 'a pmm_scheme \<Rightarrow> bool" where
  "ISSET i s = (drop_bit (unat (i mod BLOCKS_PER_BUCKET)) (load32 (mem s) (bucket i s)) AND 0x1 \<noteq> 0)"

text \<open>The flag argument is ignored: the bit is toggled.\<close>

definition set_page_reserved :: "u32 \<Rightarrow> bool \<Rightarrow> 'a pmm_scheme \<Rightarrow> 'a pmm_scheme" where
  "set_page_reserved addr set_flag s = (if \<not> ISSET addr s then SETBIT addr s else CLEARBIT addr s)"

text \<open>\<^verbatim>\<open>for (i = 0; i < placementaddr; i += PAGE_SIZE) SETBIT(i)\<close>\<close>

partial_function (option) reserve_from :: "u32 \<Rightarrow> 'a pmm_scheme \<Rightarrow> 'a pmm_scheme option" where
  "reserve_from i s =
     (if i < placementaddr s then reserve_from (i + PAGE_SIZE) (SETBIT i s) else Some s)"

definition pmm_init :: "'a pmm_scheme \<Rightarrow> 'a pmm_scheme option" where
  "pmm_init s =
     do {
       let s = for_loop 0 BITMAP_SIZE (\<lambda>i s. s\<lparr>mem := store32 (mem s) (bitmap_addr s + i * 4) 0\<rparr>) s;
       let s = (if placementaddr s = 0
                then s\<lparr>placementaddr := BLOCK_ALIGN (bitmap_addr s + (BITMAP_SIZE + PAGE_SIZE) * 4)\<rparr>
                else s);
       s \<leftarrow> qemu_printf (''END KERNEL ADDR 0x%p '' @ [CHR 0x0A]) [placementaddr s] s;
       reserve_from 0 s
     }"

definition kalloc_page_frame_at :: "u32 \<Rightarrow> 'a pmm_scheme \<Rightarrow> (u32 \<times> 'a pmm_scheme) option" where
  "kalloc_page_frame_at addr s =
     (let addr = BLOCK_ALIGN addr
      in if \<not> ISSET addr s then Some (addr, set_page_reserved addr True s)
         else map_option (Pair 0) (qemu_printf (''Cannot Allocate Page Frame'' @ [CHR 0x0A]) [] s))"

text \<open>The search bound is \<^verbatim>\<open>(1024 * 1024 * 1096) / PAGE_SIZE\<close>.\<close>

abbreviation FRAME_LIMIT :: u32 where "FRAME_LIMIT \<equiv> 280576"

function kalloc_from :: "u32 \<Rightarrow> 'a pmm_scheme \<Rightarrow> (u32 \<times> 'a pmm_scheme) option" where
  "kalloc_from i s =
     (if i < FRAME_LIMIT then
        (if \<not> ISSET i s then Some (BLOCK_ALIGN (placementaddr s + i * 0x1000), SETBIT i s)
         else kalloc_from (i + 1) s)
      else map_option (Pair (- 1))
             (qemu_printf (''Failed to allocate page frame: out of mem!'' @ [CHR 0x0A]) [] s))"
  by pat_completeness auto
termination
proof (relation "measure (\<lambda>(i, s). unat FRAME_LIMIT - unat i)")
  fix i :: u32 and s :: "'a pmm_scheme"
  assume lt: "i < FRAME_LIMIT"
  then show "((i + 1, s), i, s) \<in> measure (\<lambda>(i, s). unat FRAME_LIMIT - unat i)"
    using unat_suc_u32 [OF lt] by (simp add: word_less_nat_alt)
qed simp

declare kalloc_from.simps [simp del]

definition kalloc_page_frame :: "'a pmm_scheme \<Rightarrow> (u32 \<times> 'a pmm_scheme) option" where
  "kalloc_page_frame s = kalloc_from 0 s"

definition kfree_page_frame :: "u32 \<Rightarrow> 'a pmm_scheme \<Rightarrow> 'a pmm_scheme" where
  "kfree_page_frame addr s =
     (let addr = addr - placementaddr s
      in if addr = 0 then CLEARBIT addr s else CLEARBIT (addr div 0x1000) s)"

section \<open>The bits of the table\<close>

text \<open>A table of bits: setting and clearing one changes that bit and no other.\<close>

locale bit_table =
  fixes test :: "'i \<Rightarrow> 's \<Rightarrow> bool" and set_bit :: "'i \<Rightarrow> 's \<Rightarrow> 's" and clear_bit :: "'i \<Rightarrow> 's \<Rightarrow> 's"
  assumes test_set: "test j (set_bit i s) \<longleftrightarrow> j = i \<or> test j s"
    and test_clear: "test j (clear_bit i s) \<longleftrightarrow> j \<noteq> i \<and> test j s"
begin

lemma marked_set: "{j. test j (set_bit i s)} = insert i {j. test j s}"
  by (auto simp: test_set)

lemma marked_clear: "{j. test j (clear_bit i s)} = {j. test j s} - {i}"
  by (auto simp: test_clear)

lemma clear_set: "\<not> test i s \<Longrightarrow> test j (clear_bit i (set_bit i s)) = test j s"
  by (auto simp: test_set test_clear)

lemma test_fold_set: "test j (fold set_bit is s) \<longleftrightarrow> j \<in> set is \<or> test j s"
  by (induction "is" arbitrary: s) (auto simp: test_set)

end

lemma bucket_eq: "bucket i s = bitmap_addr s + of_nat (unat i div 8 * 4)"
proof -
  have "unat i div 8 < 4294967296" using unat_u32_lt [of i] by auto
  then have "i div 8 = of_nat (unat i div 8)"
    by (intro word_unat_eq_iff [THEN iffD2]) (simp add: unat_div unat_of_nat_u32)
  then show ?thesis by (simp add: bucket_def)
qed

lemma bucket_apart: "unat i div 8 \<noteq> unat j div 8 \<Longrightarrow> apart (bucket i s) 4 (bucket j s) 4"
proof -
  have le: "(unat k div 8 + 1) * 4 \<le> 4294967296" for k :: u32 using unat_u32_lt [of k] by auto
  assume "unat i div 8 \<noteq> unat j div 8"
  then show ?thesis unfolding bucket_eq by (intro apart_elems le) simp_all
qed

lemma bucket_update [simp]: "bucket j (s\<lparr>mem := m\<rparr>) = bucket j s"
  by (simp add: bucket_def)

lemma ISSET_bit: "ISSET i s = bit (load32 (mem s) (bucket i s)) (unat i mod 8)"
  by (simp add: ISSET_def unat_mod bit_iff_odd_drop_bit and_one_eq odd_iff_mod_2_eq_one)

lemma same_bucket: "unat i div 8 = unat j div 8 \<Longrightarrow> bucket i s = bucket j s"
  unfolding bucket_eq by simp

lemma mod8_lt: "unat (i :: u32) mod 8 < 32"
  by (rule less_trans [OF mod_less_divisor]) simp_all

lemma bits_same: "unat i div 8 = unat j div 8 \<Longrightarrow> unat j mod 8 = unat i mod 8 \<longleftrightarrow> j = (i :: u32)"
  by (metis div_mult_mod_eq word_unat_eq_iff)

lemma ISSET_SETBIT: "ISSET j (SETBIT i s) \<longleftrightarrow> j = i \<or> ISSET j s"
proof (cases "unat i div 8 = unat j div 8")
  case True
  then show ?thesis using bits_same [OF True] same_bucket [OF True, of s] mod8_lt [of i]
    by (auto simp: ISSET_bit SETBIT_def bit_simps unat_mod)
next
  case False
  then have "j \<noteq> i" by auto
  then show ?thesis using bucket_apart [OF False, of s] by (simp add: ISSET_bit SETBIT_def mem_simps)
qed

lemma ISSET_CLEARBIT: "ISSET j (CLEARBIT i s) \<longleftrightarrow> j \<noteq> i \<and> ISSET j s"
proof (cases "unat i div 8 = unat j div 8")
  case True
  then show ?thesis using bits_same [OF True] same_bucket [OF True, of s] mod8_lt [of i] mod8_lt [of j]
    by (auto simp: ISSET_bit CLEARBIT_def bit_simps unat_mod)
next
  case False
  then have "j \<noteq> i" by auto
  then show ?thesis using bucket_apart [OF False, of s] by (simp add: ISSET_bit CLEARBIT_def mem_simps)
qed

interpretation frames: bit_table ISSET SETBIT CLEARBIT
  by unfold_locales (simp_all add: ISSET_SETBIT ISSET_CLEARBIT)

section \<open>Page alignment\<close>

lemma page_mask: "(x :: u32) AND 0xFFFFF000 = x - (x AND 0xFFF)"
proof -
  have c: "(0xFFFFF000 :: u32) = NOT 0xFFF" by simp
  have "(x AND 0xFFFFF000) + (x AND 0xFFF) = (x AND 0xFFFFF000) OR (x AND 0xFFF)"
    unfolding c by (intro disjunctive_add_eq_or bit_word_eqI) (simp add: bit_simps)
  also have "\<dots> = x" unfolding c by (intro bit_word_eqI) (auto simp: bit_simps)
  finally show ?thesis by (simp add: algebra_simps)
qed

lemma page_offset: "unat ((x :: u32) AND 0xFFF) = unat x mod 4096"
proof -
  have "(0xFFF :: u32) = mask 12" by (simp add: mask_eq_exp_minus_1)
  then have "x AND 0xFFF = take_bit 12 x" by (simp add: take_bit_eq_mask)
  then show ?thesis by (simp add: unsigned_take_bit_eq take_bit_eq_mod unat_mod)
qed

lemma page_offset_add: "(p + i * 0x1000 :: u32) AND 0xFFF = p AND 0xFFF"
proof -
  have "unat (p + i * 0x1000) mod 4096 = unat p mod 4096"
    by (simp add: unat_word_ariths mod_mod_cancel mod_simps)
  then show ?thesis by (simp add: word_unat_eq_iff page_offset)
qed

lemma page_offset_within:
  assumes "p AND 0xFFF = 0" "unat off < 4096" shows "(p + off) AND 0xFFF = (off :: u32)"
proof -
  have "unat p mod 4096 = 0" using assms(1) page_offset [of p] by simp
  moreover have "unat (p + off) mod 4096 = (unat p + unat off) mod 4096" by (simp add: unat_word_ariths mod_mod_cancel)
  moreover have "(unat p + unat off) mod 4096 = (unat p mod 4096 + unat off) mod 4096" by (rule mod_add_left_eq [symmetric])
  ultimately have "unat (p + off) mod 4096 = unat off" using assms(2) by simp
  then show ?thesis by (simp only: word_unat_eq_iff page_offset)
qed

text \<open>The address that stands for bit \<open>i\<close> of the bitmap.\<close>

definition frame_address :: "u32 \<Rightarrow> u32 \<Rightarrow> u32" where
  "frame_address p i = BLOCK_ALIGN (p + i * 0x1000)"

lemma frame_address_eq: "frame_address p i = p - (p AND 0xFFF) + (i + 1) * 0x1000"
  unfolding frame_address_def BLOCK_ALIGN_def page_mask page_offset_add by (simp add: algebra_simps)

lemma BLOCK_ALIGN_aligned: "BLOCK_ALIGN x AND 0xFFF = 0"
proof -
  have "BLOCK_ALIGN x = (x - (x AND 0xFFF)) + 1 * 0x1000" by (simp add: BLOCK_ALIGN_def page_mask)
  then have "BLOCK_ALIGN x AND 0xFFF = (x AND 0xFFFFF000) AND 0xFFF"
    by (simp only: page_offset_add page_mask)
  also have "\<dots> = 0" by (simp add: word_bw_assocs)
  finally show ?thesis .
qed

lemma page_mult_inj:
  assumes "i < FRAME_LIMIT" "j < FRAME_LIMIT" "i * 0x1000 = j * (0x1000 :: u32)" shows "i = j"
proof -
  have "unat i < 280576" "unat j < 280576" using assms(1,2) by (simp_all add: word_less_nat_alt)
  then have "unat (i * 0x1000) = unat i * 4096" "unat (j * 0x1000) = unat j * 4096"
    by (simp_all add: unat_mult_u32)
  then show ?thesis using assms(3) by (simp add: word_unat_eq_iff)
qed

lemma frame_address_inj:
  "i < FRAME_LIMIT \<Longrightarrow> j < FRAME_LIMIT \<Longrightarrow> frame_address p i = frame_address p j \<Longrightarrow> i = j"
  using page_mult_inj [of i j] by (simp add: frame_address_eq algebra_simps)

section \<open>Allocation\<close>

lemma kalloc_from_first:
  "i \<le> k \<Longrightarrow> k < FRAME_LIMIT \<Longrightarrow> \<not> ISSET k s \<Longrightarrow> (\<And>j. i \<le> j \<Longrightarrow> j < k \<Longrightarrow> ISSET j s) \<Longrightarrow>
   kalloc_from i s = Some (frame_address (placementaddr s) k, SETBIT k s)"
proof (induction i s rule: kalloc_from.induct)
  case (1 i s)
  have lt: "i < FRAME_LIMIT" using "1.prems"(1,2) by simp
  show ?case
  proof (cases "i = k")
    case True
    then show ?thesis using "1.prems" by (simp add: kalloc_from.simps [of k] frame_address_def)
  next
    case False
    then have ik: "i < k" using "1.prems"(1) by simp
    then have set: "ISSET i s" using "1.prems"(4) by simp
    have suc: "unat (i + 1) = Suc (unat i)" using lt by (rule unat_suc_u32)
    have "kalloc_from (i + 1) s = Some (frame_address (placementaddr s) k, SETBIT k s)"
    proof (rule "1.IH")
      show "i + 1 \<le> k" using ik suc by (simp add: word_le_nat_alt word_less_nat_alt)
      show "ISSET j s" if "i + 1 \<le> j" "j < k" for j
        using "1.prems"(4) that suc by (simp add: word_le_nat_alt)
    qed (use lt set "1.prems" in auto)
    then show ?thesis using lt set by (simp add: kalloc_from.simps [of i])
  qed
qed

lemma kalloc_from_full:
  "(\<And>j. i \<le> j \<Longrightarrow> j < FRAME_LIMIT \<Longrightarrow> ISSET j s) \<Longrightarrow>
   kalloc_from i s = map_option (Pair (- 1))
     (qemu_printf (''Failed to allocate page frame: out of mem!'' @ [CHR 0x0A]) [] s)"
proof (induction i s rule: kalloc_from.induct)
  case (1 i s)
  show ?case
  proof (cases "i < FRAME_LIMIT")
    case True
    then have suc: "unat (i + 1) = Suc (unat i)" by (rule unat_suc_u32)
    have "kalloc_from (i + 1) s = map_option (Pair (- 1))
     (qemu_printf (''Failed to allocate page frame: out of mem!'' @ [CHR 0x0A]) [] s)"
      by (rule "1.IH") (use True "1.prems" suc in \<open>auto simp: word_le_nat_alt\<close>)
    then show ?thesis using True "1.prems" by (simp add: kalloc_from.simps [of i])
  qed (simp add: kalloc_from.simps [of i])
qed

text \<open>The lowest free frame below the search bound, if there is one.\<close>

lemma least_free:
  assumes "k < FRAME_LIMIT" "\<not> ISSET k s"
  obtains i where "i < FRAME_LIMIT" "\<not> ISSET i s" "\<And>j. j < i \<Longrightarrow> ISSET j s"
proof -
  define P where "P n \<longleftrightarrow> n < 280576 \<and> \<not> ISSET (of_nat n) s" for n
  have "P (unat k)" using assms by (simp add: P_def word_less_nat_alt)
  then have L: "P (LEAST n. P n)" by (rule LeastI)
  define i :: u32 where "i = of_nat (LEAST n. P n)"
  have ui: "unat i = (LEAST n. P n)"
    unfolding i_def using L unfolding P_def [of "LEAST n. P n"] by (intro unat_of_nat_u32) simp
  show thesis
  proof (rule that)
    show "i < FRAME_LIMIT" using L ui unfolding P_def [of "LEAST n. P n"] by (simp add: word_less_nat_alt)
    show "\<not> ISSET i s" using L unfolding P_def [of "LEAST n. P n"] by (simp add: i_def)
    show "ISSET j s" if "j < i" for j
    proof (rule ccontr)
      assume "\<not> ISSET j s"
      moreover have "unat j < unat i" using that by (simp add: word_less_nat_alt)
      ultimately have "P (unat j)" using L ui unfolding P_def by simp
      then show False using not_less_Least [of "unat j" P] \<open>unat j < unat i\<close> ui by simp
    qed
  qed
qed

lemma kalloc_page_frame_cases:
  obtains (frame) i where "i < FRAME_LIMIT" "\<not> ISSET i s" "\<And>j. j < i \<Longrightarrow> ISSET j s"
      "kalloc_page_frame s = Some (frame_address (placementaddr s) i, SETBIT i s)"
    | (full) "\<And>j. j < FRAME_LIMIT \<Longrightarrow> ISSET j s"
      "kalloc_page_frame s = map_option (Pair (- 1))
         (qemu_printf (''Failed to allocate page frame: out of mem!'' @ [CHR 0x0A]) [] s)"
proof (cases "\<exists>k < FRAME_LIMIT. \<not> ISSET k s")
  case True
  then obtain i where i: "i < FRAME_LIMIT" "\<not> ISSET i s" "\<And>j. j < i \<Longrightarrow> ISSET j s"
    using least_free by blast
  then show thesis
    using frame [OF i] kalloc_from_first [of 0 i s] by (simp add: kalloc_page_frame_def)
next
  case False
  then show thesis using full kalloc_from_full [of 0 s] by (auto simp: kalloc_page_frame_def)
qed

section \<open>Freeing\<close>

lemma kfree_page_frame_eq: "kfree_page_frame addr s = CLEARBIT ((addr - placementaddr s) div 0x1000) s"
  by (simp add: kfree_page_frame_def Let_def)

lemma frame_index:
  assumes "i < FRAME_LIMIT"
  shows "(frame_address p i - p) div 0x1000 = (if p AND 0xFFF = 0 then i + 1 else i)"
proof -
  have i: "unat i < 280576" using assms by (simp add: word_less_nat_alt)
  have suc: "unat (i + 1) = Suc (unat i)" using assms by (rule unat_suc_u32)
  have m: "unat ((i + 1) * 0x1000) = Suc (unat i) * 4096" using i suc by (subst unat_mult_u32) simp_all
  have d: "frame_address p i - p = (i + 1) * 0x1000 - (p AND 0xFFF)"
    by (simp add: frame_address_eq)
  have off: "unat (p AND 0xFFF) < 4096" by (simp add: page_offset)
  have "unat ((i + 1) * 0x1000 - (p AND 0xFFF)) = Suc (unat i) * 4096 - unat (p AND 0xFFF)"
    unfolding m [symmetric] using off m by (intro unat_minus_u32) (simp add: word_le_nat_alt)
  then have u: "unat ((frame_address p i - p) div 0x1000) = (Suc (unat i) * 4096 - unat (p AND 0xFFF)) div 4096"
    unfolding d by (simp add: unat_div)
  show ?thesis
  proof (cases "p AND 0xFFF = 0")
    case True
    then show ?thesis using u suc by (simp add: word_unat_eq_iff)
  next
    case False
    then have "0 < unat (p AND 0xFFF)" by (simp add: unat_gt_0)
    then have "(Suc (unat i) * 4096 - unat (p AND 0xFFF)) div 4096 = unat i"
      using off by (intro div_nat_eqI) auto
    then show ?thesis using False u by (simp add: word_unat_eq_iff)
  qed
qed

section \<open>Initialisation\<close>

lemma clear_bitmap:
  "\<exists>m. for_loop 0 BITMAP_SIZE (\<lambda>i s. s\<lparr>mem := store32 (mem s) (bitmap_addr s + i * 4) 0\<rparr>) s = s\<lparr>mem := m\<rparr>
     \<and> (\<forall>j. ISSET j (s\<lparr>mem := m\<rparr>) \<longleftrightarrow> 262144 \<le> unat j \<and> ISSET j s)"
proof -
  define P where "P i t \<longleftrightarrow> (\<exists>m. t = s\<lparr>mem := m\<rparr> \<and> (\<forall>j. load32 m (bucket j s)
      = (if unat j div 8 < unat i then 0 else load32 (mem s) (bucket j s))))" for i :: u32 and t
  have "P 32768 (for_loop 0 BITMAP_SIZE (\<lambda>i s. s\<lparr>mem := store32 (mem s) (bitmap_addr s + i * 4) 0\<rparr>) s)"
  proof (rule for_loop_rule [where P = P])
    have "s = s\<lparr>mem := mem s\<rparr>" by simp
    then show "P 0 s" unfolding P_def by (intro exI [of _ "mem s"]) simp
    fix i :: u32 and t :: "'a pmm_scheme"
    assume "i < BITMAP_SIZE" "P i t"
    then obtain m where t: "t = s\<lparr>mem := m\<rparr>"
      and m: "\<And>j. load32 m (bucket j s) = (if unat j div 8 < unat i then 0 else load32 (mem s) (bucket j s))"
      unfolding P_def by blast
    have i: "unat i < 32768" and suc: "unat (i + 1) = Suc (unat i)"
      using \<open>i < BITMAP_SIZE\<close> unat_suc_u32 [OF \<open>i < BITMAP_SIZE\<close>] by (simp_all add: word_less_nat_alt)
    have a: "bitmap_addr s + i * 4 = bitmap_addr s + of_nat (unat i * 4)" by simp
    have "load32 (store32 m (bitmap_addr s + i * 4) 0) (bucket j s)
      = (if unat j div 8 < unat (i + 1) then 0 else load32 (mem s) (bucket j s))" for j
    proof (cases "unat j div 8 = unat i")
      case True
      then show ?thesis unfolding a bucket_eq True suc by simp
    next
      case False
      have "(unat j div 8 + 1) * 4 \<le> 4294967296" using unat_u32_lt [of j] by auto
      then have "apart (bitmap_addr s + i * 4) 4 (bucket j s) 4"
        unfolding a bucket_eq using False i by (intro apart_elems) auto
      then show ?thesis using False m [of j] by (simp add: mem_simps suc less_Suc_eq)
    qed
    then show "P (i + 1) (t\<lparr>mem := store32 (mem t) (bitmap_addr t + i * 4) 0\<rparr>)"
      unfolding P_def t by (intro exI [of _ "store32 m (bitmap_addr s + i * 4) 0"]) simp
  qed simp
  then obtain m where "for_loop 0 BITMAP_SIZE (\<lambda>i s. s\<lparr>mem := store32 (mem s) (bitmap_addr s + i * 4) 0\<rparr>) s
      = s\<lparr>mem := m\<rparr>"
    and m: "\<And>j. load32 m (bucket j s) = (if unat j div 8 < 32768 then 0 else load32 (mem s) (bucket j s))"
    unfolding P_def by auto
  moreover have "ISSET j (s\<lparr>mem := m\<rparr>) \<longleftrightarrow> 262144 \<le> unat j \<and> ISSET j s" for j
  proof -
    have "unat j div 8 < 32768 \<longleftrightarrow> unat j < 262144" by auto
    then show ?thesis using m [of j] by (auto simp: ISSET_bit)
  qed
  ultimately show ?thesis by blast
qed

lemma next_multiple: "i mod k = 0 \<Longrightarrow> j mod k = 0 \<Longrightarrow> i < j \<Longrightarrow> i + k \<le> (j :: nat)"
proof -
  assume "i mod k = 0" "j mod k = 0" "i < j"
  then obtain a b where ab: "i = k * a" "j = k * b" unfolding mod_eq_0_iff_dvd by (elim dvdE) blast
  then have "Suc a \<le> b" using \<open>i < j\<close> by auto
  then have "k * Suc a \<le> k * b" by (rule mult_le_mono2)
  then show ?thesis using ab by simp
qed

lemma reserve_from_marks:
  assumes "unat i mod 4096 = 0" "placementaddr s \<le> 0xFFFFF000"
  shows "\<exists>m. reserve_from i s = Some (s\<lparr>mem := m\<rparr>)
    \<and> (\<forall>j. ISSET j (s\<lparr>mem := m\<rparr>) \<longleftrightarrow> i \<le> j \<and> j < placementaddr s \<and> unat j mod 4096 = 0 \<or> ISSET j s)"
  using assms
proof (induction "unat (placementaddr s) - unat i" arbitrary: i s rule: less_induct)
  case less
  have p: "unat (placementaddr s) \<le> 4294963200" using less.prems(2) by (simp add: word_le_nat_alt)
  show ?case
  proof (cases "i < placementaddr s")
    case True
    then have lt: "unat i < unat (placementaddr s)" by (simp add: word_less_nat_alt)
    then have u: "unat (i + 0x1000) = unat i + 4096" using p by (subst unat_plus_u32) simp_all
    let ?s = "SETBIT i s"
    have f: "placementaddr ?s = placementaddr s" by (simp add: SETBIT_def)
    have "\<exists>m. reserve_from (i + 0x1000) ?s = Some (?s\<lparr>mem := m\<rparr>) \<and> (\<forall>j. ISSET j (?s\<lparr>mem := m\<rparr>) \<longleftrightarrow>
        i + 0x1000 \<le> j \<and> j < placementaddr s \<and> unat j mod 4096 = 0 \<or> ISSET j ?s)"
      using less.hyps [of ?s "i + 0x1000"] less.prems lt u by (simp add: f)
    then obtain m where m: "reserve_from (i + 0x1000) ?s = Some (?s\<lparr>mem := m\<rparr>)"
      and b: "\<And>j. ISSET j (?s\<lparr>mem := m\<rparr>) \<longleftrightarrow>
        i + 0x1000 \<le> j \<and> j < placementaddr s \<and> unat j mod 4096 = 0 \<or> ISSET j ?s" by blast
    have e: "?s\<lparr>mem := m\<rparr> = s\<lparr>mem := m\<rparr>" by (simp add: SETBIT_def)
    have step: "i \<le> j \<and> unat j mod 4096 = 0 \<longleftrightarrow> i + 0x1000 \<le> j \<and> unat j mod 4096 = 0 \<or> j = i" for j
    proof -
      have "unat i + 4096 \<le> unat j" if "unat i < unat j" "unat j mod 4096 = 0"
        using next_multiple [OF less.prems(1) that(2,1)] by simp
      then show ?thesis using less.prems(1) by (auto simp: word_le_nat_alt u word_unat_eq_iff le_less)
    qed
    have "ISSET j (s\<lparr>mem := m\<rparr>) \<longleftrightarrow> i \<le> j \<and> j < placementaddr s \<and> unat j mod 4096 = 0 \<or> ISSET j s" for j
      using b [of j] step [of j] True less.prems(1) unfolding e ISSET_SETBIT by (cases "j = i") auto
    moreover have "reserve_from i s = Some (s\<lparr>mem := m\<rparr>)"
      unfolding reserve_from.simps [of i s] e [symmetric] using True m by simp
    ultimately show ?thesis by blast
  next
    case False
    then have "reserve_from i s = Some (s\<lparr>mem := mem s\<rparr>)" by (subst reserve_from.simps) simp
    then show ?thesis using False by (intro exI [of _ "mem s"]) auto
  qed
qed

section \<open>Properties\<close>

text \<open>
  C10. While some frame below the search bound is free, allocation returns the page-aligned
  address of the lowest free one and marks exactly that frame: no other bit of the table changes.
  The address of frame \<open>i\<close> is that of the placement address rounded down to a page and \<open>i + 1\<close> pages,
  computed modulo 2 to the 32, so it lies above the placement address unless the sum wraps around.
\<close>

theorem kalloc_page_frame_lowest:
  assumes "k < FRAME_LIMIT" "\<not> ISSET k s"
  shows "\<exists>i s'. kalloc_page_frame s = Some (frame_address (placementaddr s) i, s')
    \<and> i \<le> k \<and> \<not> ISSET i s \<and> {j. j < i \<and> \<not> ISSET j s} = {}
    \<and> {j. ISSET j s'} = insert i {j. ISSET j s}
    \<and> frame_address (placementaddr s) i AND 0xFFF = 0
    \<and> io s' = io s \<and> placementaddr s' = placementaddr s"
proof (cases s rule: kalloc_page_frame_cases)
  case (frame i)
  have "i \<le> k" using frame(3) [of k] assms(2) by (meson not_le)
  then show ?thesis using frame frames.marked_set [of i s]
    by (intro exI [of _ i] exI [of _ "SETBIT i s"])
      (auto simp: frame_address_def BLOCK_ALIGN_aligned, auto simp: SETBIT_def)
next
  case full
  then show ?thesis using assms by blast
qed

definition boot_pmm :: pmm where
  "boot_pmm = irq_state.extend idle_irq \<lparr>bitmap_addr = 0x110000, placementaddr = 0x135000\<rparr>"

lemma boot_pmm_fields [simp]:
  "mem boot_pmm = (\<lambda>_. 0)" "bitmap_addr boot_pmm = 0x110000" "placementaddr boot_pmm = 0x135000"
  "io boot_pmm = []" "in_count boot_pmm = 0"
  by (simp_all add: boot_pmm_def idle_irq_def blank_desc_def irq_state.defs desc.defs)

lemma boot_pmm_free: "\<not> ISSET i boot_pmm"
  by (simp add: ISSET_def load32_def)

theorem kalloc_page_frame_lowest_witness:
  "\<exists>s'. kalloc_page_frame boot_pmm = Some (0x136000, s') \<and> {j. ISSET j s'} = {0}"
proof -
  have "frame_address 0x135000 0 = 0x136000" by (simp add: frame_address_def BLOCK_ALIGN_def)
  then show ?thesis using kalloc_page_frame_lowest [of 0 boot_pmm] boot_pmm_free by auto
qed

text \<open>
  With two free frames below the search bound, two allocations in a row both succeed and
  return different pages, the second above the first, and exactly these two frames are newly
  marked.
\<close>

theorem kalloc_page_frame_distinct:
  assumes "k < l" "l < FRAME_LIMIT" "\<not> ISSET k s" "\<not> ISSET l s"
  shows "\<exists>i j s1 s2. kalloc_page_frame s = Some (frame_address (placementaddr s) i, s1)
    \<and> kalloc_page_frame s1 = Some (frame_address (placementaddr s) j, s2)
    \<and> i < j \<and> frame_address (placementaddr s) i \<noteq> frame_address (placementaddr s) j
    \<and> {k. ISSET k s2} = {i, j} \<union> {k. ISSET k s}"
proof (cases s rule: kalloc_page_frame_cases)
  case (frame i)
  have "\<not> k < i" using frame(3) [of k] assms(3) by blast
  then have il: "i \<noteq> l" using assms(1) by auto
  show ?thesis
  proof (cases "SETBIT i s" rule: kalloc_page_frame_cases)
    case f2: (frame j)
    have ne: "i \<noteq> j" using f2(2) by (auto simp: frames.test_set)
    have "\<not> j < i" using f2(2) frame(3) [of j] by (auto simp: frames.test_set)
    then have "i < j" using ne by simp
    moreover have "placementaddr (SETBIT i s) = placementaddr s" by (simp add: SETBIT_def)
    moreover have "{k. ISSET k (SETBIT j (SETBIT i s))} = {i, j} \<union> {k. ISSET k s}"
      by (auto simp: frames.test_set)
    moreover have "frame_address (placementaddr s) i \<noteq> frame_address (placementaddr s) j"
      using ne frame_address_inj [OF frame(1) f2(1)] by blast
    ultimately show ?thesis using f2(4) frame(4)
      by (intro exI [of _ i] exI [of _ j] exI [of _ "SETBIT i s"] exI [of _ "SETBIT j (SETBIT i s)"]) simp
  next
    case full
    then show ?thesis using full(1) [OF assms(2)] assms(4) il by (simp add: frames.test_set)
  qed
next
  case full
  then show ?thesis using assms by blast
qed

theorem kalloc_page_frame_distinct_witness:
  "\<exists>i j s1 s2. kalloc_page_frame boot_pmm = Some (frame_address 0x135000 i, s1)
    \<and> kalloc_page_frame s1 = Some (frame_address 0x135000 j, s2)
    \<and> i < j \<and> {k. ISSET k s2} = {i, j}"
  using kalloc_page_frame_distinct [of 0 1 boot_pmm] boot_pmm_free by auto

text \<open>
  Once every frame below the search bound is marked, allocation reports it on the serial
  line and returns -1, with nothing but the port traffic changed.
\<close>

theorem kalloc_page_frame_exhausted:
  assumes "tx_live s" "\<And>j. j < FRAME_LIMIT \<Longrightarrow> ISSET j s"
  shows "\<exists>s'. kalloc_page_frame s = Some (- 1, s')
    \<and> printed (map of_char (''Failed to allocate page frame: out of mem!'' @ [CHR 0x0A])) s s'"
proof (cases s rule: kalloc_page_frame_cases)
  case full
  let ?m = "''Failed to allocate page frame: out of mem!'' @ [CHR 0x0A]"
  have "CHR ''%'' \<notin> set ?m" by simp
  from qemu_printf_message [OF assms(1) this, of "[]"] show ?thesis unfolding full(2) by auto
qed (use assms in blast)

definition full_pmm :: pmm where
  "full_pmm = boot_pmm\<lparr>mem := (\<lambda>_. 0xFF)\<rparr>"

lemma all_ones: "load32 (\<lambda>_. 0xFF) a = mask 32"
  by (simp add: load32_def mask_eq_exp_minus_1)

theorem kalloc_page_frame_exhausted_witness: "\<exists>s'. kalloc_page_frame full_pmm = Some (- 1, s')"
proof -
  have "tx_live full_pmm"
    using idle_irq_live by (simp add: full_pmm_def boot_pmm_def tx_live_def tx_ready_def irq_state.defs)
  moreover have "ISSET j full_pmm" for j
    unfolding ISSET_bit using mod8_lt [of j] by (simp add: full_pmm_def all_ones bit_mask_iff)
  ultimately show ?thesis using kalloc_page_frame_exhausted [of full_pmm] by blast
qed

text \<open>
  C38. Freeing the page that allocation just returned restores the table exactly when the
  placement address is not page aligned.  When it is aligned, the freed address is one page
  above the frame's offset, so frame \<open>i\<close> stays marked and frame \<open>i + 1\<close> is released instead.
\<close>

theorem kfree_after_kalloc:
  assumes "kalloc_page_frame s = Some (a, s')" "a = frame_address (placementaddr s) i"
    "i < FRAME_LIMIT" "\<not> ISSET i s" "\<forall>j < i. ISSET j s"
  shows "{j. ISSET j (kfree_page_frame a s')} =
    (if placementaddr s AND 0xFFF = 0 then insert i {j. ISSET j s} - {i + 1} else {j. ISSET j s})"
proof -
  have s': "s' = SETBIT i s"
    using kalloc_from_first [of 0 i s] assms by (simp add: kalloc_page_frame_def)
  have p: "placementaddr (SETBIT i s) = placementaddr s" by (simp add: SETBIT_def)
  have "{j. ISSET j (kfree_page_frame a s')} =
      insert i {j. ISSET j s} - {(a - placementaddr s) div 0x1000}"
    unfolding s' kfree_page_frame_eq p frames.marked_clear frames.marked_set ..
  then show ?thesis unfolding assms(2) frame_index [OF assms(3)] using assms(4) by auto
qed

theorem kfree_after_kalloc_witness:
  "\<exists>s'. kalloc_page_frame boot_pmm = Some (0x136000, s') \<and> {j. ISSET j (kfree_page_frame 0x136000 s')} = {0}"
proof -
  have a: "0x136000 = frame_address (placementaddr boot_pmm) 0" by (simp add: frame_address_def BLOCK_ALIGN_def)
  have k: "kalloc_page_frame boot_pmm = Some (0x136000, SETBIT 0 boot_pmm)"
    using kalloc_from_first [of 0 0 boot_pmm] boot_pmm_free a by (simp add: kalloc_page_frame_def)
  from kfree_after_kalloc [OF k a] show ?thesis using k boot_pmm_free by auto
qed

lemma pmm_init_table:
  assumes "tx_live s" "P \<le> 0xFFFFF000"
    and "P = (if placementaddr s = 0 then BLOCK_ALIGN (bitmap_addr s + (BITMAP_SIZE + PAGE_SIZE) * 4)
              else placementaddr s)"
  shows "\<exists>s'. pmm_init s = Some s' \<and> placementaddr s' = P \<and> bitmap_addr s' = bitmap_addr s
    \<and> (\<forall>j. ISSET j s' \<longleftrightarrow> j < P \<and> unat j mod 4096 = 0 \<or> 262144 \<le> unat j \<and> ISSET j s)"
proof -
  obtain m where m: "for_loop 0 BITMAP_SIZE (\<lambda>i s. s\<lparr>mem := store32 (mem s) (bitmap_addr s + i * 4) 0\<rparr>) s
      = s\<lparr>mem := m\<rparr>" and c: "\<And>j. ISSET j (s\<lparr>mem := m\<rparr>) \<longleftrightarrow> 262144 \<le> unat j \<and> ISSET j s"
    using clear_bitmap [of s] by blast
  let ?f = "''END KERNEL ADDR 0x%p '' @ [CHR 0x0A]"
  let ?u = "s\<lparr>mem := m, placementaddr := P\<rparr>"
  have live: "tx_live ?u" using assms(1) by (simp add: tx_live_def tx_ready_def)
  have "\<exists>bs. render m ?f [P] = Some bs" by simp
  then obtain bs where "render (mem ?u) ?f [P] = Some bs" by auto
  from qemu_printf_printed [OF live this] obtain t
    where t: "qemu_printf ?f [P] ?u = Some t" "printed bs ?u t" by blast
  have fields: "placementaddr t = P" "bitmap_addr t = bitmap_addr s" "ISSET j t \<longleftrightarrow> ISSET j (s\<lparr>mem := m\<rparr>)" for j
    using t(2) by (auto simp: printed_def ISSET_def bucket_def)
  have "placementaddr t \<le> 0xFFFFF000" using assms(2) fields by simp
  from reserve_from_marks [OF _ this, of 0] obtain m' where
    "reserve_from 0 t = Some (t\<lparr>mem := m'\<rparr>)" and
    "\<And>j. ISSET j (t\<lparr>mem := m'\<rparr>) \<longleftrightarrow> j < P \<and> unat j mod 4096 = 0 \<or> ISSET j t"
    unfolding fields(1) by auto
  moreover have "(if placementaddr (s\<lparr>mem := m\<rparr>) = 0
      then s\<lparr>mem := m, placementaddr := BLOCK_ALIGN (bitmap_addr (s\<lparr>mem := m\<rparr>) + (BITMAP_SIZE + PAGE_SIZE) * 4)\<rparr>
      else s\<lparr>mem := m\<rparr>) = ?u"
    unfolding assms(3) by simp
  then have "pmm_init s = reserve_from 0 t"
    unfolding pmm_init_def m Let_def using t(1) by (simp del: qemu_printf_def)
  ultimately show ?thesis using fields c by auto
qed



end
