(* ===== verification/Vmm.thy ===== *)
theory Vmm
  imports Pmm Libc_String
begin

text \<open>
  Paging, \<^verbatim>\<open>kernel/kernel/vmm.c\<close> and \<^verbatim>\<open>vmm.h\<close>: the placement allocator, the page directory and its
  tables as objects of the flat memory, mapping and unmapping of pages and regions, and the
  initialisation that turns paging on.

  A \<^verbatim>\<open>struct page_directory\<close> at \<open>dir\<close> is the array \<open>tables\<close> of 1024 pointers followed by the array
  \<open>tables_physical\<close> of 1024 entries; a page table is 1024 entries.  The entries are packed words;
  \<open>get_field\<close> and \<open>set_field\<close> read and write the bit fields of \<^verbatim>\<open>struct page\<close> and
  \<^verbatim>\<open>struct page_dir_entry\<close>.  The control registers are fields of the state.

  The reference is the address translation of the processor, \<open>mmu_walk\<close>.  The lemmas show what
  \<^verbatim>\<open>paging_init\<close> maps, what mapping and unmapping a page change, and which pages the region
  loops visit.
\<close>

record vmm = pmm +
  nframes :: u32
  top_frame :: u32
  frames_ptr :: u32
  heap_start :: u32
  heap_end :: u32
  heap_cur :: u32
  current_directory :: u32
  kernel_dir :: u32
  cr0 :: u32
  cr3 :: u32

section \<open>Bit fields\<close>

definition get_field :: "nat \<Rightarrow> nat \<Rightarrow> u32 \<Rightarrow> u32" where
  "get_field off width w = drop_bit off w AND mask width"

definition set_field :: "nat \<Rightarrow> nat \<Rightarrow> u32 \<Rightarrow> u32 \<Rightarrow> u32" where
  "set_field off width v w =
     (w AND NOT (push_bit off (mask width))) OR push_bit off (v AND mask width)"

text \<open>\<^verbatim>\<open>struct page\<close>\<close>

abbreviation page_present :: "u32 \<Rightarrow> u32" where "page_present \<equiv> get_field 0 1"
abbreviation page_frame :: "u32 \<Rightarrow> u32" where "page_frame \<equiv> get_field 12 20"
abbreviation set_page_present :: "u32 \<Rightarrow> u32 \<Rightarrow> u32" where "set_page_present \<equiv> set_field 0 1"
abbreviation set_page_writeable :: "u32 \<Rightarrow> u32 \<Rightarrow> u32" where "set_page_writeable \<equiv> set_field 1 1"
abbreviation set_page_user :: "u32 \<Rightarrow> u32 \<Rightarrow> u32" where "set_page_user \<equiv> set_field 2 1"
abbreviation set_page_frame :: "u32 \<Rightarrow> u32 \<Rightarrow> u32" where "set_page_frame \<equiv> set_field 12 20"

text \<open>\<^verbatim>\<open>struct page_dir_entry\<close>\<close>

abbreviation set_dir_present :: "u32 \<Rightarrow> u32 \<Rightarrow> u32" where "set_dir_present \<equiv> set_field 0 1"
abbreviation set_dir_rw :: "u32 \<Rightarrow> u32 \<Rightarrow> u32" where "set_dir_rw \<equiv> set_field 1 1"
abbreviation set_dir_user :: "u32 \<Rightarrow> u32 \<Rightarrow> u32" where "set_dir_user \<equiv> set_field 2 1"
abbreviation set_dir_page_size :: "u32 \<Rightarrow> u32 \<Rightarrow> u32" where "set_dir_page_size \<equiv> set_field 7 1"
abbreviation set_dir_frame :: "u32 \<Rightarrow> u32 \<Rightarrow> u32" where "set_dir_frame \<equiv> set_field 12 20"

section \<open>Addresses\<close>

definition PAGEDIR_INDEX :: "u32 \<Rightarrow> u32" where "PAGEDIR_INDEX vaddr = drop_bit 22 vaddr"
definition PAGETBL_INDEX :: "u32 \<Rightarrow> u32" where "PAGETBL_INDEX vaddr = drop_bit 12 vaddr AND 0x3FF"
definition PAGEFRAME_INDEX :: "u32 \<Rightarrow> u32" where "PAGEFRAME_INDEX vaddr = vaddr AND 0xFFF"

text \<open>\<^verbatim>\<open>&dir->tables[i]\<close>, \<^verbatim>\<open>&dir->tables_physical[i]\<close> and \<^verbatim>\<open>&table->pages[i]\<close>\<close>

definition tables_slot :: "u32 \<Rightarrow> u32 \<Rightarrow> u32" where "tables_slot dir i = dir + i * 4"
definition physical_slot :: "u32 \<Rightarrow> u32 \<Rightarrow> u32" where "physical_slot dir i = dir + 4096 + i * 4"
definition page_slot :: "u32 \<Rightarrow> u32 \<Rightarrow> u32" where "page_slot table i = table + i * 4"

abbreviation sizeof_page_table :: u32 where "sizeof_page_table \<equiv> 4096"
abbreviation sizeof_page_directory :: u32 where "sizeof_page_directory \<equiv> 8192"
abbreviation HEAP_SIZE :: u32 where "HEAP_SIZE \<equiv> 1024 * 4096"

text \<open>Assignments to fields of one word in memory.\<close>

definition upd_word :: "u32 \<Rightarrow> (u32 \<Rightarrow> u32) \<Rightarrow> 'a machine_scheme \<Rightarrow> 'a machine_scheme" where
  "upd_word a f s = s\<lparr>mem := store32 (mem s) a (f (load32 (mem s) a))\<rparr>"

section \<open>Operations\<close>

definition dumballoc :: "u32 \<Rightarrow> 'a vmm_scheme \<Rightarrow> u32 \<times> 'a vmm_scheme" where
  "dumballoc sz s =
     (let s = (if placementaddr s AND 0xFFF \<noteq> 0
               then s\<lparr>placementaddr := (placementaddr s AND NOT 0xFFF) + 0x1000\<rparr> else s)
      in (placementaddr s, s\<lparr>placementaddr := placementaddr s + sz\<rparr>))"

definition switch_to_page_dir :: "u32 \<Rightarrow> 'a vmm_scheme \<Rightarrow> 'a vmm_scheme" where
  "switch_to_page_dir dir s =
     s\<lparr>current_directory := dir, cr3 := physical_slot dir 0, cr0 := cr0 s OR 0x80000000\<rparr>"

text \<open>
  The assembler routines of \<^verbatim>\<open>boot.S\<close> that do the same in two calls; nothing calls them. Their stack
  frames are not modelled.
\<close>

definition load_page_directory :: "u32 \<Rightarrow> 'a vmm_scheme \<Rightarrow> 'a vmm_scheme" where
  "load_page_directory dir s = s\<lparr>cr3 := dir\<rparr>"

definition enable_paging :: "'a vmm_scheme \<Rightarrow> 'a vmm_scheme" where
  "enable_paging s = s\<lparr>cr0 := cr0 s OR 0x80000000\<rparr>"

lemma switch_to_page_dir_calls:
  "switch_to_page_dir dir s = enable_paging (load_page_directory (physical_slot dir 0) (s\<lparr>current_directory := dir\<rparr>))"
  by (simp add: switch_to_page_dir_def enable_paging_def load_page_directory_def)

definition virt_phys :: "u32 \<Rightarrow> u32 \<Rightarrow> 'a vmm_scheme \<Rightarrow> (u32 \<times> 'a vmm_scheme) option" where
  "virt_phys dir vaddr s =
     (let pdindex = PAGEDIR_INDEX vaddr; ptindex = PAGETBL_INDEX vaddr;
          page_frame_offset = PAGEFRAME_INDEX vaddr;
          table = load32 (mem s) (tables_slot dir pdindex)
      in if table = 0
         then map_option (Pair 0)
           (qemu_printf (''virt_phys: The page directory dir entry does not exist'' @ [CHR 0x0A]) [] s)
         else let entry = load32 (mem s) (page_slot table ptindex)
           in if page_present entry = 0
              then map_option (Pair 0)
                (qemu_printf (''virt_phys: The page table entry does not exist'' @ [CHR 0x0A]) [] s)
              else Some (drop_bit 12 (page_frame entry) + page_frame_offset, s))"

definition allocate_page :: "u32 \<Rightarrow> u32 \<Rightarrow> 'a vmm_scheme \<Rightarrow> 'a vmm_scheme option" where
  "allocate_page dir vaddr s =
     (let pdindex = PAGEDIR_INDEX vaddr; ptindex = PAGETBL_INDEX vaddr;
          s = (if load32 (mem s) (tables_slot dir pdindex) = 0 then
                 let (table, s) = dumballoc sizeof_page_table s;
                     s = s\<lparr>mem := snd (memset table 0 (1024 * sizeof_page_table) (mem s))\<rparr>;
                     s = upd_word (physical_slot dir pdindex) (set_dir_frame (drop_bit 12 table)) s;
                     s = upd_word (physical_slot dir pdindex) (set_dir_present 1) s;
                     s = upd_word (physical_slot dir pdindex) (set_dir_rw 1) s;
                     s = upd_word (physical_slot dir pdindex) (set_dir_user 1) s;
                     s = upd_word (physical_slot dir pdindex) (set_dir_page_size 0) s
                 in s\<lparr>mem := store32 (mem s) (tables_slot dir pdindex) table\<rparr>
               else s);
          table = load32 (mem s) (tables_slot dir pdindex);
          page = page_slot table ptindex
      in if page_present (load32 (mem s) page) = 0 then
           do {
             (frame, s) \<leftarrow> kalloc_page_frame s;
             let s = upd_word page (set_page_frame frame) s;
             let s = upd_word page (set_page_present 1) s;
             let s = upd_word page (set_page_writeable 1) s;
             Some (upd_word page (set_page_user 1) s)
           }
         else Some s)"

definition free_page :: "u32 \<Rightarrow> u32 \<Rightarrow> 'a vmm_scheme \<Rightarrow> 'a vmm_scheme option" where
  "free_page dir vaddr s =
     (let pdindex = PAGEDIR_INDEX vaddr; ptindex = PAGETBL_INDEX vaddr;
          table = load32 (mem s) (tables_slot dir pdindex)
      in if table = 0
         then qemu_printf (''virt_phys: The page directory dir entry does not exist'' @ [CHR 0x0A]) [] s
         else let page = page_slot table ptindex
           in if page_present (load32 (mem s) page) = 0
              then qemu_printf (''virt_phys: The page table entry does not exist'' @ [CHR 0x0A]) [] s
              else let t = page_frame (load32 (mem s) page);
                       s = kfree_page_frame t s;
                       s = upd_word page (set_page_present 0) s
                in Some (upd_word page (set_page_writeable 0) s))"

text \<open>\<^verbatim>\<open>while (start <= end) { body(dir, start); start += PAGE_SIZE; }\<close>\<close>

partial_function (option) each_page ::
  "(u32 \<Rightarrow> 's \<Rightarrow> 's option) \<Rightarrow> u32 \<Rightarrow> u32 \<Rightarrow> 's \<Rightarrow> 's option" where
  "each_page body start end s =
     (if start \<le> end then do { s \<leftarrow> body start s; each_page body (start + PAGE_SIZE) end s } else Some s)"

definition allocate_region :: "u32 \<Rightarrow> u32 \<Rightarrow> u32 \<Rightarrow> 'a vmm_scheme \<Rightarrow> 'a vmm_scheme option" where
  "allocate_region dir start_va end_va s =
     each_page (allocate_page dir) (start_va AND 0xfffff000) (end_va AND 0xfffff000) s"

definition free_region :: "u32 \<Rightarrow> u32 \<Rightarrow> u32 \<Rightarrow> 'a vmm_scheme \<Rightarrow> 'a vmm_scheme option" where
  "free_region dir start_va end_va s =
     each_page (free_page dir) (start_va AND 0xfffff000) (end_va AND 0xfffff000) s"

text \<open>The body of the loop that fills the first page table.\<close>

definition identity_entry :: "u32 \<Rightarrow> u32 \<Rightarrow> 'a machine_scheme \<Rightarrow> 'a machine_scheme" where
  "identity_entry table i s =
     upd_word (page_slot table i) (set_page_frame i)
       (upd_word (page_slot table i) (set_page_user 0)
         (upd_word (page_slot table i) (set_page_writeable 1)
           (upd_word (page_slot table i) (set_page_present 1) s)))"

definition paging_init :: "'a vmm_scheme \<Rightarrow> 'a vmm_scheme option" where
  "paging_init s =
     do {
       s \<leftarrow> qemu_printf (''Paging INIT'' @ [CHR 0x0A]) [] s;
       let (dir, s) = dumballoc sizeof_page_directory s;
       let s = s\<lparr>kernel_dir := dir\<rparr>;
       let s = s\<lparr>mem := snd (memset dir 0 (1024 * sizeof_page_directory) (mem s))\<rparr>;
       let (table, s) = dumballoc sizeof_page_table s;
       let s = s\<lparr>mem := snd (memset table 0 (1024 * sizeof_page_table) (mem s))\<rparr>;
       let s = s\<lparr>nframes := 0x100000 div 0x1000\<rparr>;
       let s = s\<lparr>top_frame := nframes s - 1\<rparr>;
       let (fr, s) = dumballoc (nframes s * 4) s;
       let s = s\<lparr>frames_ptr := fr\<rparr>;
       let s = for_loop 0 (placementaddr s) (identity_entry table) s;
       let s = upd_word (physical_slot dir 0) (set_dir_frame (drop_bit 12 table)) s;
       let s = upd_word (physical_slot dir 0) (set_dir_present 1) s;
       let s = upd_word (physical_slot dir 0) (set_dir_rw 1) s;
       let s = upd_word (physical_slot dir 0) (set_dir_user 1) s;
       let s = upd_word (physical_slot dir 0) (set_dir_page_size 0) s;
       let s = s\<lparr>mem := store32 (mem s) (tables_slot dir 0) table\<rparr>;
       let s = switch_to_page_dir dir s;
       s \<leftarrow> qemu_printf (''Paging enabled setting up heap...'' @ [CHR 0x0A]) [] s;
       let s = s\<lparr>heap_start := placementaddr s\<rparr>;
       let s = s\<lparr>heap_cur := placementaddr s\<rparr>;
       let s = s\<lparr>heap_end := heap_start s + HEAP_SIZE\<rparr>;
       qemu_printf ''DONE'' [] s
     }"

section \<open>The processor's translation\<close>

definition mmu_walk :: "memory \<Rightarrow> u32 \<Rightarrow> u32 \<Rightarrow> u32 option" where
  "mmu_walk m directory v =
     (let pde = load32 m ((directory AND 0xFFFFF000) + PAGEDIR_INDEX v * 4)
      in if get_field 0 1 pde = 0 then None
         else let pte = load32 m (push_bit 12 (get_field 12 20 pde) + PAGETBL_INDEX v * 4)
           in if get_field 0 1 pte = 0 then None
              else Some (push_bit 12 (get_field 12 20 pte) OR PAGEFRAME_INDEX v))"

section \<open>Laws of bit fields and addresses\<close>

lemma bit_field: "bit (get_field o1 n w) k \<longleftrightarrow> k < n \<and> k < 32 \<and> bit w (o1 + k)"
  by (auto simp: get_field_def bit_simps)

lemma get_set_same [simp]: "o1 + n \<le> 32 \<Longrightarrow> get_field o1 n (set_field o1 n v w) = v AND mask n"
  by (rule bit_word_eqI) (auto simp: get_field_def set_field_def bit_simps dest: bit_imp_le_length)

lemma get_set_other [simp]:
  "o1 + n1 \<le> o2 \<or> o2 + n2 \<le> o1 \<Longrightarrow> get_field o1 n1 (set_field o2 n2 v w) = get_field o1 n1 w"
  by (rule bit_word_eqI) (auto simp: get_field_def set_field_def bit_simps dest: bit_imp_le_length)

lemma get_field_0 [simp]: "get_field o1 n 0 = 0"
  by (simp add: get_field_def)

lemma store32_overwrite [simp]: "store32 (store32 m a v) a w = store32 m a w"
  by (auto simp: store32_def fun_eq_iff)

lemma upd_word_twice [simp]: "upd_word a f (upd_word a g s) = upd_word a (f \<circ> g) s"
  by (simp add: upd_word_def)

lemma upd_word_frame [frame_simps]:
  "io (upd_word a f s) = io s" "port_env (upd_word a f s) = port_env s" "in_count (upd_word a f s) = in_count s"
  "more (upd_word a f s) = more s"
  by (simp_all add: upd_word_def)

lemma mem_upd_word [mem_simps]: "mem (upd_word a f s) = store32 (mem s) a (f (load32 (mem s) a))"
  by (simp add: upd_word_def)

lemma mask_1 [simp]: "(mask (Suc 0) :: u32) = 1" "(mask 1 :: u32) = 1"
  by (simp_all add: mask_eq_exp_minus_1)

lemma PAGETBL_INDEX_lt: "unat (PAGETBL_INDEX v) < 1024"
proof -
  have "PAGETBL_INDEX v = take_bit 10 (drop_bit 12 v)"
    by (simp add: PAGETBL_INDEX_def take_bit_eq_mask mask_eq_exp_minus_1)
  then show ?thesis by (simp add: unat_mod take_bit_eq_mod)
qed

lemma PAGEDIR_INDEX_unat: "unat (PAGEDIR_INDEX v) = unat v div 4194304"
  by (simp add: PAGEDIR_INDEX_def drop_bit_eq_div unat_div)

lemma PAGEDIR_INDEX_lt: "unat (PAGEDIR_INDEX v) < 1024"
proof -
  have "unat v < 1024 * 4194304" using unat_u32_lt [of v] by simp
  then show ?thesis unfolding PAGEDIR_INDEX_unat by (rule less_mult_imp_div_less)
qed

text \<open>The address of an aligned page survives the shift down and up, and an address splits in three.\<close>

lemma aligned_shift: "a AND 0xFFF = (0 :: u32) \<Longrightarrow> push_bit 12 (drop_bit 12 a) = a"
proof -
  assume a: "a AND 0xFFF = 0"
  have m: "(0xFFF :: u32) = mask 12" by (simp add: mask_eq_exp_minus_1)
  have low: "\<not> bit a n" if "n < 12" for n
  proof -
    have "bit (a AND mask 12) n = bit (0 :: u32) n" using a by (simp add: m)
    then show ?thesis using that by (simp add: bit_simps)
  qed
  show ?thesis
  proof (rule bit_word_eqI)
    show "bit (push_bit 12 (drop_bit 12 a)) n = bit a n" if "n < LENGTH(32)" for n
      using low [of n] that by (cases "n < 12") (auto simp: bit_simps not_less)
  qed
qed

lemma aligned_mask: "a AND 0xFFF = (0 :: u32) \<Longrightarrow> a AND 0xFFFFF000 = a"
  by (simp add: page_mask)

lemma frame_field: "(drop_bit 12 a AND mask 20 :: u32) = drop_bit 12 a"
  by (rule bit_word_eqI) (auto simp: bit_simps dest: bit_imp_le_length)

lemma push_frame_field: "push_bit 12 (a AND mask 20 :: u32) = push_bit 12 a"
  by (rule bit_word_eqI) (auto simp: bit_simps)

lemma push_frame_field_simp [simp]: "push_bit 12 a AND push_bit 12 (mask 20) = (push_bit 12 a :: u32)"
  using push_frame_field [of a] by simp

lemma low_address:
  assumes "unat v < 4194304"
  shows "push_bit 12 (PAGETBL_INDEX v AND mask 20) OR PAGEFRAME_INDEX v = v"
proof -
  have "drop_bit 22 v = 0"
    using assms by (simp add: word_unat_eq_iff drop_bit_eq_div unat_div)
  then have "\<not> bit (drop_bit 22 v) (n - 22)" for n by simp
  then have high: "\<not> bit v n" if "22 \<le> n" for n
    using that by (metis bit_drop_bit_eq comp_apply le_add_diff_inverse)
  have m: "(0xFFF :: u32) = mask 12" "(0x3FF :: u32) = mask 10" by (simp_all add: mask_eq_exp_minus_1)
  show ?thesis unfolding PAGETBL_INDEX_def PAGEFRAME_INDEX_def m
  proof (rule bit_word_eqI)
    fix n
    assume n: "n < LENGTH(32)"
    consider "n < 12" | "12 \<le> n" "n < 22" | "22 \<le> n" by linarith
    then show "bit (push_bit 12 ((drop_bit 12 v AND mask 10) AND mask 20) OR (v AND mask 12)) n = bit v n"
      using n high [of n] by cases (auto simp: bit_push_bit_iff bit_drop_bit_eq bit_and_iff bit_or_iff bit_mask_iff)
  qed
qed

section \<open>Region loops\<close>

text \<open>A body run on each element in order, as long as it returns.\<close>

fun run_all :: "('b \<Rightarrow> 's \<Rightarrow> 's option) \<Rightarrow> 'b list \<Rightarrow> 's \<Rightarrow> 's option" where
  "run_all body [] s = Some s"
| "run_all body (x # xs) s = Option.bind (body x s) (run_all body xs)"

definition region_pages :: "u32 \<Rightarrow> u32 \<Rightarrow> u32 list" where
  "region_pages start end = map (\<lambda>k. start + of_nat k * 0x1000)
     [0..<(if start \<le> end then (unat end - unat start) div 4096 + 1 else 0)]"

lemma region_pages_step:
  assumes "start \<le> stop" "unat start mod 4096 = 0" "unat stop mod 4096 = 0" "unat stop < 4294963200"
  shows "region_pages start stop = start # region_pages (start + 0x1000) stop"
proof -
  have le: "unat start \<le> unat stop" using assms(1) by (simp add: word_le_nat_alt)
  have u: "unat (start + 0x1000) = unat start + 4096" using le assms(4) by (subst unat_plus_u32) simp_all
  let ?n = "(unat stop - unat start) div 4096"
  have n: "(if start + 0x1000 \<le> stop then (unat stop - unat (start + 0x1000)) div 4096 + 1 else 0) = ?n"
  proof (cases "start = stop")
    case True
    then have "\<not> start + 0x1000 \<le> stop" using u by (simp add: word_le_nat_alt)
    then show ?thesis using True by simp
  next
    case False
    then have "unat start < unat stop" using le by (simp add: word_unat_eq_iff)
    from next_multiple [OF assms(2,3) this] have le2: "unat start + 4096 \<le> unat stop" by simp
    then have "?n = (unat stop - (unat start + 4096)) div 4096 + 1"
      using div_add_self2 [of 4096 "unat stop - (unat start + 4096)"] by simp
    then show ?thesis using le2 u by (simp add: word_le_nat_alt)
  qed
  have "[0..<?n + 1] = 0 # map Suc [0..<?n]" by (simp add: map_Suc_upt upt_conv_Cons del: upt_Suc)
  then show ?thesis unfolding region_pages_def n using assms(1) by (simp add: algebra_simps)
qed

lemma each_page_visits:
  assumes "unat start mod 4096 = 0" "unat stop mod 4096 = 0" "unat stop < 4294963200"
  shows "each_page body start stop s = run_all body (region_pages start stop) s"
  using assms
proof (induction "unat stop + 4096 - unat start" arbitrary: start s rule: less_induct)
  case less
  show ?case
  proof (cases "start \<le> stop")
    case True
    then have le: "unat start \<le> unat stop" by (simp add: word_le_nat_alt)
    have u: "unat (start + 0x1000) = unat start + 4096" using le less.prems(3) by (subst unat_plus_u32) simp_all
    have "each_page body (start + 0x1000) stop s' = run_all body (region_pages (start + 0x1000) stop) s'" for s'
      by (rule less.hyps) (use less.prems le u in auto)
    then show ?thesis
      unfolding region_pages_step [OF True less.prems] each_page.simps [of body start stop s]
      using True by (cases "body start s") simp_all
  next
    case False
    then show ?thesis by (simp add: each_page.simps [of body start stop s] region_pages_def)
  qed
qed

lemma page_aligned_iff: "unat (a :: u32) mod 4096 = 0 \<longleftrightarrow> a AND 0xFFF = 0"
  by (simp add: word_unat_eq_iff page_offset)

lemma each_page_never_aux:
  assumes "each_page body start stop s = Some s'"
  shows "start AND 0xFFF = 0 \<longrightarrow> stop \<noteq> 0xFFFFF000"
proof (rule each_page.raw_induct [OF _ assms], intro impI notI)
  fix run :: "(u32 \<Rightarrow> 'a \<Rightarrow> 'a option) \<Rightarrow> u32 \<Rightarrow> u32 \<Rightarrow> 'a \<Rightarrow> 'a option"
    and body start stop s s'
  assume IH: "\<And>body start stop s s'. run body start stop s = Some s' \<Longrightarrow>
      start AND 0xFFF = 0 \<longrightarrow> stop \<noteq> 0xFFFFF000"
    and step: "(if start \<le> stop then body start s \<bind> run body (start + PAGE_SIZE) stop else Some s) = Some s'"
    and a: "start AND 0xFFF = 0" and e: "stop = 0xFFFFF000"
  have "start AND 0xFFFFF000 = start" using a by (rule aligned_mask)
  then have "start \<le> stop" unfolding e using word_and_le1 [of start "0xFFFFF000"] by simp
  then obtain t where "run body (start + PAGE_SIZE) stop t = Some s'"
    using step by (auto simp: bind_eq_Some_conv)
  moreover have "(start + PAGE_SIZE) AND 0xFFF = 0" using a page_offset_add [of start 1] by simp
  ultimately show False using IH e by blast
qed

lemma each_page_never: "start AND 0xFFF = 0 \<Longrightarrow> each_page body start 0xFFFFF000 s = None"
  using each_page_never_aux [of body start "0xFFFFF000" s] by (cases "each_page body start 0xFFFFF000 s") auto

section \<open>Filling the first page table\<close>

text \<open>The entry of page \<open>k\<close>: present, writeable, for the supervisor, frame \<open>k\<close>.\<close>

definition identity_pte :: "u32 \<Rightarrow> u32 \<Rightarrow> bool" where
  "identity_pte k e \<longleftrightarrow> page_present e = 1 \<and> get_field 1 1 e = 1 \<and> get_field 2 1 e = 0
     \<and> page_frame e = k AND mask 20"

lemma identity_entry_eq:
  "\<exists>e. identity_pte i e \<and> identity_entry table i s = s\<lparr>mem := store32 (mem s) (page_slot table i) e\<rparr>"
  unfolding identity_entry_def upd_word_twice
  by (intro exI conjI) (simp_all add: upd_word_def identity_pte_def)

lemma page_slot_nat: "page_slot table i = table + of_nat (unat i * 4)"
  by (simp add: page_slot_def)

lemma fill_table:
  assumes "unat n \<le> 1073741824"
  shows "\<exists>m. for_loop 0 n (identity_entry table) s = s\<lparr>mem := m\<rparr>
    \<and> same_outside (in_region table (unat n * 4)) (mem s) m
    \<and> (\<forall>k < n. identity_pte k (load32 m (page_slot table k)))"
proof -
  define P where "P i t \<longleftrightarrow> (\<exists>m. t = s\<lparr>mem := m\<rparr>
    \<and> same_outside (in_region table (unat i * 4)) (mem s) m
    \<and> (\<forall>k < i. identity_pte k (load32 m (page_slot table k))))" for i :: u32 and t
  have "P n (for_loop 0 n (identity_entry table) s)"
  proof (rule for_loop_rule [where P = P])
    have "s = s\<lparr>mem := mem s\<rparr>" by simp
    then show "P 0 s" unfolding P_def by (intro exI [of _ "mem s"]) simp
    fix i t
    assume i: "i < n" and "P i t"
    then obtain m where t: "t = s\<lparr>mem := m\<rparr>" and same: "same_outside (in_region table (unat i * 4)) (mem s) m"
      and m: "\<And>k. k < i \<Longrightarrow> identity_pte k (load32 m (page_slot table k))"
      unfolding P_def by blast
    have suc: "unat (i + 1) = Suc (unat i)" using i by (rule unat_suc_u32)
    have lt: "unat i < 1073741824" using i assms by (simp add: word_less_nat_alt)
    obtain e where e: "identity_pte i e" "identity_entry table i t = t\<lparr>mem := store32 (mem t) (page_slot table i) e\<rparr>"
      using identity_entry_eq by blast
    let ?m = "store32 m (page_slot table i) e"
    have "same_outside (in_region table (unat (i + 1) * 4)) (mem s) ?m"
    proof (rule same_outside_trans)
      show "same_outside (in_region table (unat (i + 1) * 4)) (mem s) m"
        by (rule same_outside_mono [OF same]) (simp add: in_region_def suc)
      show "same_outside (in_region table (unat (i + 1) * 4)) m ?m"
      proof (rule same_outside_store32)
        fix x
        assume "in_region (page_slot table i) 4 x"
        then have d: "unat (x - page_slot table i) < 4" by (simp add: in_region_def)
        have e: "x - table = i * 4 + (x - page_slot table i)" by (simp add: page_slot_def)
        have "unat (i * 4) = unat i * 4" using lt by (subst unat_mult_u32) simp_all
        then have "unat (x - table) = unat i * 4 + unat (x - page_slot table i)"
          unfolding e using lt d by (subst unat_plus_u32) simp_all
        then show "in_region table (unat (i + 1) * 4) x" using d by (simp add: in_region_def suc)
      qed
    qed
    moreover have "identity_pte k (load32 ?m (page_slot table k))" if "k < i + 1" for k
    proof (cases "k = i")
      case True
      then show ?thesis using e(1) by simp
    next
      case False
      have k: "unat k < unat i"
        using False that suc by (simp add: word_less_nat_alt word_unat_eq_iff less_Suc_eq)
      have "apart (page_slot table i) 4 (page_slot table k) 4"
        unfolding page_slot_nat using k lt by (intro apart_elems) auto
      then show ?thesis using m [of k] k by (simp add: mem_simps word_less_nat_alt)
    qed
    ultimately show "P (i + 1) (identity_entry table i t)"
      unfolding P_def e(2) by (intro exI [of _ ?m]) (simp add: t)
  qed simp
  then show ?thesis unfolding P_def .
qed

section \<open>Turning paging on\<close>

text \<open>
  What the walk finds: the first entry of the directory at \<open>dir\<close> leads to the table, whose
  entries map page \<open>k\<close> to frame \<open>k\<close>, and no other entry is present.
\<close>

definition identity_map :: "u32 \<Rightarrow> u32 \<Rightarrow> memory \<Rightarrow> bool" where
  "identity_map dir table m \<longleftrightarrow>
     dir AND 0xFFF = 0 \<and> table AND 0xFFF = 0 \<and> table \<noteq> 0
     \<and> (\<forall>k < 1024. identity_pte k (load32 m (page_slot table k)))
     \<and> get_field 0 1 (load32 m (physical_slot dir 0)) = 1
     \<and> get_field 12 20 (load32 m (physical_slot dir 0)) = drop_bit 12 table
     \<and> (\<forall>i. 0 < i \<and> i < 1024 \<longrightarrow> load32 m (physical_slot dir i) = 0 \<and> load32 m (tables_slot dir i) = 0)
     \<and> load32 m (tables_slot dir 0) = table"

lemma physical_slot_nat: "physical_slot dir i = dir + of_nat (4096 + unat i * 4)"
  by (simp add: physical_slot_def)

lemma tables_slot_nat: "tables_slot dir i = dir + of_nat (unat i * 4)"
  by (simp add: tables_slot_def)

lemma load32_filled_zero:
  assumes "in_region p n a" "unat (a - p) + 4 \<le> n" "n \<le> 4294967296"
  shows "load32 (filled p n 0 m) a = 0"
proof -
  have "in_region p n (a + of_nat k)" if "k < 4" for k
  proof -
    have e: "a + of_nat k - p = (a - p) + of_nat k" by simp
    have k: "unat (of_nat k :: u32) = k" using that by (intro unat_of_nat_u32) simp
    then have "unat (a + of_nat k - p) = unat (a - p) + k"
      unfolding e using assms that by (subst unat_plus_u32) simp_all
    then show ?thesis using assms that by (simp add: in_region_def)
  qed
  then have "load32 (filled p n 0 m) a = load32 (\<lambda>_. 0) a" by (intro load32_cong) (simp add: filled_def)
  then show ?thesis by (simp add: load32_def)
qed

lemma dumballoc_eq:
  "dumballoc sz s =
     (let p = (if placementaddr s AND 0xFFF \<noteq> 0 then BLOCK_ALIGN (placementaddr s) else placementaddr s)
      in (p, s\<lparr>placementaddr := p + sz\<rparr>))"
proof -
  have c: "(0xFFFFF000 :: u32) = NOT 0xFFF" by simp
  show ?thesis unfolding dumballoc_def BLOCK_ALIGN_def Let_def c by simp
qed

lemma apart_directory_word:
  "off + 4 \<le> 8192 \<Longrightarrow> 8192 + n \<le> 4294967296 \<Longrightarrow> 0 < n \<Longrightarrow>
   apart (dir + 0x2000) n (dir + of_nat off) 4"
  using apart_sym [OF apart_offsets [of off 4 8192 n dir]] by simp

lemma load32_outside_region:
  "apart p n a 4 \<Longrightarrow> same_outside (in_region p n) m m' \<Longrightarrow> load32 m' a = load32 m a"
  by (erule same_outside_load32) (rule apart_not_in_region)

lemma same_outside_filled: "same_outside (in_region p n) m (filled p n v m)"
  by (simp add: same_outside_def filled_def)

lemma build_identity_map:
  assumes dir: "dir AND 0xFFF = 0" "dir + 0x2000 \<noteq> 0" and n: "1024 \<le> n" "n \<le> 1073739776"
    and same: "same_outside (in_region (dir + 0x2000) (n * 4))
      (filled (dir + 0x2000) 4194304 0 (filled dir 8388608 0 m)) m3"
    and pte: "\<And>k. unat k < n \<Longrightarrow> identity_pte k (load32 m3 (page_slot (dir + 0x2000) k))"
    and e: "get_field 0 1 e = 1" "get_field 12 20 e = drop_bit 12 (dir + 0x2000)"
  shows "identity_map dir (dir + 0x2000)
    (store32 (store32 m3 (physical_slot dir 0) e) (tables_slot dir 0) (dir + 0x2000))"
    (is "identity_map dir ?T ?m")
proof -
  have blank: "load32 m3 (dir + of_nat off) = 0" if "off + 4 \<le> 8192" for off
  proof -
    have u: "unat (of_nat off :: u32) = off" using that by (intro unat_of_nat_u32) simp
    have "load32 m3 (dir + of_nat off) = load32 (filled ?T 4194304 0 (filled dir 8388608 0 m)) (dir + of_nat off)"
      using n that by (intro load32_outside_region [OF apart_directory_word same]) simp_all
    also have "\<dots> = load32 (filled dir 8388608 0 m) (dir + of_nat off)"
      using that by (intro load32_outside_region [OF apart_directory_word same_outside_filled]) simp_all
    also have "\<dots> = 0"
      using that u by (intro load32_filled_zero) (simp_all add: in_region_def)
    finally show ?thesis .
  qed
  have phys: "load32 ?m (physical_slot dir i) = (if i = 0 then e else 0)" if i: "unat i < 1024" for i
  proof -
    have "apart (tables_slot dir 0) 4 (physical_slot dir i) 4"
      unfolding tables_slot_nat physical_slot_nat using i by (intro apart_offsets) auto
    moreover have "apart (physical_slot dir 0) 4 (physical_slot dir i) 4" if "i \<noteq> 0"
    proof -
      have "0 < unat i" using that by (simp add: unat_gt_0)
      then show ?thesis unfolding physical_slot_nat using i by (intro apart_offsets) auto
    qed
    moreover have "load32 m3 (physical_slot dir i) = 0" unfolding physical_slot_nat using i by (intro blank) simp
    ultimately show ?thesis by (auto simp: mem_simps)
  qed
  have tabs: "load32 ?m (tables_slot dir i) = (if i = 0 then ?T else 0)" if i: "unat i < 1024" for i
  proof -
    have a: "apart (physical_slot dir 0) 4 (tables_slot dir i) 4"
      unfolding tables_slot_nat physical_slot_nat using i by (intro apart_sym [OF apart_offsets]) auto
    moreover have "apart (tables_slot dir 0) 4 (tables_slot dir i) 4" if "i \<noteq> 0"
    proof -
      have "0 < unat i" using that by (simp add: unat_gt_0)
      then show ?thesis unfolding tables_slot_nat using i by (intro apart_offsets) auto
    qed
    moreover have "load32 m3 (tables_slot dir i) = 0" unfolding tables_slot_nat using i by (intro blank) simp
    ultimately show ?thesis by (auto simp: mem_simps)
  qed
  have pages: "load32 ?m (page_slot ?T k) = load32 m3 (page_slot ?T k)" if k: "unat k < 1024" for k
  proof -
    have s: "page_slot ?T k = dir + of_nat (8192 + unat k * 4)" by (simp add: page_slot_def)
    have "apart (tables_slot dir 0) 4 (page_slot ?T k) 4" "apart (physical_slot dir 0) 4 (page_slot ?T k) 4"
      unfolding s tables_slot_nat physical_slot_nat using k by (intro apart_offsets; simp)+
    then show ?thesis by (simp add: mem_simps)
  qed
  have "?T AND 0xFFF = 0" using dir(1) page_offset_add [of dir 2] by simp
  then show ?thesis
    unfolding identity_map_def using dir n phys tabs pages pte e by (auto simp: word_less_nat_alt)
qed

lemma dumballoc_aligned [simp]:
  "placementaddr s AND 0xFFF = 0 \<Longrightarrow>
   dumballoc sz s = (placementaddr s, s\<lparr>placementaddr := placementaddr s + sz\<rparr>)"
  by (simp add: dumballoc_def)

definition page_up :: "u32 \<Rightarrow> u32" where
  "page_up p = (if p AND 0xFFF \<noteq> 0 then BLOCK_ALIGN p else p)"

lemma page_up_aligned: "page_up p AND 0xFFF = 0"
  using BLOCK_ALIGN_aligned by (simp add: page_up_def)

lemma page_up_bound: "unat p \<le> 4294963200 - 4096 \<Longrightarrow> unat (page_up p) \<le> unat p + 4096"
proof -
  assume p: "unat p \<le> 4294963200 - 4096"
  have le: "unat (p AND 0xFFFFF000) \<le> unat p"
    using word_and_le2 [of p "0xFFFFF000"] by (simp add: word_le_nat_alt)
  then have "unat ((p AND 0xFFFFF000) + 0x1000) = unat (p AND 0xFFFFF000) + 4096"
    using p by (subst unat_plus_u32) simp_all
  then show ?thesis using le by (simp add: page_up_def BLOCK_ALIGN_def)
qed

text \<open>Where \<^verbatim>\<open>paging_init\<close> leaves the placement address within its page.\<close>

lemma placement_offset: "dir AND 0xFFF = 0 \<Longrightarrow> (dir + 0x3400) AND 0xFFF = (0x400 :: u32)"
  using page_offset_within [of "dir + 3 * 0x1000" "0x400"] page_offset_add [of dir 3] by (simp add: add.assoc)

text \<open>\<^verbatim>\<open>paging_init\<close> returns, and this is what it leaves.\<close>

definition dir_entry :: "u32 \<Rightarrow> u32 \<Rightarrow> u32" where
  "dir_entry table w = (set_dir_page_size 0 \<circ> set_dir_user 1 \<circ> set_dir_rw 1
     \<circ> set_dir_present 1 \<circ> set_dir_frame (drop_bit 12 table)) w"

lemma dir_entry_fields [simp]:
  "get_field 0 (Suc 0) (dir_entry table w) = 1" "get_field 12 20 (dir_entry table w) = drop_bit 12 table"
  by (simp_all add: dir_entry_def frame_field)

lemma paging_init_result:
  assumes live: "tx_live s" and p: "unat (placementaddr s) \<le> 268435456"
  shows "\<exists>s'. paging_init s = Some s' \<and> tx_live s'
    \<and> kernel_dir s' = page_up (placementaddr s) \<and> current_directory s' = kernel_dir s'
    \<and> cr3 s' = physical_slot (kernel_dir s') 0 \<and> cr0 s' = cr0 s OR 0x80000000
    \<and> placementaddr s' = kernel_dir s' + 0x3400 \<and> heap_start s' = placementaddr s'
    \<and> heap_cur s' = placementaddr s' \<and> heap_end s' = placementaddr s' + HEAP_SIZE
    \<and> identity_map (kernel_dir s') (kernel_dir s' + 0x2000) (mem s') \<and> bitmap_addr s' = bitmap_addr s"
proof -
  define D where "D = page_up (placementaddr s)"
  have a: "D AND 0xFFF = 0" by (simp add: D_def page_up_aligned)
  have a2: "(D + 0x2000) AND 0xFFF = 0" "(D + 0x3000) AND 0xFFF = 0"
    using a page_offset_add [of D 2] page_offset_add [of D 3] by simp_all
  have uD: "unat D \<le> 268435456 + 4096" unfolding D_def using page_up_bound [of "placementaddr s"] p by simp
  then have u: "unat (D + 0x2000) = unat D + 0x2000" "unat (D + 0x3400) = unat D + 0x3400"
    by (subst unat_plus_u32; simp)+
  then have nz: "D + 0x2000 \<noteq> 0" by (auto simp: word_unat_eq_iff)
  have d1: "dumballoc sizeof_page_directory t = (D, t\<lparr>placementaddr := D + sizeof_page_directory\<rparr>)"
    if "placementaddr t = placementaddr s" for t :: "'a vmm_scheme"
    using that by (simp only: dumballoc_eq Let_def D_def page_up_def)
  have msg: "\<exists>n. qemu_printf f [] t = Some (t\<lparr>io := io t @ map (Outb PORT) (map of_char f), in_count := n\<rparr>)"
    if "tx_live t" "CHR ''%'' \<notin> set f" for f and t :: "'a vmm_scheme"
    using qemu_printf_message [OF that, of "[]"] by (auto simp: printed_def)
  define N where "N f t = (SOME n. qemu_printf f [] t
      = Some (t\<lparr>io := io t @ map (Outb PORT) (map of_char f), in_count := n\<rparr>))" for f and t :: "'a vmm_scheme"
  have N: "qemu_printf f [] t = Some (t\<lparr>io := io t @ map (Outb PORT) (map of_char f), in_count := N f t\<rparr>)"
    if "tx_live t" "CHR ''%'' \<notin> set f" for f and t :: "'a vmm_scheme"
    unfolding N_def by (rule someI_ex [OF msg [OF that]])
  have fill: "\<exists>m. for_loop 0 (D + 0x3400) (identity_entry (D + 0x2000)) t = t\<lparr>mem := m\<rparr>
    \<and> same_outside (in_region (D + 0x2000) (unat (D + 0x3400) * 4)) (mem t) m
    \<and> (\<forall>k < D + 0x3400. identity_pte k (load32 m (page_slot (D + 0x2000) k)))" for t :: "'a vmm_scheme"
    using fill_table [of "D + 0x3400" "D + 0x2000" t] u uD by simp
  define M where "M t = (SOME m. for_loop 0 (D + 0x3400) (identity_entry (D + 0x2000)) t = t\<lparr>mem := m\<rparr>
    \<and> same_outside (in_region (D + 0x2000) (unat (D + 0x3400) * 4)) (mem t) m
    \<and> (\<forall>k < D + 0x3400. identity_pte k (load32 m (page_slot (D + 0x2000) k))))" for t :: "'a vmm_scheme"
  have M: "for_loop 0 (D + 0x3400) (identity_entry (D + 0x2000)) t = t\<lparr>mem := M t\<rparr>"
    "same_outside (in_region (D + 0x2000) (unat (D + 0x3400) * 4)) (mem t) (M t)"
    "\<forall>k < D + 0x3400. identity_pte k (load32 (M t) (page_slot (D + 0x2000) k))" for t :: "'a vmm_scheme"
    using someI_ex [OF fill [of t]] unfolding M_def by blast+
  have b: "identity_map D (D + 0x2000)
      (store32 (store32 (M t) (physical_slot D 0) (dir_entry (D + 0x2000) (load32 (M t) (physical_slot D 0))))
        (tables_slot D 0) (D + 0x2000))"
    if "mem t = filled (D + 0x2000) 4194304 0 (filled D 8388608 0 m)" for t m
  proof (rule build_identity_map)
    show "same_outside (in_region (D + 0x2000) (unat (D + 0x3400) * 4))
      (filled (D + 0x2000) 4194304 0 (filled D 8388608 0 m)) (M t)"
      using M(2) [of t] that by simp
    show "unat k < unat (D + 0x3400) \<Longrightarrow> identity_pte k (load32 (M t) (page_slot (D + 0x2000) k))" for k
      using M(3) [of t] by (simp add: word_less_nat_alt)
  qed (use a nz u uD in simp_all)
  have l: "tx_live t" if "port_env t = port_env s" for t :: "'a vmm_scheme"
    using live that by (simp add: tx_live_def tx_ready_def)
  show ?thesis
    by (simp add: paging_init_def N l d1 a a2 memset_eq M(1) Let_def upd_word_def
          switch_to_page_dir_def D_def [symmetric] add.assoc)
      (rule b [where m = "mem s", unfolded dir_entry_def comp_def One_nat_def], simp)
qed

lemma physical_slot_walk:
  "dir AND 0xFFF = 0 \<Longrightarrow> (physical_slot dir 0 AND 0xFFFFF000) + i * 4 = physical_slot dir i"
proof -
  assume "dir AND 0xFFF = 0"
  then have "(dir + 0x1000) AND 0xFFF = 0" using page_offset_add [of dir 1] by simp
  then show ?thesis using aligned_mask [of "dir + 0x1000"] by (simp add: physical_slot_def)
qed

lemma page_index_word: "PAGETBL_INDEX v < 1024" "PAGEDIR_INDEX v < 1024"
  using PAGETBL_INDEX_lt PAGEDIR_INDEX_lt by (simp_all add: word_less_nat_alt)

lemma low_page: "PAGEDIR_INDEX v = 0 \<longleftrightarrow> unat v < 4194304"
  by (auto simp: word_unat_eq_iff PAGEDIR_INDEX_unat div_eq_0_iff)

lemma mmu_walk_entry:
  assumes "dir AND 0xFFF = 0" "table AND 0xFFF = 0"
    "get_field 0 1 (load32 m (physical_slot dir (PAGEDIR_INDEX v))) \<noteq> 0"
    "get_field 12 20 (load32 m (physical_slot dir (PAGEDIR_INDEX v))) = drop_bit 12 table"
  shows "mmu_walk m (physical_slot dir 0) v =
    (let pte = load32 m (page_slot table (PAGETBL_INDEX v))
     in if page_present pte = 0 then None
        else Some (push_bit 12 (page_frame pte) OR PAGEFRAME_INDEX v))"
  using assms by (simp add: mmu_walk_def physical_slot_walk aligned_shift page_slot_def)

lemma identity_map_walk:
  assumes "identity_map dir table m"
  shows "mmu_walk m (physical_slot dir 0) v = (if unat v < 4194304 then Some v else None)"
proof (cases "unat v < 4194304")
  case True
  then have z: "PAGEDIR_INDEX v = 0" by (simp add: low_page)
  have "identity_pte (PAGETBL_INDEX v) (load32 m (page_slot table (PAGETBL_INDEX v)))"
    using assms page_index_word unfolding identity_map_def by blast
  then show ?thesis
    using assms True mmu_walk_entry [of dir table m v] low_address [OF True]
    by (simp add: identity_map_def identity_pte_def z Let_def)
next
  case False
  then have "PAGEDIR_INDEX v \<noteq> 0" by (simp add: low_page)
  then have "load32 m (physical_slot dir (PAGEDIR_INDEX v)) = 0"
    using assms page_index_word by (simp add: identity_map_def word_gt_0)
  then show ?thesis
    using assms False by (simp add: identity_map_def mmu_walk_def physical_slot_walk)
qed

lemma identity_map_entry:
  assumes "identity_map dir table m" "unat v < 4194304"
  shows "load32 m (tables_slot dir (PAGEDIR_INDEX v)) = table" "table \<noteq> 0"
    "identity_pte (PAGETBL_INDEX v) (load32 m (page_slot table (PAGETBL_INDEX v)))"
  using assms page_index_word low_page [of v] by (auto simp: identity_map_def)

section \<open>Mapping and unmapping one page\<close>

definition mapped_pte :: "u32 \<Rightarrow> u32 \<Rightarrow> u32" where
  "mapped_pte frame w = set_page_user 1 (set_page_writeable 1 (set_page_present 1 (set_page_frame frame w)))"

lemma allocate_page_present:
  "load32 (mem s) (tables_slot dir (PAGEDIR_INDEX v)) = table \<Longrightarrow> table \<noteq> 0 \<Longrightarrow>
   page_present (load32 (mem s) (page_slot table (PAGETBL_INDEX v))) \<noteq> 0 \<Longrightarrow>
   allocate_page dir v s = Some s"
  by (simp add: allocate_page_def Let_def)

lemma allocate_page_absent:
  "load32 (mem s) (tables_slot dir (PAGEDIR_INDEX v)) = table \<Longrightarrow> table \<noteq> 0 \<Longrightarrow>
   page_present (load32 (mem s) (page_slot table (PAGETBL_INDEX v))) = 0 \<Longrightarrow>
   allocate_page dir v s =
     map_option (\<lambda>(frame, s'). upd_word (page_slot table (PAGETBL_INDEX v)) (mapped_pte frame) s')
       (kalloc_page_frame s)"
  by (simp add: allocate_page_def Let_def mapped_pte_def [abs_def] comp_def map_option_case
      split: option.split)

lemma mapped_pte_fields [simp]:
  "get_field 0 (Suc 0) (mapped_pte frame w) = 1" "page_frame (mapped_pte frame w) = frame AND mask 20"
  by (simp_all add: mapped_pte_def)

text \<open>The words of the bitmap that the search for a free frame reads.\<close>

lemma bucket_in_bitmap:
  assumes "apart (bitmap_addr s) 140288 a 4" "i < FRAME_LIMIT"
  shows "apart (bucket i s) 4 a 4"
proof -
  have i: "unat i div 8 * 4 + 4 \<le> 140288" using assms(2) by (simp add: word_less_nat_alt)
  let ?o = "unat i div 8 * 4"
  have b: "140288 \<le> unat (a - bitmap_addr s)" "4 \<le> unat (bitmap_addr s - a)"
    using assms(1) by (simp_all add: apart_def)
  have u: "unat (of_nat ?o :: u32) = ?o" using i by (intro unat_of_nat_u32) simp
  have e1: "a - bucket i s = (a - bitmap_addr s) - of_nat ?o" by (simp add: bucket_eq)
  have d1: "unat (a - bucket i s) = unat (a - bitmap_addr s) - ?o"
    using unat_minus_u32 [of "of_nat ?o" "a - bitmap_addr s"] b i u by (simp only: e1 word_le_nat_alt)
  have s: "unat (bitmap_addr s - a) + unat (a - bitmap_addr s) = 4294967296"
  proof -
    have "bitmap_addr s - a = 0 - (a - bitmap_addr s)" by simp
    moreover have "unat (0 :: u32) < unat (a - bitmap_addr s)" using b by simp
    ultimately show ?thesis
      using unat_diff_wrap_u32 [of 0 "a - bitmap_addr s"] unat_u32_lt [of "a - bitmap_addr s"] by simp
  qed
  have e2: "bucket i s - a = (bitmap_addr s - a) + of_nat ?o" by (simp add: bucket_eq)
  have d2: "unat (bucket i s - a) = unat (bitmap_addr s - a) + ?o"
    using unat_plus_u32 [of "bitmap_addr s - a" "of_nat ?o"] s b i u by (simp only: e2)
  show ?thesis unfolding apart_def d1 d2 using b i by simp
qed

lemma ISSET_upd_word:
  "apart (bitmap_addr s) 140288 a 4 \<Longrightarrow> j < FRAME_LIMIT \<Longrightarrow> ISSET j (upd_word a f s) = ISSET j s"
  by (simp add: ISSET_def upd_word_def mem_simps apart_sym [OF bucket_in_bitmap])

lemma run_all_fixed: "(\<And>x. x \<in> set xs \<Longrightarrow> body x s = Some s) \<Longrightarrow> run_all body xs s = Some s"
  by (induction xs) simp_all

lemma page_start_offset: "(a AND 0xFFFFF000) AND 0xFFF = (0 :: u32)"
  by (simp add: word_bw_assocs)

lemma region_loop:
  "each_page body (a AND 0xFFFFF000) (b AND 0xFFFFF000) s =
    (if b AND 0xFFFFF000 = 0xFFFFF000 then None
     else run_all body (region_pages (a AND 0xFFFFF000) (b AND 0xFFFFF000)) s)"
proof (cases "b AND 0xFFFFF000 = 0xFFFFF000")
  case True
  then show ?thesis using each_page_never [OF page_start_offset] by simp
next
  case False
  let ?b = "b AND 0xFFFFF000"
  have "?b \<le> 0xFFFFF000" by (rule word_and_le1)
  then have "unat ?b < 4294963200" using False by (simp add: word_le_nat_alt word_unat_eq_iff)
  then show ?thesis
    using False each_page_visits [of "a AND 0xFFFFF000" ?b] page_start_offset [of a] page_start_offset [of b]
    by (simp add: page_aligned_iff)
qed

lemma region_pages_bound: "v \<in> set (region_pages start stop) \<Longrightarrow> unat v \<le> unat stop"
proof -
  assume "v \<in> set (region_pages start stop)"
  moreover define n where "n = (if start \<le> stop then (unat stop - unat start) div 4096 + 1 else 0)"
  ultimately have "v \<in> (\<lambda>k. start + of_nat k * 0x1000) ` {0..<n}"
    by (simp only: region_pages_def set_map set_upt)
  then obtain k where v: "v = start + of_nat k * 0x1000" and "k \<in> {0..<n}" by blast
  then have le: "start \<le> stop" and k: "k \<le> (unat stop - unat start) div 4096"
    by (auto simp: n_def split: if_splits)
  have b: "unat start + k * 4096 \<le> unat stop"
    using k le mult_le_mono1 [OF k, of 4096] div_times_less_eq_dividend [of "unat stop - unat start" 4096]
    by (simp add: word_le_nat_alt)
  then have small: "k * 4096 < 4294967296" using unat_u32_lt [of stop] by simp
  have "unat (of_nat k * 0x1000 :: u32) = k * 4096"
    using small unat_of_nat_u32 [of "k * 4096"] by simp
  then have "unat v = unat start + k * 4096"
    unfolding v using b unat_u32_lt [of stop] by (subst unat_plus_u32) simp_all
  then show ?thesis using b by simp
qed

lemma allocate_region_low_aux:
  assumes "identity_map dir table (mem s)" "b < 0x400000"
  shows "allocate_region dir a b s = Some s"
proof -
  have b: "unat b < 4194304" using assms(2) by (simp add: word_less_nat_alt)
  have le: "unat (b AND 0xFFFFF000) \<le> unat b"
    using word_and_le2 [of b "0xFFFFF000"] by (simp add: word_le_nat_alt)
  have "allocate_page dir v s = Some s" if "v \<in> set (region_pages (a AND 0xFFFFF000) (b AND 0xFFFFF000))" for v
  proof -
    have v: "unat v < 4194304" using region_pages_bound [OF that] le b by simp
    note e = identity_map_entry [OF assms(1) v]
    have "page_present (load32 (mem s) (page_slot table (PAGETBL_INDEX v))) \<noteq> 0"
      using e(3) by (simp add: identity_pte_def)
    then show ?thesis by (rule allocate_page_present [OF e(1,2)])
  qed
  moreover have "b AND 0xFFFFF000 \<noteq> 0xFFFFF000" using le b by (auto simp: word_unat_eq_iff)
  ultimately show ?thesis by (simp add: allocate_region_def region_loop run_all_fixed)
qed

section \<open>Properties\<close>

text \<open>
  C12. On a live UART, with a placement address of at most 256 MB, \<^verbatim>\<open>paging_init\<close> returns with
  paging switched on over the new kernel directory, under which the processor translates every
  address of the first four megabytes to itself and no other address; the heap is the four
  megabytes above the final placement address.
\<close>

theorem paging_init_identity:
  assumes "tx_live s" "placementaddr s \<le> 0x10000000"
  shows "\<exists>s'. paging_init s = Some s' \<and> bit (cr0 s') 31
    \<and> cr3 s' = physical_slot (kernel_dir s') 0
    \<and> mmu_walk (mem s') (cr3 s') = (\<lambda>v. if v < 0x400000 then Some v else None)
    \<and> heap_start s' = placementaddr s' \<and> heap_cur s' = placementaddr s' \<and> heap_end s' = placementaddr s' + HEAP_SIZE
    \<and> identity_map (kernel_dir s') (kernel_dir s' + 0x2000) (mem s')"
proof -
  have "unat (placementaddr s) \<le> 268435456" using assms(2) by (simp add: word_le_nat_alt)
  from paging_init_result [OF assms(1) this] obtain s' where
    s': "paging_init s = Some s'" "cr3 s' = physical_slot (kernel_dir s') 0" "cr0 s' = cr0 s OR 0x80000000"
    "heap_start s' = placementaddr s'" "heap_cur s' = placementaddr s'" "heap_end s' = placementaddr s' + HEAP_SIZE"
    and i: "identity_map (kernel_dir s') (kernel_dir s' + 0x2000) (mem s')" by blast
  have "(0x80000000 :: u32) = push_bit 31 1" by simp
  then have "bit (cr0 s') 31" unfolding s'(3) by (simp only: bit_or_iff bit_push_bit_iff) simp
  then show ?thesis using s' i identity_map_walk [OF i] by (auto simp: fun_eq_iff word_less_nat_alt)
qed

definition boot_vmm :: vmm where
  "boot_vmm = pmm.extend boot_pmm \<lparr>nframes = 0, top_frame = 0, frames_ptr = 0, heap_start = 0, heap_end = 0,
     heap_cur = 0, current_directory = 0, kernel_dir = 0, cr0 = 0x11, cr3 = 0\<rparr>"

lemma boot_vmm_fields [simp]:
  "mem boot_vmm = (\<lambda>_. 0)" "bitmap_addr boot_vmm = 0x110000" "placementaddr boot_vmm = 0x135000"
  "io boot_vmm = []" "in_count boot_vmm = 0" "heap_cur boot_vmm = 0" "heap_end boot_vmm = 0"
  "kernel_dir boot_vmm = 0"
  by (simp_all add: boot_vmm_def boot_pmm_def idle_irq_def blank_desc_def irq_state.defs desc.defs pmm.defs)

lemma boot_vmm_live: "tx_live boot_vmm"
  using idle_irq_live by (simp add: boot_vmm_def boot_pmm_def tx_live_def tx_ready_def irq_state.defs pmm.defs)

theorem paging_init_identity_witness:
  "\<exists>s'. paging_init boot_vmm = Some s' \<and> mmu_walk (mem s') (cr3 s') 0x123456 = Some 0x123456
     \<and> mmu_walk (mem s') (cr3 s') 0x400000 = None"
  using paging_init_identity [OF boot_vmm_live] by auto

text \<open>
  Under the identity map of the first four megabytes \<^verbatim>\<open>virt_phys\<close> answers the offset within
  the page, not the address: it shifts the frame number down where the processor shifts it up.
\<close>

theorem virt_phys_loses_frame:
  assumes "identity_map dir table (mem s)" "v < 0x400000"
  shows "virt_phys dir v s = Some (v AND 0xFFF, s) \<and> mmu_walk (mem s) (physical_slot dir 0) v = Some v"
proof -
  have v: "unat v < 4194304" using assms(2) by (simp add: word_less_nat_alt)
  note e = identity_map_entry [OF assms(1) v]
  have "unat (PAGETBL_INDEX v AND mask 20) \<le> unat (PAGETBL_INDEX v)"
    using word_and_le2 by (simp only: word_le_nat_alt)
  then have "unat (PAGETBL_INDEX v AND mask 20) < 4096" using PAGETBL_INDEX_lt [of v] by simp
  then have "drop_bit 12 (PAGETBL_INDEX v AND mask 20) = 0"
    by (simp add: word_unat_eq_iff drop_bit_eq_div unat_div)
  then show ?thesis
    using e identity_map_walk [OF assms(1), of v] v
    by (simp add: virt_phys_def identity_pte_def PAGEFRAME_INDEX_def Let_def)
qed

theorem virt_phys_loses_frame_witness:
  "\<exists>s'. paging_init boot_vmm = Some s' \<and> virt_phys (kernel_dir s') 0x123456 s' = Some (0x456, s')"
proof -
  from paging_init_result [OF boot_vmm_live] obtain s' where
    "paging_init boot_vmm = Some s'" "identity_map (kernel_dir s') (kernel_dir s' + 0x2000) (mem s')" by auto
  then show ?thesis using virt_phys_loses_frame [of "kernel_dir s'" "kernel_dir s' + 0x2000" s' "0x123456"] by auto
qed

text \<open>
  C39. Mapping a page that has a table but is not present takes the lowest free frame and marks
  it, and makes the page present; the processor then sees the frame's address shifted left by
  twelve bits, because the frame field is given the address instead of the frame number.
\<close>

theorem allocate_page_maps:
  assumes "dir AND 0xFFF = 0" "table AND 0xFFF = 0" "table \<noteq> 0"
    "load32 (mem s) (tables_slot dir (PAGEDIR_INDEX v)) = table"
    "get_field 0 1 (load32 (mem s) (physical_slot dir (PAGEDIR_INDEX v))) \<noteq> 0"
    "get_field 12 20 (load32 (mem s) (physical_slot dir (PAGEDIR_INDEX v))) = drop_bit 12 table"
    "page_present (load32 (mem s) (page_slot table (PAGETBL_INDEX v))) = 0"
    "k < FRAME_LIMIT" "\<not> ISSET k s"
    "apart (bitmap_addr s) 140288 (physical_slot dir (PAGEDIR_INDEX v)) 4"
    "apart (bitmap_addr s) 140288 (page_slot table (PAGETBL_INDEX v)) 4"
    "apart (page_slot table (PAGETBL_INDEX v)) 4 (physical_slot dir (PAGEDIR_INDEX v)) 4"
  shows "\<exists>i s'. allocate_page dir v s = Some s' \<and> \<not> ISSET i s \<and> (\<forall>j < i. ISSET j s)
    \<and> (\<forall>j < FRAME_LIMIT. ISSET j s' \<longleftrightarrow> j = i \<or> ISSET j s)
    \<and> mmu_walk (mem s) (physical_slot dir 0) v = None
    \<and> mmu_walk (mem s') (physical_slot dir 0) v
        = Some (push_bit 12 (frame_address (placementaddr s) i) OR PAGEFRAME_INDEX v)"
proof (cases s rule: kalloc_page_frame_cases)
  case (frame i)
  let ?pte = "page_slot table (PAGETBL_INDEX v)" and ?pde = "physical_slot dir (PAGEDIR_INDEX v)"
  let ?a = "frame_address (placementaddr s) i"
  let ?s = "upd_word ?pte (mapped_pte ?a) (SETBIT i s)"
  have al: "allocate_page dir v s = Some ?s"
    using allocate_page_absent [OF assms(4,3,7)] frame(4) by simp
  have "load32 (mem ?s) ?pde = load32 (mem s) ?pde"
    using bucket_in_bitmap [OF assms(10) frame(1)] assms(12) by (simp add: upd_word_def SETBIT_def mem_simps)
  moreover have "load32 (mem ?s) ?pte = mapped_pte ?a (load32 (mem (SETBIT i s)) ?pte)"
    by (simp add: upd_word_def)
  ultimately have "mmu_walk (mem ?s) (physical_slot dir 0) v = Some (push_bit 12 ?a OR PAGEFRAME_INDEX v)"
    using mmu_walk_entry [OF assms(1,2), of "mem ?s" v] assms(5,6) by (simp add: push_frame_field Let_def)
  moreover have "mmu_walk (mem s) (physical_slot dir 0) v = None"
    using mmu_walk_entry [OF assms(1,2,5,6)] assms(7) by (simp add: Let_def)
  moreover have "ISSET j ?s \<longleftrightarrow> j = i \<or> ISSET j s" if "j < FRAME_LIMIT" for j
  proof -
    have "apart (bitmap_addr (SETBIT i s)) 140288 ?pte 4" using assms(11) by (simp add: SETBIT_def)
    then show ?thesis using that by (simp add: ISSET_upd_word frames.test_set)
  qed
  ultimately show ?thesis using al frame(2,3) by blast
next
  case full
  then show ?thesis using assms(8,9) by blast
qed

text \<open>A directory with one empty table, for the second four megabytes.\<close>

definition one_table_vmm :: vmm where
  "one_table_vmm = boot_vmm\<lparr>mem := store32 (store32 (\<lambda>_. 0) 0x201004 0x00203007) 0x200004 0x00203000\<rparr>"

lemma one_table_loads:
  "load32 (mem one_table_vmm) 0x200004 = 0x00203000" "load32 (mem one_table_vmm) 0x201004 = 0x00203007"
  "load32 (mem one_table_vmm) 0x203000 = 0" "ISSET 0 one_table_vmm = False"
  by (simp_all add: one_table_vmm_def load32_def store32_def ISSET_def bucket_def)

theorem allocate_page_maps_witness:
  "\<exists>s'. allocate_page 0x200000 0x400123 one_table_vmm = Some s'
    \<and> mmu_walk (mem s') 0x201000 0x400123 = Some 0x36000123"
proof -
  have i: "PAGEDIR_INDEX 0x400123 = 1" "PAGETBL_INDEX 0x400123 = 0" "PAGEFRAME_INDEX 0x400123 = 0x123"
    by (simp_all add: PAGEDIR_INDEX_def PAGETBL_INDEX_def PAGEFRAME_INDEX_def drop_bit_eq_div)
  have f: "frame_address 0x135000 0 = 0x136000" by (simp add: frame_address_def BLOCK_ALIGN_def)
  have b: "bitmap_addr one_table_vmm = 0x110000" "placementaddr one_table_vmm = 0x135000"
    by (simp_all add: one_table_vmm_def)
  have "\<exists>i s'. allocate_page 0x200000 0x400123 one_table_vmm = Some s'
    \<and> \<not> ISSET i one_table_vmm \<and> (\<forall>j < i. ISSET j one_table_vmm)
    \<and> (\<forall>j < FRAME_LIMIT. ISSET j s' \<longleftrightarrow> j = i \<or> ISSET j one_table_vmm)
    \<and> mmu_walk (mem one_table_vmm) (physical_slot 0x200000 0) 0x400123 = None
    \<and> mmu_walk (mem s') (physical_slot 0x200000 0) 0x400123
        = Some (push_bit 12 (frame_address (placementaddr one_table_vmm) i) OR PAGEFRAME_INDEX 0x400123)"
    by (rule allocate_page_maps [where table = "0x203000" and k = 0])
      (simp_all add: i b one_table_loads tables_slot_def physical_slot_def page_slot_def get_field_def
        mask_eq_exp_minus_1 drop_bit_eq_div apart_def)
  moreover have "i = 0" if "\<forall>j < i. ISSET j one_table_vmm" for i
    using that one_table_loads(4) by (metis word_gt_0)
  ultimately show ?thesis using f b i by (fastforce simp: physical_slot_def push_bit_eq_mult)
qed

text \<open>
  C40. Let the placement address be at least 1 MB and at most \<open>0xB0000000\<close>, and the entry of a
  present page lie outside the bitmap and the words behind it up to the search bound. Unmapping the
  page makes it absent, but no frame below the search bound is released: the page's frame field, at
  most 20 bits wide, is passed as if it were the frame's address.  The bit that is cleared instead
  lies in a word behind the end of the bitmap.
\<close>

theorem free_page_leaks_frame:
  assumes "load32 (mem s) (tables_slot dir (PAGEDIR_INDEX v)) = table" "table \<noteq> 0"
    "page_present (load32 (mem s) (page_slot table (PAGETBL_INDEX v))) \<noteq> 0"
    "apart (bitmap_addr s) 140288 (page_slot table (PAGETBL_INDEX v)) 4"
    "0x100000 \<le> placementaddr s" "placementaddr s \<le> 0xB0000000"
  shows "\<exists>s' i. free_page dir v s = Some s'
    \<and> page_present (load32 (mem s') (page_slot table (PAGETBL_INDEX v))) = 0
    \<and> (\<forall>j < FRAME_LIMIT. ISSET j s' = ISSET j s)
    \<and> BITMAP_SIZE \<le> i div BLOCKS_PER_BUCKET
    \<and> s' = upd_word (page_slot table (PAGETBL_INDEX v)) (set_page_writeable 0 \<circ> set_page_present 0) (CLEARBIT i s)"
proof -
  let ?pte = "page_slot table (PAGETBL_INDEX v)"
  let ?t = "page_frame (load32 (mem s) ?pte)"
  let ?i = "(?t - placementaddr s) div 0x1000"
  let ?s = "upd_word ?pte (set_page_writeable 0 \<circ> set_page_present 0) (CLEARBIT ?i s)"
  have "?t = take_bit 20 (drop_bit 12 (load32 (mem s) ?pte))" by (simp add: get_field_def take_bit_eq_mask)
  then have "unat ?t < 1048576" by (simp add: unat_mod take_bit_eq_mod)
  moreover have p: "1048576 \<le> unat (placementaddr s)" "unat (placementaddr s) \<le> 2952790016"
    using assms(5,6) by (simp_all add: word_le_nat_alt)
  ultimately have "unat (?t - placementaddr s) = unat ?t + 4294967296 - unat (placementaddr s)"
    by (intro unat_diff_wrap_u32) simp
  then have "1342177280 \<le> unat (?t - placementaddr s)" using p by simp
  then have "1342177280 div 4096 \<le> unat (?t - placementaddr s) div 4096" by (rule div_le_mono)
  then have big: "\<not> ?i < FRAME_LIMIT" and i: "327680 \<le> unat ?i" by (simp_all add: word_less_nat_alt unat_div)
  have "327680 div 8 \<le> unat ?i div 8" using i by (rule div_le_mono)
  then have "BITMAP_SIZE \<le> ?i div BLOCKS_PER_BUCKET" by (simp add: word_le_nat_alt unat_div)
  moreover have "ISSET j ?s = ISSET j s" if "j < FRAME_LIMIT" for j
  proof -
    have "apart (bitmap_addr (CLEARBIT ?i s)) 140288 ?pte 4" using assms(4) by (simp add: CLEARBIT_def)
    then show ?thesis using that big by (auto simp: ISSET_upd_word frames.test_clear)
  qed
  moreover have "free_page dir v s = Some ?s"
    using assms(1-3) by (simp add: free_page_def Let_def kfree_page_frame_eq comp_def)
  moreover have "page_present (load32 (mem ?s) ?pte) = 0" by (simp add: upd_word_def)
  ultimately show ?thesis by blast
qed

text \<open>The first page of the second four megabytes, mapped.\<close>

definition one_page_vmm :: vmm where
  "one_page_vmm = one_table_vmm\<lparr>mem := store32 (mem one_table_vmm) 0x203000 0x36000007\<rparr>"

theorem free_page_leaks_frame_witness:
  "\<exists>s'. free_page 0x200000 0x400000 one_page_vmm = Some s'
    \<and> page_present (load32 (mem s') 0x203000) = 0 \<and> {j. j < FRAME_LIMIT \<and> ISSET j s'} = {j. j < FRAME_LIMIT \<and> ISSET j one_page_vmm}"
proof -
  have i: "PAGEDIR_INDEX 0x400000 = 1" "PAGETBL_INDEX 0x400000 = 0"
    by (simp_all add: PAGEDIR_INDEX_def PAGETBL_INDEX_def drop_bit_eq_div)
  have l: "load32 (mem one_page_vmm) 0x200004 = 0x00203000" "load32 (mem one_page_vmm) 0x203000 = 0x36000007"
    by (simp_all add: one_page_vmm_def one_table_vmm_def load32_def store32_def)
  have b: "bitmap_addr one_page_vmm = 0x110000" "placementaddr one_page_vmm = 0x135000"
    by (simp_all add: one_page_vmm_def one_table_vmm_def)
  have "\<exists>s' i. free_page 0x200000 0x400000 one_page_vmm = Some s'
    \<and> page_present (load32 (mem s') (page_slot 0x203000 (PAGETBL_INDEX 0x400000))) = 0
    \<and> (\<forall>j < FRAME_LIMIT. ISSET j s' = ISSET j one_page_vmm)
    \<and> BITMAP_SIZE \<le> i div BLOCKS_PER_BUCKET
    \<and> s' = upd_word (page_slot 0x203000 (PAGETBL_INDEX 0x400000)) (set_page_writeable 0 \<circ> set_page_present 0)
        (CLEARBIT i one_page_vmm)"
    by (rule free_page_leaks_frame)
      (simp_all add: i l b tables_slot_def page_slot_def get_field_def apart_def)
  then obtain s' where "free_page 0x200000 0x400000 one_page_vmm = Some s'"
    "page_present (load32 (mem s') (page_slot 0x203000 (PAGETBL_INDEX 0x400000))) = 0"
    "\<forall>j < FRAME_LIMIT. ISSET j s' = ISSET j one_page_vmm" by blast
  then show ?thesis by (auto simp: i page_slot_def)
qed

text \<open>
  C31. Mapping or unmapping a region handles the pages from the one of the first address to the
  one of the last address, both included, in ascending order; when the last page of the address
  space is among them the loop never ends.
\<close>

theorem region_operations_visit:
  "allocate_region dir a b s =
     (if b AND 0xFFFFF000 = 0xFFFFF000 then None
      else run_all (allocate_page dir) (region_pages (a AND 0xFFFFF000) (b AND 0xFFFFF000)) s)
   \<and> free_region dir a b s =
     (if b AND 0xFFFFF000 = 0xFFFFF000 then None
      else run_all (free_page dir) (region_pages (a AND 0xFFFFF000) (b AND 0xFFFFF000)) s)"
  by (simp add: allocate_region_def free_region_def region_loop)

text \<open>
  Mapping a region inside the first four megabytes, once paging is on, returns and changes
  nothing: every page is already present.
\<close>

theorem allocate_region_low:
  assumes "identity_map dir table (mem s)" "b < 0x400000"
  shows "allocate_region dir a b s = Some s"
  by (rule allocate_region_low_aux [OF assms])

theorem allocate_region_low_witness:
  "\<exists>s'. paging_init boot_vmm = Some s' \<and> allocate_region (kernel_dir s') 0x138400 0x139400 s' = Some s'"
proof -
  from paging_init_result [OF boot_vmm_live] obtain s' where
    "paging_init boot_vmm = Some s'" "identity_map (kernel_dir s') (kernel_dir s' + 0x2000) (mem s')" by auto
  then show ?thesis
    using allocate_region_low [of "kernel_dir s'" "kernel_dir s' + 0x2000" s' "0x139400" "0x138400"] by auto
qed

end
