(* ===== verification/Rise.thy ===== *)
theory Rise
  imports Vmm Spinlock
begin

text \<open>
  The hooks that the kernel gives its allocator, \<^verbatim>\<open>kernel/kernel/rise.c\<close>: a spin lock, and pages
  taken from the break \<open>heap_cur\<close> of the kernel heap, mapped on the way.

  The return values of the lock and unlock hooks are the constant 0, which no caller reads, and
  are left out.

  The lemmas show when a request for pages is refused, that a granted one below four megabytes
  yields the pages at the break and touches no memory, and what the signed comparison lets through.
\<close>

record rise = vmm +
  heap_lock :: spinlock

definition liballoc_lock :: "'a rise_scheme \<Rightarrow> 'a rise_scheme option" where
  "liballoc_lock s = map_option (\<lambda>l. s\<lparr>heap_lock := l\<rparr>) (spin_lock (heap_lock s))"

definition liballoc_unlock :: "'a rise_scheme \<Rightarrow> 'a rise_scheme" where
  "liballoc_unlock s = s\<lparr>heap_lock := spin_unlock (heap_lock s)\<rparr>"

definition liballoc_alloc :: "u32 \<Rightarrow> 'a rise_scheme \<Rightarrow> (u32 \<times> 'a rise_scheme) option" where
  "liballoc_alloc pages s =
     (let n = pages * PAGE_SIZE
      in if sint (n + heap_cur s) \<ge> sint (heap_end s)
         then map_option (Pair 0) (qemu_printf (''Out of memory: You need a bigger heap pal'' @ [CHR 0x0A]) [] s)
         else do {
           let end_va = heap_cur s + n;
           s \<leftarrow> allocate_region (kernel_dir s) (heap_cur s) end_va s;
           let rez = heap_cur s;
           Some (rez, s\<lparr>heap_cur := heap_cur s + n\<rparr>)
         })"

definition liballoc_free :: "u32 \<Rightarrow> u32 \<Rightarrow> 'a rise_scheme \<Rightarrow> (u32 \<times> 'a rise_scheme) option" where
  "liballoc_free ptr pages s =
     (let end_va = ptr + pages * PAGE_SIZE
      in map_option (Pair 1) (free_region (kernel_dir s) ptr end_va s))"

section \<open>The break\<close>

text \<open>
  A state in which a request for so many pages is granted without touching memory: paging is on
  with the first four megabytes mapped, and the pages end below both the heap's end and four
  megabytes.
\<close>

definition low_heap :: "'a rise_scheme \<Rightarrow> bool" where
  "low_heap s \<longleftrightarrow> (\<exists>table. identity_map (kernel_dir s) table (mem s)) \<and> heap_cur s \<noteq> 0
     \<and> unat (heap_end s) < 2147483648"

definition page_room :: "u32 \<Rightarrow> 'a rise_scheme \<Rightarrow> bool" where
  "page_room pages s \<longleftrightarrow> low_heap s
     \<and> unat (heap_cur s) + unat pages * 4096 < min (unat (heap_end s)) 4194304"

lemma small_sint: "unat (a :: u32) < 2147483648 \<Longrightarrow> sint a = int (unat a)"
proof -
  assume a: "unat a < 2147483648"
  then have "0 \<le> sint a" by (simp add: sint_nonneg_iff)
  then have "unat a = nat (sint a)" using unat_of_sint [of a] by simp
  then show ?thesis using \<open>0 \<le> sint a\<close> by simp
qed

lemma liballoc_alloc_room:
  assumes "page_room pages s"
  shows "liballoc_alloc pages s = Some (heap_cur s, s\<lparr>heap_cur := heap_cur s + pages * 0x1000\<rparr>)"
    and "unat (heap_cur s + pages * 0x1000) = unat (heap_cur s) + unat pages * 4096"
proof -
  from assms obtain table where i: "identity_map (kernel_dir s) table (mem s)"
    and b: "unat (heap_cur s) + unat pages * 4096 < unat (heap_end s)"
    "unat (heap_cur s) + unat pages * 4096 < 4194304" "unat (heap_end s) < 2147483648"
    by (auto simp: page_room_def low_heap_def)
  have m: "unat (pages * 0x1000) = unat pages * 4096" using b by (subst unat_mult_u32) simp_all
  show u: "unat (heap_cur s + pages * 0x1000) = unat (heap_cur s) + unat pages * 4096"
    using b m by (subst unat_plus_u32) simp_all
  have lt: "heap_cur s + pages * 0x1000 < 0x400000" using b u by (simp add: word_less_nat_alt)
  have "sint (heap_cur s + pages * 0x1000) < sint (heap_end s)"
  proof -
    have a: "unat (heap_cur s + pages * 0x1000) < 2147483648" using b u by simp
    show ?thesis unfolding small_sint [OF a] small_sint [OF b(3)] of_nat_less_iff u by (rule b(1))
  qed
  then show "liballoc_alloc pages s = Some (heap_cur s, s\<lparr>heap_cur := heap_cur s + pages * 0x1000\<rparr>)"
    using allocate_region_low_aux [OF i lt] by (simp add: liballoc_alloc_def Let_def add.commute)
qed

section \<open>Giving pages back\<close>

text \<open>
  \<^verbatim>\<open>free_page\<close> passes the number of a frame where its address is expected.  Below four megabytes
  the number is less than the placement address, the difference wraps around, and the bit that
  is cleared lies in one of two words far behind the end of the bitmap.
\<close>

definition stray_offset :: "u32 \<Rightarrow> nat" where
  "stray_offset p = (4294967296 - unat p) div 4096 div 8 * 4"

definition stray_words :: "'a pmm_scheme \<Rightarrow> u32" where
  "stray_words s = bitmap_addr s + of_nat (stray_offset (placementaddr s))"

definition tables_apart :: "u32 \<Rightarrow> u32 \<Rightarrow> 'a pmm_scheme \<Rightarrow> bool" where
  "tables_apart dir table s \<longleftrightarrow> 0x400 \<le> placementaddr s \<and> apart (stray_words s) 8 table 4096
     \<and> apart (stray_words s) 8 dir 8192 \<and> apart table 4096 dir 8192"

lemma tables_apart_mem [simp]: "tables_apart dir table (s\<lparr>mem := m\<rparr>) = tables_apart dir table s"
  "stray_words (s\<lparr>mem := m\<rparr>) = stray_words s"
  by (simp_all add: tables_apart_def stray_words_def)

abbreviation page_entry :: "u32 \<Rightarrow> u32 \<Rightarrow> 'a machine_scheme \<Rightarrow> u32" where
  "page_entry table k s \<equiv> load32 (mem s) (page_slot table k)"

text \<open>What unmapping may touch: the stray words and the page table.\<close>

definition unmap_region :: "u32 \<Rightarrow> 'a pmm_scheme \<Rightarrow> u32 \<Rightarrow> bool" where
  "unmap_region table s x \<longleftrightarrow> in_region (stray_words s) 8 x \<or> in_region table 4096 x"

lemma stray_bucket:
  assumes "unat t < 1024" "0x400 \<le> placementaddr s"
  shows "\<exists>j \<le> 4. bucket ((t - placementaddr s) div 0x1000) s = stray_words s + of_nat j"
proof -
  let ?p = "placementaddr s" and ?i = "(t - placementaddr s) div 0x1000"
  let ?a = "4294967296 - unat ?p"
  have p: "1024 \<le> unat ?p" using assms(2) by (simp add: word_le_nat_alt)
  have "unat (t - ?p) = unat t + 4294967296 - unat ?p" using assms(1) p by (intro unat_diff_wrap_u32) simp
  then have "unat (t - ?p) = ?a + unat t" using unat_u32_lt [of ?p] by simp
  then have i: "unat ?i = (?a + unat t) div 4096" by (simp add: unat_div)
  have "(?a + unat t) div 4096 \<le> (?a + 4096) div 4096" using assms(1) by (intro div_le_mono) simp
  then have "unat ?i \<le> ?a div 4096 + 1" unfolding i by simp
  moreover have "?a div 4096 \<le> unat ?i" unfolding i by (intro div_le_mono) simp
  ultimately have "unat ?i = ?a div 4096 \<or> unat ?i = ?a div 4096 + 1" by linarith
  then have "unat ?i div 8 = ?a div 4096 div 8 \<or> unat ?i div 8 = ?a div 4096 div 8 + 1" by (elim disjE) linarith+
  then have "unat ?i div 8 * 4 = stray_offset ?p \<or> unat ?i div 8 * 4 = stray_offset ?p + 4"
    by (auto simp: stray_offset_def)
  then have "bucket ?i s = stray_words s + of_nat 0 \<or> bucket ?i s = stray_words s + of_nat 4"
    unfolding bucket_eq stray_words_def by (elim disjE) (simp_all add: ac_simps)
  then show ?thesis by (elim disjE) auto
qed

text \<open>
  One page of the first four megabytes: its entry is cleared, no other entry of the table is
  touched, and nothing outside the table and the stray words.
\<close>

lemma free_page_entry:
  assumes d: "load32 (mem s) (tables_slot dir 0) = table" "table \<noteq> 0" and v: "unat v < 4194304"
    and pr: "page_present (page_entry table (PAGETBL_INDEX v) s) \<noteq> 0"
      "unat (page_frame (page_entry table (PAGETBL_INDEX v) s)) < 1024" and ap: "tables_apart dir table s"
  shows "\<exists>m. free_page dir v s = Some (s\<lparr>mem := m\<rparr>) \<and> same_outside (unmap_region table s) (mem s) m
    \<and> page_present (load32 m (page_slot table (PAGETBL_INDEX v))) = 0
    \<and> (\<forall>k < 1024. k \<noteq> PAGETBL_INDEX v \<longrightarrow> load32 m (page_slot table k) = page_entry table k s)
    \<and> load32 m (tables_slot dir 0) = table"
proof -
  let ?k = "PAGETBL_INDEX v"
  define i where "i = (page_frame (page_entry table ?k s) - placementaddr s) div 0x1000"
  obtain j where j: "j \<le> 4" "bucket i s = stray_words s + of_nat j"
    using stray_bucket [OF pr(2)] ap unfolding i_def tables_apart_def by blast
  have bt: "apart (bucket i s) 4 (page_slot table k) 4" if "k < 1024" for k
    using ap that j(1) unfolding j(2) page_slot_nat tables_apart_def
    by (intro apart_parts [of _ 8 _ 4096]) (auto simp: word_less_nat_alt)
  have bd: "apart (bucket i s) 4 (tables_slot dir 0) 4"
    using ap j(1) unfolding j(2) tables_slot_nat tables_apart_def
    by (intro apart_parts [of _ 8 _ 8192]) auto
  have td: "apart (page_slot table k) 4 (tables_slot dir 0) 4" if "k < 1024" for k
    using ap that unfolding page_slot_nat tables_slot_nat tables_apart_def
    by (intro apart_parts [of _ 4096 _ 8192]) (auto simp: word_less_nat_alt)
  have tt: "apart (page_slot table k) 4 (page_slot table l) 4" if "k < 1024" "l < 1024" "k \<noteq> l" for k l
    using that unfolding page_slot_nat by (intro apart_elems) (auto simp: word_less_nat_alt word_unat_eq_iff)
  have k: "?k < 1024" by (rule page_index_word)
  let ?s = "upd_word (page_slot table ?k) (set_page_writeable 0 \<circ> set_page_present 0) (CLEARBIT i s)"
  have "PAGEDIR_INDEX v = 0" using v by (simp add: low_page)
  then have "free_page dir v s = Some ?s"
    using d pr(1) by (simp add: free_page_def Let_def kfree_page_frame_eq comp_def i_def)
  moreover have "?s = s\<lparr>mem := mem ?s\<rparr>" by (simp add: upd_word_def CLEARBIT_def)
  moreover have "page_present (load32 (mem ?s) (page_slot table ?k)) = 0" by (simp add: upd_word_def)
  moreover have "load32 (mem ?s) (page_slot table l) = page_entry table l s" if "l < 1024" "l \<noteq> ?k" for l
    using tt [OF k that(1)] bt [OF that(1)] that(2) by (simp add: upd_word_def CLEARBIT_def mem_simps)
  moreover have "load32 (mem ?s) (tables_slot dir 0) = table"
    using td [OF k] bd d(1) by (simp add: upd_word_def CLEARBIT_def mem_simps)
  moreover have "same_outside (unmap_region table s) (mem s) (mem ?s)"
  proof (rule same_outside_trans)
    have "unmap_region table s x" if "in_region (bucket i s) 4 x" for x
      using in_region_part [OF that [unfolded j(2)], of 8] j(1) by (simp add: unmap_region_def)
    then show "same_outside (unmap_region table s) (mem s) (mem (CLEARBIT i s))"
      by (simp add: CLEARBIT_def same_outside_store32)
    have "unmap_region table s x" if "in_region (page_slot table ?k) 4 x" for x
      using in_region_part [OF that [unfolded page_slot_nat], of 4096] k by (simp add: unmap_region_def word_less_nat_alt)
    then show "same_outside (unmap_region table s) (mem (CLEARBIT i s)) (mem ?s)"
      unfolding upd_word_def by (simp add: same_outside_store32)
  qed
  ultimately show ?thesis by metis
qed

lemma free_pages_entries:
  assumes "load32 (mem s) (tables_slot dir 0) = table" "table \<noteq> 0" "tables_apart dir table s"
    "\<And>v. v \<in> set vs \<Longrightarrow> unat v < 4194304 \<and> page_present (page_entry table (PAGETBL_INDEX v) s) \<noteq> 0
       \<and> unat (page_frame (page_entry table (PAGETBL_INDEX v) s)) < 1024"
    "distinct (map PAGETBL_INDEX vs)"
  shows "\<exists>m. run_all (free_page dir) vs s = Some (s\<lparr>mem := m\<rparr>) \<and> same_outside (unmap_region table s) (mem s) m
    \<and> (\<forall>v \<in> set vs. page_present (load32 m (page_slot table (PAGETBL_INDEX v))) = 0)
    \<and> (\<forall>k < 1024. k \<notin> PAGETBL_INDEX ` set vs \<longrightarrow> load32 m (page_slot table k) = page_entry table k s)"
  using assms
proof (induction vs arbitrary: s)
  case Nil
  have "run_all (free_page dir) [] s = Some (s\<lparr>mem := mem s\<rparr>)" by simp
  then show ?case by (intro exI [of _ "mem s"]) simp
next
  case (Cons v vs)
  obtain m1 where m1: "free_page dir v s = Some (s\<lparr>mem := m1\<rparr>)" "same_outside (unmap_region table s) (mem s) m1"
    "page_present (load32 m1 (page_slot table (PAGETBL_INDEX v))) = 0"
    "\<forall>k < 1024. k \<noteq> PAGETBL_INDEX v \<longrightarrow> load32 m1 (page_slot table k) = page_entry table k s"
    "load32 m1 (tables_slot dir 0) = table"
    using free_page_entry [of s dir table v] Cons.prems by auto
  let ?s = "s\<lparr>mem := m1\<rparr>"
  have u: "PAGETBL_INDEX v \<notin> PAGETBL_INDEX ` set vs" "distinct (map PAGETBL_INDEX vs)" using Cons.prems(5) by simp_all
  have pr: "unat w < 4194304 \<and> page_present (page_entry table (PAGETBL_INDEX w) ?s) \<noteq> 0
    \<and> unat (page_frame (page_entry table (PAGETBL_INDEX w) ?s)) < 1024" if "w \<in> set vs" for w
  proof -
    have "PAGETBL_INDEX w \<noteq> PAGETBL_INDEX v" using that u(1) by (metis image_eqI)
    then have "page_entry table (PAGETBL_INDEX w) ?s = page_entry table (PAGETBL_INDEX w) s"
      using m1(4) page_index_word(1) by simp
    then show ?thesis using Cons.prems(4) [of w] that by simp
  qed
  have prems: "load32 (mem ?s) (tables_slot dir 0) = table" "tables_apart dir table ?s"
    using m1(5) Cons.prems(3) by simp_all
  obtain m2 where m2: "run_all (free_page dir) vs ?s = Some (?s\<lparr>mem := m2\<rparr>)"
    "same_outside (unmap_region table ?s) (mem ?s) m2"
    "\<forall>w \<in> set vs. page_present (load32 m2 (page_slot table (PAGETBL_INDEX w))) = 0"
    "\<forall>k < 1024. k \<notin> PAGETBL_INDEX ` set vs \<longrightarrow> load32 m2 (page_slot table k) = page_entry table k ?s"
    using Cons.IH [OF prems(1) Cons.prems(2) prems(2) pr u(2)] by blast
  have "load32 m2 (page_slot table (PAGETBL_INDEX v)) = load32 m1 (page_slot table (PAGETBL_INDEX v))"
    using m2(4) u(1) page_index_word(1) by simp
  moreover have "same_outside (unmap_region table s) (mem s) m2"
    using same_outside_trans [OF m1(2), of m2] m2(2) by (simp add: unmap_region_def [abs_def])
  ultimately show ?case using m1 m2(1,3,4) by (intro exI [of _ m2]) simp
qed

text \<open>The pages of a region below four megabytes: the last address counts.\<close>

lemma PAGETBL_INDEX_low: "unat v < 4194304 \<Longrightarrow> unat (PAGETBL_INDEX v) = unat v div 4096"
proof -
  assume "unat v < 4194304"
  then have "unat v div 4096 < 1024" by simp
  moreover have "PAGETBL_INDEX v = take_bit 10 (drop_bit 12 v)"
    by (simp add: PAGETBL_INDEX_def take_bit_eq_mask mask_eq_exp_minus_1)
  ultimately show ?thesis by (simp add: unat_mod take_bit_eq_mod drop_bit_eq_div unat_div)
qed

lemma region_pages_low:
  assumes "unat a + n * 4096 < 4194304"
  shows "region_pages a (a + of_nat n * 0x1000) = map (\<lambda>k. a + of_nat k * 0x1000) [0 ..< n + 1]"
    "\<And>k. k \<le> n \<Longrightarrow> unat (a + of_nat k * 0x1000) = unat a + k * 4096"
    "distinct (map PAGETBL_INDEX (map (\<lambda>k. a + of_nat k * 0x1000) [0 ..< n + 1]))"
proof -
  show u: "unat (a + of_nat k * 0x1000) = unat a + k * 4096" if "k \<le> n" for k
    using unat_add_of_nat_u32 [of a "k * 4096"] that assms by simp
  have un: "unat (a + of_nat n * 0x1000) = unat a + n * 4096" by (rule u) simp
  have le: "a \<le> a + of_nat n * 0x1000" unfolding word_le_nat_alt un by simp
  show "region_pages a (a + of_nat n * 0x1000) = map (\<lambda>k. a + of_nat k * 0x1000) [0 ..< n + 1]"
    unfolding region_pages_def un if_P [OF le] by (simp del: upt_Suc)
  have i: "unat (PAGETBL_INDEX (a + of_nat k * 0x1000)) = unat a div 4096 + k" if "k \<le> n" for k
    using u [OF that] that assms by (subst PAGETBL_INDEX_low) simp_all
  have "inj_on (\<lambda>k. PAGETBL_INDEX (a + of_nat k * 0x1000)) {0 ..< n + 1}"
  proof (rule inj_onI)
    fix j k
    assume "j \<in> {0 ..< n + 1}" "k \<in> {0 ..< n + 1}"
      and eq: "PAGETBL_INDEX (a + of_nat j * 0x1000) = PAGETBL_INDEX (a + of_nat k * 0x1000)"
    then have "j \<le> n" "k \<le> n" by simp_all
    from i [OF this(1)] i [OF this(2)] have "unat a div 4096 + j = unat a div 4096 + k" unfolding eq by (rule trans [OF sym])
    then show "j = k" by simp
  qed
  then show "distinct (map PAGETBL_INDEX (map (\<lambda>k. a + of_nat k * 0x1000) [0 ..< n + 1]))"
    by (simp add: distinct_map comp_def del: upt_Suc)
qed

text \<open>The pages of a region that does not start at a page boundary.\<close>

lemma page_floor: "unat ((a :: u32) AND 0xFFFFF000) = unat a div 4096 * 4096"
proof -
  have "unat ((a AND 0xFFFFF000) + (a AND 0xFFF)) = unat a" by (simp add: page_mask)
  moreover have "unat (a AND 0xFFF) = unat a mod 4096" by (simp add: page_offset)
  moreover have "unat (a AND 0xFFFFF000) = unat a - unat (a AND 0xFFF)"
    using word_and_le2 [of a "0xFFF"] by (simp add: page_mask unat_minus_u32)
  ultimately show ?thesis by (simp add: minus_mod_eq_div_mult)
qed

definition unmapped_by :: "u32 \<Rightarrow> u32 \<Rightarrow> u32 \<Rightarrow> bool" where
  "unmapped_by ptr pages v \<longleftrightarrow> unat ptr div 4096 \<le> unat v div 4096 \<and> unat v div 4096 \<le> unat ptr div 4096 + unat pages"

lemma tables_apart_dir:
  assumes "tables_apart dir table s" "same_outside (unmap_region table s) (mem s) m" "j + 4 \<le> 8192"
  shows "load32 m (dir + of_nat j) = load32 (mem s) (dir + of_nat j)"
proof (rule same_outside_load32 [OF assms(2)])
  fix i :: nat
  assume "i < 4"
  then have "j + i < 8192" using assms(3) by simp
  moreover have "apart (stray_words s) 8 dir 8192" "apart table 4096 dir 8192"
    using assms(1) by (simp_all add: tables_apart_def)
  ultimately have "\<not> in_region (stray_words s) 8 (dir + of_nat (j + i))" "\<not> in_region table 4096 (dir + of_nat (j + i))"
    using apart_not_in_region by blast+
  then show "\<not> unmap_region table s (dir + of_nat j + of_nat i)" by (simp add: unmap_region_def add.assoc)
qed

text \<open>The processor's view when the entries of some pages of the identity map are gone.\<close>

lemma unmapped_walk:
  assumes i: "identity_map d table m0"
    and dir: "\<And>k. k < 1024 \<Longrightarrow> load32 m (physical_slot d k) = load32 m0 (physical_slot d k)"
    and gone: "\<And>k. q \<le> unat k \<Longrightarrow> unat k \<le> q + n \<Longrightarrow> page_present (load32 m (page_slot table k)) = 0"
    and kept: "\<And>k. k < 1024 \<Longrightarrow> \<not> (q \<le> unat k \<and> unat k \<le> q + n) \<Longrightarrow> load32 m (page_slot table k) = load32 m0 (page_slot table k)"
  shows "mmu_walk m (physical_slot d 0) v
    = (if (q \<le> unat v div 4096 \<and> unat v div 4096 \<le> q + n) \<or> 0x400000 \<le> v then None else Some v)"
proof (cases "unat v < 4194304")
  case True
  have z: "PAGEDIR_INDEX v = 0" using True by (simp add: low_page)
  have k: "PAGETBL_INDEX v < 1024" "unat (PAGETBL_INDEX v) = unat v div 4096"
    using page_index_word(1) PAGETBL_INDEX_low [OF True] by auto
  note walk = mmu_walk_entry [of d table]
  show ?thesis
    using i True gone [of "PAGETBL_INDEX v"] kept [OF k(1)] walk [of m v] walk [of m0 v]
      identity_map_walk [OF i, of v] dir [of 0]
    by (auto simp: identity_map_def z Let_def k(2) word_le_nat_alt split: if_splits)
next
  case False
  then have "PAGEDIR_INDEX v \<noteq> 0" by (simp add: low_page)
  then have "load32 m0 (physical_slot d (PAGEDIR_INDEX v)) = 0"
    using i page_index_word by (simp add: identity_map_def word_gt_0)
  then show ?thesis
    using i False dir [OF page_index_word(2), of v]
    by (simp add: identity_map_def mmu_walk_def physical_slot_walk word_le_nat_alt)
qed

lemma liballoc_free_effect:
  assumes "identity_map (kernel_dir s) table (mem s)" "tables_apart (kernel_dir s) table s"
    "unat ptr + unat pages * 4096 < 4194304"
  shows "\<exists>m. liballoc_free ptr pages s = Some (1, s\<lparr>mem := m\<rparr>) \<and> same_outside (unmap_region table s) (mem s) m
    \<and> mmu_walk m (physical_slot (kernel_dir s) 0) = (\<lambda>v. if unmapped_by ptr pages v \<or> 0x400000 \<le> v then None else Some v)"
proof -
  let ?start = "ptr AND 0xFFFFF000" and ?stop = "(ptr + pages * 0x1000) AND 0xFFFFF000"
  let ?q = "unat ptr div 4096"
  have m: "unat (pages * 0x1000) = unat pages * 4096" using assms(3) by (subst unat_mult_u32) simp_all
  have b: "unat ?start = ?q * 4096" by (rule page_floor)
  have fit: "unat ?start + unat pages * 4096 < 4194304"
    unfolding b using assms(3) div_mult_mod_eq [of "unat ptr" 4096] by linarith
  have "unat (ptr + pages * 0x1000) = unat ptr + unat pages * 4096" using assms(3) m by (subst unat_plus_u32) simp_all
  then have "unat ?stop = (unat ptr + unat pages * 4096) div 4096 * 4096" by (simp only: page_floor)
  then have e: "unat ?stop = ?q * 4096 + unat pages * 4096" by simp
  note low = region_pages_low [OF fit]
  have last: "unat (?start + of_nat (unat pages) * 0x1000) = ?q * 4096 + unat pages * 4096"
    using low(2) [OF order_refl] unfolding b .
  have stop: "?stop = ?start + of_nat (unat pages) * 0x1000" unfolding word_unat_eq_iff last e ..
  have nz: "?stop \<noteq> 0xFFFFF000"
  proof
    assume "?stop = 0xFFFFF000"
    then have "unat ?stop = 4294963200" by simp
    then show False using e b fit by simp
  qed
  let ?vs = "region_pages ?start ?stop"
  have vs: "?vs = map (\<lambda>k. ?start + of_nat k * 0x1000) [0 ..< unat pages + 1]" unfolding stop by (rule low(1))
  have d: "distinct (map PAGETBL_INDEX ?vs)" unfolding vs by (rule low(3))
  have entry: "page_present (page_entry table k s) = 1" "unat (page_frame (page_entry table k s)) < 1024" if "k < 1024" for k
  proof -
    have "identity_pte k (page_entry table k s)" using assms(1) that by (simp add: identity_map_def)
    then show "page_present (page_entry table k s) = 1" "unat (page_frame (page_entry table k s)) < 1024"
      using word_and_le2 [of k "mask 20"] that by (simp_all add: identity_pte_def word_le_nat_alt word_less_nat_alt)
  qed
  have v: "unat w < 4194304 \<and> page_present (page_entry table (PAGETBL_INDEX w) s) \<noteq> 0
    \<and> unat (page_frame (page_entry table (PAGETBL_INDEX w) s)) < 1024" if "w \<in> set ?vs" for w
    using region_pages_bound [OF that] e b fit entry [OF page_index_word(1) [of w]] by simp
  have t: "load32 (mem s) (tables_slot (kernel_dir s) 0) = table" "table \<noteq> 0"
    using assms(1) by (simp_all add: identity_map_def)
  obtain m where m: "run_all (free_page (kernel_dir s)) ?vs s = Some (s\<lparr>mem := m\<rparr>)"
    "same_outside (unmap_region table s) (mem s) m"
    "\<forall>w \<in> set ?vs. page_present (load32 m (page_slot table (PAGETBL_INDEX w))) = 0"
    "\<forall>k < 1024. k \<notin> PAGETBL_INDEX ` set ?vs \<longrightarrow> load32 m (page_slot table k) = page_entry table k s"
    using free_pages_entries [OF t assms(2) v d] by blast
  have index: "unat (PAGETBL_INDEX (?start + of_nat k * 0x1000)) = ?q + k" if "k \<le> unat pages" for k
    using low(2) [OF that] that fit by (subst PAGETBL_INDEX_low) (simp_all add: b)
  have gone: "page_present (load32 m (page_slot table k)) = 0" if k: "?q \<le> unat k" "unat k \<le> ?q + unat pages" for k
  proof -
    let ?w = "?start + of_nat (unat k - ?q) * 0x1000"
    have j: "unat k - ?q \<le> unat pages" using k by linarith
    then have "unat k - ?q \<in> set [0 ..< unat pages + 1]" by (simp add: less_Suc_eq_le del: upt_Suc)
    then have w: "?w \<in> set ?vs" unfolding vs set_map by (rule imageI)
    have "unat (PAGETBL_INDEX ?w) = unat k" unfolding index [OF j] using k by simp
    then have e: "PAGETBL_INDEX ?w = k" by (simp only: word_unat_eq_iff)
    show ?thesis using bspec [OF m(3) w] unfolding e .
  qed
  have kept: "load32 m (page_slot table k) = page_entry table k s"
    if k: "k < 1024" "\<not> (?q \<le> unat k \<and> unat k \<le> ?q + unat pages)" for k
  proof -
    have "k \<notin> PAGETBL_INDEX ` set ?vs"
    proof
      assume "k \<in> PAGETBL_INDEX ` set ?vs"
      then obtain j where "j \<le> unat pages" "k = PAGETBL_INDEX (?start + of_nat j * 0x1000)"
        unfolding vs by (auto simp: less_Suc_eq_le simp del: upt_Suc)
      then show False using index [of j] k(2) by simp
    qed
    then show ?thesis using m(4) k(1) by blast
  qed
  have dir: "load32 m (physical_slot (kernel_dir s) k) = load32 (mem s) (physical_slot (kernel_dir s) k)" if "k < 1024" for k
    using tables_apart_dir [OF assms(2) m(2), of "4096 + unat k * 4"] that
    by (simp add: physical_slot_nat word_less_nat_alt)
  have "mmu_walk m (physical_slot (kernel_dir s) 0) v = (if unmapped_by ptr pages v \<or> 0x400000 \<le> v then None else Some v)" for v
    using unmapped_walk [OF assms(1) dir gone kept, where v = v] by (simp add: unmapped_by_def)
  then have "mmu_walk m (physical_slot (kernel_dir s) 0) = (\<lambda>v. if unmapped_by ptr pages v \<or> 0x400000 \<le> v then None else Some v)"
    by (rule ext)
  moreover have "liballoc_free ptr pages s = Some (1, s\<lparr>mem := m\<rparr>)"
    unfolding liballoc_free_def free_region_def Let_def region_loop if_not_P [OF nz] m(1) by simp
  ultimately show ?thesis using m(2) by blast
qed

section \<open>Properties\<close>

text \<open>
  A request that fits below the heap's end and below four megabytes, with paging on, returns
  the pages at the break, raises the break by exactly their size and changes nothing else, so
  the pages of two requests in a row never meet.
\<close>

theorem liballoc_alloc_bumps:
  assumes "page_room pages s" "page_room more_pages (s\<lparr>heap_cur := heap_cur s + pages * 0x1000\<rparr>)"
  shows "\<exists>s' s''. liballoc_alloc pages s = Some (heap_cur s, s')
    \<and> liballoc_alloc more_pages s' = Some (heap_cur s', s'')
    \<and> unat (heap_cur s') = unat (heap_cur s) + unat pages * 4096
    \<and> unat (heap_cur s'') = unat (heap_cur s') + unat more_pages * 4096
    \<and> s'' = s\<lparr>heap_cur := heap_cur s''\<rparr>"
  using liballoc_alloc_room [OF assms(1)] liballoc_alloc_room [OF assms(2)] by simp

definition paged_rise :: rise where
  "paged_rise = vmm.extend (the (paging_init boot_vmm)) \<lparr>heap_lock = 0\<rparr>"

lemma paged_rise_map:
  "kernel_dir paged_rise = 0x135000" "identity_map 0x135000 0x137000 (mem paged_rise)"
proof -
  have p: "page_up 0x135000 = 0x135000" by (simp add: page_up_def)
  from paging_init_result [OF boot_vmm_live] obtain s' where s': "paging_init boot_vmm = Some s'"
    "kernel_dir s' = 0x135000" "identity_map (kernel_dir s') (kernel_dir s' + 0x2000) (mem s')" by (auto simp: p)
  then show "kernel_dir paged_rise = 0x135000" "identity_map 0x135000 0x137000 (mem paged_rise)"
    by (simp_all add: paged_rise_def vmm.defs)
qed

lemma paged_rise_room: "page_room 16 paged_rise" "heap_cur paged_rise = 0x138400"
  "page_room 16 (paged_rise\<lparr>heap_cur := 0x148400\<rparr>)"
proof -
  have p: "page_up 0x135000 = 0x135000" by (simp add: page_up_def)
  from paging_init_result [OF boot_vmm_live] obtain s' where s': "paging_init boot_vmm = Some s'"
    "kernel_dir s' = 0x135000" "heap_cur s' = 0x138400" "heap_end s' = 0x538400"
    "identity_map (kernel_dir s') (kernel_dir s' + 0x2000) (mem s')" by (auto simp: p)
  then have f: "kernel_dir paged_rise = kernel_dir s'" "mem paged_rise = mem s'"
    "heap_cur paged_rise = 0x138400" "heap_end paged_rise = 0x538400"
    by (simp_all add: paged_rise_def vmm.defs)
  then have i: "\<exists>table. identity_map (kernel_dir paged_rise) table (mem paged_rise)" using s'(5) by metis
  show "page_room 16 paged_rise" "heap_cur paged_rise = 0x138400"
    "page_room 16 (paged_rise\<lparr>heap_cur := 0x148400\<rparr>)"
    using f i by (simp_all add: page_room_def low_heap_def)
qed

theorem liballoc_alloc_bumps_witness:
  "\<exists>s' s''. liballoc_alloc 16 paged_rise = Some (0x138400, s') \<and> liballoc_alloc 16 s' = Some (0x148400, s'')"
  using liballoc_alloc_bumps [of 16 paged_rise 16] paged_rise_room liballoc_alloc_room [OF paged_rise_room(1)]
  by auto

text \<open>
  Before paging is initialised, with the heap's bounds still zero, every request of fewer
  than 2 GB of pages is refused with a message on the serial line, and the state is otherwise unchanged.
\<close>

lemma liballoc_alloc_before_init:
  assumes "tx_live s" "heap_cur s = 0" "heap_end s = 0" "pages < 0x80000"
  shows "\<exists>n. liballoc_alloc pages s = Some (0, s\<lparr>io := io s @ map (Outb PORT)
     (map of_char (''Out of memory: You need a bigger heap pal'' @ [CHR 0x0A])), in_count := n\<rparr>)"
proof -
  let ?m = "''Out of memory: You need a bigger heap pal'' @ [CHR 0x0A]"
  have p: "unat pages < 524288" using assms(4) by (simp add: word_less_nat_alt)
  have "unat (pages * 0x1000) = unat pages * 4096" using p by (subst unat_mult_u32) simp_all
  then have "0 \<le> sint (pages * 0x1000)" using p by (simp add: sint_nonneg_iff)
  then have r: "liballoc_alloc pages s = map_option (Pair 0) (qemu_printf ?m [] s)"
    using assms(2,3) by (simp add: liballoc_alloc_def)
  have "CHR ''%'' \<notin> set ?m" by simp
  from qemu_printf_message [OF assms(1) this, of "[]"] show ?thesis
    unfolding r printed_def by (elim exE conjE) (simp, blast)
qed

text \<open>
  Giving back pages below four megabytes returns 1, and the processor can then reach every page
  but those from the one with the first byte to the one with the byte behind the last.  So it also unmaps the
  page behind them, and, since the break is not at a page boundary, the page they share with the
  region in front: both belong to the regions next to it.
\<close>

theorem liballoc_free_unmaps_neighbour:
  assumes "identity_map (kernel_dir s) table (mem s)" "tables_apart (kernel_dir s) table s"
    "unat ptr + unat pages * 4096 < 4194304"
  shows "\<exists>m. liballoc_free ptr pages s = Some (1, s\<lparr>mem := m\<rparr>) \<and> same_outside (unmap_region table s) (mem s) m
    \<and> mmu_walk m (physical_slot (kernel_dir s) 0) = (\<lambda>v. if unmapped_by ptr pages v \<or> 0x400000 \<le> v then None else Some v)"
  by (rule liballoc_free_effect [OF assms])

text \<open>The first region of the heap after boot, given back.\<close>

lemma paged_rise_apart: "tables_apart 0x135000 0x137000 paged_rise"
proof -
  have p: "page_up 0x135000 = 0x135000" by (simp add: page_up_def)
  from paging_init_result [OF boot_vmm_live] obtain s' where s': "paging_init boot_vmm = Some s'"
    "placementaddr s' = 0x138400" "bitmap_addr s' = 0x110000" by (auto simp: p)
  then have "placementaddr paged_rise = 0x138400" "bitmap_addr paged_rise = 0x110000"
    by (simp_all add: paged_rise_def vmm.defs)
  then show ?thesis by (simp add: tables_apart_def stray_words_def stray_offset_def apart_def)
qed

theorem liballoc_free_unmaps_neighbour_witness:
  "\<exists>s'. liballoc_free 0x138400 16 paged_rise = Some (1, s')
    \<and> mmu_walk (mem s') 0x136000 0x138000 = None \<and> mmu_walk (mem s') 0x136000 0x148FFF = None
    \<and> mmu_walk (mem s') 0x136000 0x149000 = Some 0x149000"
proof -
  have "physical_slot (kernel_dir paged_rise) 0 = 0x136000" by (simp add: paged_rise_map physical_slot_def)
  moreover have "\<exists>m. liballoc_free 0x138400 16 paged_rise = Some (1, paged_rise\<lparr>mem := m\<rparr>)
    \<and> same_outside (unmap_region 0x137000 paged_rise) (mem paged_rise) m
    \<and> mmu_walk m (physical_slot (kernel_dir paged_rise) 0)
        = (\<lambda>v. if unmapped_by 0x138400 16 v \<or> 0x400000 \<le> v then None else Some v)"
    using paged_rise_map paged_rise_apart by (intro liballoc_free_unmaps_neighbour) simp_all
  ultimately show ?thesis by (auto simp: unmapped_by_def)
qed

definition boot_rise :: rise where
  "boot_rise = vmm.extend boot_vmm \<lparr>heap_lock = 0\<rparr>"

lemma boot_rise_live: "tx_live boot_rise"
  using boot_vmm_live by (simp add: boot_rise_def tx_live_def tx_ready_def vmm.defs)

end
