(* ===== verification/Liballoc.thy ===== *)
theory Liballoc
  imports Rise
begin

text \<open>
  The kernel's allocator, \<^verbatim>\<open>kernel/kernel/liballoc.c\<close> and \<^verbatim>\<open>liballoc.h\<close>: boundary tags in the flat
  memory in front of every block, one list of free tags per power of two, splitting on \<^verbatim>\<open>malloc\<close>
  and coalescing on \<^verbatim>\<open>free\<close>.

  A tag is the 32 bytes of \<^verbatim>\<open>struct boundary_tag\<close> at an address; \<open>tag_get\<close> and \<open>tag_put\<close> read and
  write one of its fields.  The two tables are functions of the index; an access outside their
  32 entries has no defined result.  The four hooks that the file leaves to the system are
  parameters of the operations that call them; \<open>kmalloc\<close> and its companions are the operations
  on the kernel's own hooks.  The code under \<^verbatim>\<open>DEBUG\<close> is not compiled and not modelled.

  This theory holds the operations, and lemmas on the parts that need no invariant of the heap:
  size classes, the block copy and what each list operation does to the fields.
\<close>

datatype tag_field = Magic | Size | Real_size | Index | Split_left | Split_right | Next | Prev

fun field_offset :: "tag_field \<Rightarrow> u32" where
  "field_offset Magic = 0"
| "field_offset Size = 4"
| "field_offset Real_size = 8"
| "field_offset Index = 12"
| "field_offset Split_left = 16"
| "field_offset Split_right = 20"
| "field_offset Next = 24"
| "field_offset Prev = 28"

abbreviation sizeof_tag :: u32 where "sizeof_tag \<equiv> 32"
abbreviation LIBALLOC_MAGIC :: u32 where "LIBALLOC_MAGIC \<equiv> 0xc001c0de"
abbreviation MAXCOMPLETE :: u32 where "MAXCOMPLETE \<equiv> 5"
abbreviation MAXEXP :: nat where "MAXEXP \<equiv> 32"
abbreviation MINEXP :: nat where "MINEXP \<equiv> 8"
abbreviation l_pageSize :: u32 where "l_pageSize \<equiv> 4096"
abbreviation l_pageCount :: u32 where "l_pageCount \<equiv> 16"

record liballoc = rise +
  l_freePages :: "nat \<Rightarrow> u32"
  l_completePages :: "nat \<Rightarrow> u32"
  l_initialized :: u32

definition tag_get :: "tag_field \<Rightarrow> u32 \<Rightarrow> 'a machine_scheme \<Rightarrow> u32" where
  "tag_get f t s = load32 (mem s) (t + field_offset f)"

definition tag_put :: "tag_field \<Rightarrow> u32 \<Rightarrow> u32 \<Rightarrow> 'a machine_scheme \<Rightarrow> 'a machine_scheme" where
  "tag_put f t v s = s\<lparr>mem := store32 (mem s) (t + field_offset f) v\<rparr>"

section \<open>Helper functions\<close>

function getexp_from :: "nat \<Rightarrow> u32 \<Rightarrow> nat" where
  "getexp_from shift n =
     (if shift < MAXEXP then (if n < push_bit shift 1 then shift else getexp_from (shift + 1) n) else shift)"
  by pat_completeness auto
termination by (relation "measure (\<lambda>(shift, n). MAXEXP - shift)") auto

declare getexp_from.simps [simp del]

definition getexp :: "u32 \<Rightarrow> int" where
  "getexp n = (if n < push_bit MINEXP 1 then - 1 else int (getexp_from MINEXP n) - 1)"

definition liballoc_memset :: "u32 \<Rightarrow> u32 \<Rightarrow> u32 \<Rightarrow> memory \<Rightarrow> memory" where
  "liballoc_memset p c n m = for_loop 0 n (\<lambda>i m. m(p + i := ucast c)) m"

text \<open>The two loops of \<^verbatim>\<open>liballoc_memcpy\<close>: whole words, then the remaining bytes.\<close>

function copy_words :: "u32 \<Rightarrow> u32 \<Rightarrow> u32 \<Rightarrow> memory \<Rightarrow> u32 \<times> u32 \<times> u32 \<times> memory" where
  "copy_words d c n m =
     (if n \<ge> 4 then copy_words (d + 4) (c + 4) (n - 4) (store32 m d (load32 m c)) else (d, c, n, m))"
  by pat_completeness auto
termination
  by (relation "measure (\<lambda>(d, c, n, m). unat n)") (auto simp: unat_minus_u32 word_le_nat_alt)

function copy_bytes :: "u32 \<Rightarrow> u32 \<Rightarrow> u32 \<Rightarrow> memory \<Rightarrow> memory" where
  "copy_bytes d c n m = (if n > 0 then copy_bytes (d + 1) (c + 1) (n - 1) (m(d := m c)) else m)"
  by pat_completeness auto
termination
  by (relation "measure (\<lambda>(d, c, n, m). unat n)") (auto simp: unat_minus_one unat_gt_0)

declare copy_words.simps [simp del] copy_bytes.simps [simp del]

definition liballoc_memcpy :: "u32 \<Rightarrow> u32 \<Rightarrow> u32 \<Rightarrow> memory \<Rightarrow> memory" where
  "liballoc_memcpy s1 s2 n m = (case copy_words s1 s2 n m of (d, c, n, m) \<Rightarrow> copy_bytes d c n m)"

section \<open>Tags and lists\<close>

definition insert_tag :: "u32 \<Rightarrow> int \<Rightarrow> 'a liballoc_scheme \<Rightarrow> 'a liballoc_scheme option" where
  "insert_tag tag index s =
     (let realIndex = (if index < 0
                       then max (getexp (tag_get Real_size tag s - sizeof_tag)) (int MINEXP) else index);
          s = tag_put Index tag (of_int realIndex) s
      in if realIndex < int MAXEXP then
           let i = nat realIndex;
               s = (if l_freePages s i \<noteq> 0
                    then tag_put Next tag (l_freePages s i) (tag_put Prev (l_freePages s i) tag s) else s)
           in Some (s\<lparr>l_freePages := (l_freePages s)(i := tag)\<rparr>)
         else None)"

definition remove_tag :: "u32 \<Rightarrow> 'a liballoc_scheme \<Rightarrow> 'a liballoc_scheme option" where
  "remove_tag tag s =
     (let index = sint (tag_get Index tag s)
      in if 0 \<le> index \<and> index < int MAXEXP then
           let i = nat index;
               s = (if l_freePages s i = tag
                    then s\<lparr>l_freePages := (l_freePages s)(i := tag_get Next tag s)\<rparr> else s);
               s = (if tag_get Prev tag s \<noteq> 0 then tag_put Next (tag_get Prev tag s) (tag_get Next tag s) s else s);
               s = (if tag_get Next tag s \<noteq> 0 then tag_put Prev (tag_get Next tag s) (tag_get Prev tag s) s else s);
               s = tag_put Next tag 0 s;
               s = tag_put Prev tag 0 s
           in Some (tag_put Index tag (- 1) s)
         else None)"

definition melt_left :: "u32 \<Rightarrow> 'a liballoc_scheme \<Rightarrow> u32 \<times> 'a liballoc_scheme" where
  "melt_left tag s =
     (let left = tag_get Split_left tag s;
          s = tag_put Real_size left (tag_get Real_size left s + tag_get Real_size tag s) s;
          s = tag_put Split_right left (tag_get Split_right tag s) s;
          s = (if tag_get Split_right tag s \<noteq> 0
               then tag_put Split_left (tag_get Split_right tag s) left s else s)
      in (left, s))"

definition absorb_right :: "u32 \<Rightarrow> 'a liballoc_scheme \<Rightarrow> (u32 \<times> 'a liballoc_scheme) option" where
  "absorb_right tag s =
     do {
       let right = tag_get Split_right tag s;
       s \<leftarrow> remove_tag right s;
       let s = tag_put Real_size tag (tag_get Real_size tag s + tag_get Real_size right s) s;
       let s = tag_put Split_right tag (tag_get Split_right right s) s;
       let s = (if tag_get Split_right right s \<noteq> 0
                then tag_put Split_left (tag_get Split_right right s) tag s else s);
       Some (tag, s)
     }"

definition split_tag :: "u32 \<Rightarrow> 'a liballoc_scheme \<Rightarrow> (u32 \<times> 'a liballoc_scheme) option" where
  "split_tag tag s =
     do {
       let remainder = tag_get Real_size tag s - sizeof_tag - tag_get Size tag s;
       let new_tag = tag + sizeof_tag + tag_get Size tag s;
       let s = tag_put Magic new_tag LIBALLOC_MAGIC s;
       let s = tag_put Real_size new_tag remainder s;
       let s = tag_put Next new_tag 0 s;
       let s = tag_put Prev new_tag 0 s;
       let s = tag_put Split_left new_tag tag s;
       let s = tag_put Split_right new_tag (tag_get Split_right tag s) s;
       let s = (if tag_get Split_right new_tag s \<noteq> 0
                then tag_put Split_left (tag_get Split_right new_tag s) new_tag s else s);
       let s = tag_put Split_right tag new_tag s;
       let s = tag_put Real_size tag (tag_get Real_size tag s - tag_get Real_size new_tag s) s;
       s \<leftarrow> insert_tag new_tag (- 1) s;
       Some (new_tag, s)
     }"

definition allocate_new_tag ::
  "(u32 \<Rightarrow> 'a liballoc_scheme \<Rightarrow> (u32 \<times> 'a liballoc_scheme) option) \<Rightarrow> u32 \<Rightarrow>
   'a liballoc_scheme \<Rightarrow> (u32 \<times> 'a liballoc_scheme) option" where
  "allocate_new_tag alloc n s =
     do {
       let usage = n + sizeof_tag;
       let pages = usage div l_pageSize;
       let pages = (if usage mod l_pageSize \<noteq> 0 then pages + 1 else pages);
       let pages = (if pages < l_pageCount then l_pageCount else pages);
       (tag, s) \<leftarrow> alloc pages s;
       if tag = 0 then Some (0, s)
       else do {
         let s = tag_put Magic tag LIBALLOC_MAGIC s;
         let s = tag_put Size tag n s;
         let s = tag_put Real_size tag (pages * l_pageSize) s;
         let s = tag_put Index tag (- 1) s;
         let s = tag_put Next tag 0 s;
         let s = tag_put Prev tag 0 s;
         let s = tag_put Split_left tag 0 s;
         let s = tag_put Split_right tag 0 s;
         Some (tag, s)
       }
     }"

section \<open>Allocation and release\<close>

text \<open>The search for a tag with room for the request and one more tag.\<close>

partial_function (option) find_tag :: "u32 \<Rightarrow> u32 \<Rightarrow> 'a machine_scheme \<Rightarrow> u32 option" where
  "find_tag n tag s =
     (if tag \<noteq> 0 then
        (if tag_get Real_size tag s - sizeof_tag \<ge> n + sizeof_tag then Some tag
         else find_tag n (tag_get Next tag s) s)
      else Some 0)"

definition split_excess :: "u32 \<Rightarrow> u32 \<Rightarrow> 'a liballoc_scheme \<Rightarrow> 'a liballoc_scheme option" where
  "split_excess tag n s =
     (let remainder = tag_get Real_size tag s - n - sizeof_tag * 2
      in if sint remainder > 0 \<and> getexp remainder \<ge> 0 then map_option snd (split_tag tag s) else Some s)"

definition malloc ::
  "('a liballoc_scheme \<Rightarrow> 'a liballoc_scheme option) \<Rightarrow> ('a liballoc_scheme \<Rightarrow> 'a liballoc_scheme) \<Rightarrow>
   (u32 \<Rightarrow> 'a liballoc_scheme \<Rightarrow> (u32 \<times> 'a liballoc_scheme) option) \<Rightarrow>
   u32 \<Rightarrow> 'a liballoc_scheme \<Rightarrow> (u32 \<times> 'a liballoc_scheme) option" where
  "malloc lock unlock alloc n s =
     do {
       s \<leftarrow> lock s;
       let s = (if l_initialized s = 0
                then s\<lparr>l_freePages := (\<lambda>_. 0), l_completePages := (\<lambda>_. 0), l_initialized := 1\<rparr> else s);
       let index = nat (max (getexp n) (int MINEXP));
       found \<leftarrow> find_tag n (l_freePages s index) s;
       (tag, s) \<leftarrow>
         (if found = 0 then allocate_new_tag alloc n s
          else do {
            s \<leftarrow> remove_tag found s;
            Some (found,
              if tag_get Split_left found s = 0 \<and> tag_get Split_right found s = 0
              then s\<lparr>l_completePages := (l_completePages s)(index := l_completePages s index - 1)\<rparr> else s)
          });
       if tag = 0 then Some (0, unlock s)
       else do {
         let s = tag_put Size tag n s;
         s \<leftarrow> split_excess tag n s;
         Some (tag + sizeof_tag, unlock s)
       }
     }"

text \<open>\<^verbatim>\<open>MELT LEFT\<close> and \<^verbatim>\<open>MELT RIGHT\<close>\<close>

partial_function (option) melt_loop :: "u32 \<Rightarrow> 'a liballoc_scheme \<Rightarrow> (u32 \<times> 'a liballoc_scheme) option" where
  "melt_loop tag s =
     (if tag_get Split_left tag s \<noteq> 0 \<and> sint (tag_get Index (tag_get Split_left tag s) s) \<ge> 0
      then case melt_left tag s of (tag, s) \<Rightarrow> Option.bind (remove_tag tag s) (melt_loop tag)
      else Some (tag, s))"

partial_function (option) absorb_loop :: "u32 \<Rightarrow> 'a liballoc_scheme \<Rightarrow> (u32 \<times> 'a liballoc_scheme) option" where
  "absorb_loop tag s =
     (if tag_get Split_right tag s \<noteq> 0 \<and> sint (tag_get Index (tag_get Split_right tag s) s) \<ge> 0
      then Option.bind (absorb_right tag s) (\<lambda>(tag, s). absorb_loop tag s)
      else Some (tag, s))"

definition free ::
  "('a liballoc_scheme \<Rightarrow> 'a liballoc_scheme option) \<Rightarrow> ('a liballoc_scheme \<Rightarrow> 'a liballoc_scheme) \<Rightarrow>
   (u32 \<Rightarrow> u32 \<Rightarrow> 'a liballoc_scheme \<Rightarrow> (u32 \<times> 'a liballoc_scheme) option) \<Rightarrow>
   u32 \<Rightarrow> 'a liballoc_scheme \<Rightarrow> 'a liballoc_scheme option" where
  "free lock unlock dealloc ptr s =
     (if ptr = 0 then Some s
      else do {
        s \<leftarrow> lock s;
        let tag = ptr - sizeof_tag;
        if tag_get Magic tag s \<noteq> LIBALLOC_MAGIC then Some (unlock s)
        else do {
          (tag, s) \<leftarrow> melt_loop tag s;
          (tag, s) \<leftarrow> absorb_loop tag s;
          let index = max (getexp (tag_get Real_size tag s - sizeof_tag)) (int MINEXP);
          let i = nat index;
          if tag_get Split_left tag s = 0 \<and> tag_get Split_right tag s = 0 \<and> l_completePages s i = MAXCOMPLETE
          then do {
            let pages = tag_get Real_size tag s div l_pageSize;
            let pages = (if tag_get Real_size tag s mod l_pageSize \<noteq> 0 then pages + 1 else pages);
            let pages = (if pages < l_pageCount then l_pageCount else pages);
            (_, s) \<leftarrow> dealloc tag pages s;
            Some (unlock s)
          }
          else do {
            let s = (if tag_get Split_left tag s = 0 \<and> tag_get Split_right tag s = 0
                     then s\<lparr>l_completePages := (l_completePages s)(i := l_completePages s i + 1)\<rparr> else s);
            s \<leftarrow> insert_tag tag index s;
            Some (unlock s)
          }
        }
      })"

definition calloc ::
  "('a liballoc_scheme \<Rightarrow> 'a liballoc_scheme option) \<Rightarrow> ('a liballoc_scheme \<Rightarrow> 'a liballoc_scheme) \<Rightarrow>
   (u32 \<Rightarrow> 'a liballoc_scheme \<Rightarrow> (u32 \<times> 'a liballoc_scheme) option) \<Rightarrow>
   u32 \<Rightarrow> u32 \<Rightarrow> 'a liballoc_scheme \<Rightarrow> (u32 \<times> 'a liballoc_scheme) option" where
  "calloc lock unlock alloc nobj n s =
     do {
       let real_size = nobj * n;
       (p, s) \<leftarrow> malloc lock unlock alloc real_size s;
       Some (p, s\<lparr>mem := liballoc_memset p 0 real_size (mem s)\<rparr>)
     }"

definition realloc ::
  "('a liballoc_scheme \<Rightarrow> 'a liballoc_scheme option) \<Rightarrow> ('a liballoc_scheme \<Rightarrow> 'a liballoc_scheme) \<Rightarrow>
   (u32 \<Rightarrow> 'a liballoc_scheme \<Rightarrow> (u32 \<times> 'a liballoc_scheme) option) \<Rightarrow>
   (u32 \<Rightarrow> u32 \<Rightarrow> 'a liballoc_scheme \<Rightarrow> (u32 \<times> 'a liballoc_scheme) option) \<Rightarrow>
   u32 \<Rightarrow> u32 \<Rightarrow> 'a liballoc_scheme \<Rightarrow> (u32 \<times> 'a liballoc_scheme) option" where
  "realloc lock unlock alloc dealloc p n s =
     (if n = 0 then map_option (Pair 0) (free lock unlock dealloc p s)
      else if p = 0 then malloc lock unlock alloc n s
      else do {
        s \<leftarrow> lock s;
        let tag = p - sizeof_tag;
        let real_size = tag_get Size tag s;
        let s = unlock s;
        let real_size = (if real_size > n then n else real_size);
        (ptr, s) \<leftarrow> malloc lock unlock alloc n s;
        let s = s\<lparr>mem := liballoc_memcpy ptr p real_size (mem s)\<rparr>;
        s \<leftarrow> free lock unlock dealloc p s;
        Some (ptr, s)
      })"

text \<open>The allocator on the hooks of \<^verbatim>\<open>rise.c\<close>, as the kernel links it.\<close>

definition kmalloc :: "u32 \<Rightarrow> 'a liballoc_scheme \<Rightarrow> (u32 \<times> 'a liballoc_scheme) option" where
  "kmalloc = malloc liballoc_lock liballoc_unlock liballoc_alloc"

definition kfree :: "u32 \<Rightarrow> 'a liballoc_scheme \<Rightarrow> 'a liballoc_scheme option" where
  "kfree = free liballoc_lock liballoc_unlock liballoc_free"

definition kcalloc :: "u32 \<Rightarrow> u32 \<Rightarrow> 'a liballoc_scheme \<Rightarrow> (u32 \<times> 'a liballoc_scheme) option" where
  "kcalloc = calloc liballoc_lock liballoc_unlock liballoc_alloc"

definition krealloc :: "u32 \<Rightarrow> u32 \<Rightarrow> 'a liballoc_scheme \<Rightarrow> (u32 \<times> 'a liballoc_scheme) option" where
  "krealloc = realloc liballoc_lock liballoc_unlock liballoc_alloc liballoc_free"

section \<open>Fields\<close>

text \<open>Two tags do not overlap, or are the same.\<close>

definition tags_apart :: "u32 set \<Rightarrow> bool" where
  "tags_apart T \<longleftrightarrow> (\<forall>t \<in> T. \<forall>u \<in> T. t \<noteq> u \<longrightarrow> apart t 32 u 32)"

lemma field_offset_bound: "unat (field_offset f) + 4 \<le> 32"
  by (cases f) simp_all

lemma field_offset_apart: "f \<noteq> g \<Longrightarrow> apart (t + field_offset f) 4 (t + field_offset g) 4"
  by (cases f; cases g) (simp_all add: apart_def)

lemma fields_apart: "apart t 32 u 32 \<Longrightarrow> apart (t + field_offset f) 4 (u + field_offset g) 4"
  using apart_parts [of t 32 u 32 "unat (field_offset f)" 4 "unat (field_offset g)" 4]
    field_offset_bound [of f] field_offset_bound [of g] by simp

lemma tag_get_put:
  "u = t \<or> apart t 32 u 32 \<Longrightarrow>
   tag_get f u (tag_put g t v s) = (if u = t \<and> f = g then v else tag_get f u s)"
  by (auto simp: tag_get_def tag_put_def mem_simps field_offset_apart fields_apart)

lemma tag_put_rest [frame_simps]:
  "l_freePages (tag_put f t v s) = l_freePages s" "l_completePages (tag_put f t v s) = l_completePages s"
  "l_initialized (tag_put f t v s) = l_initialized s"
  by (simp_all add: tag_put_def)

lemma tag_get_l_freePages [simp]: "tag_get f t (s\<lparr>l_freePages := h\<rparr>) = tag_get f t s"
  by (simp add: tag_get_def)

lemma tag_get_l_completePages [simp]: "tag_get f t (s\<lparr>l_completePages := c\<rparr>) = tag_get f t s"
  by (simp add: tag_get_def)

lemma tag_get_l_initialized [simp]: "tag_get f t (s\<lparr>l_initialized := c\<rparr>) = tag_get f t s"
  by (simp add: tag_get_def)

section \<open>Size classes and block copy\<close>

lemma getexp_from_bounds:
  assumes "8 \<le> k" "k \<le> 32" "k = 32 \<or> 2 ^ (k - 1) \<le> unat n"
  shows "8 \<le> getexp_from k n \<and> k \<le> getexp_from k n \<and> getexp_from k n \<le> 32
    \<and> (getexp_from k n = k \<or> 2 ^ (getexp_from k n - 1) \<le> unat n)
    \<and> (getexp_from k n < 32 \<longrightarrow> unat n < 2 ^ getexp_from k n)"
  using assms
proof (induction k n rule: getexp_from.induct)
  case (1 k n)
  have p: "unat (push_bit k (1 :: u32)) = 2 ^ k" if "k < 32"
  proof -
    have "(2 :: nat) ^ k \<le> 2 ^ 31" using that by (intro power_increasing) auto
    then have "unat (of_nat (2 ^ k) :: u32) = 2 ^ k" by (intro unat_of_nat_u32) simp
    then show ?thesis by (simp add: push_bit_eq_mult)
  qed
  show ?case
  proof (cases "k < 32 \<and> \<not> n < push_bit k 1")
    case True
    then have le: "2 ^ k \<le> unat n" using p by (simp add: word_less_nat_alt)
    have e: "getexp_from k n = getexp_from (k + 1) n" using True by (simp add: getexp_from.simps [of k n])
    have "8 \<le> getexp_from (k + 1) n \<and> k + 1 \<le> getexp_from (k + 1) n \<and> getexp_from (k + 1) n \<le> 32
    \<and> (getexp_from (k + 1) n = k + 1 \<or> 2 ^ (getexp_from (k + 1) n - 1) \<le> unat n)
    \<and> (getexp_from (k + 1) n < 32 \<longrightarrow> unat n < 2 ^ getexp_from (k + 1) n)"
      by (rule "1.IH") (use True 1 le in auto)
    then show ?thesis unfolding e using le by auto
  next
    case False
    then have "getexp_from k n = k" by (auto simp: getexp_from.simps [of k n])
    then show ?thesis using False 1 p by (auto simp: word_less_nat_alt)
  qed
qed

text \<open>\<^verbatim>\<open>getexp\<close> is the exponent of the largest power of two that the size reaches, from 256 on.\<close>

lemma getexp_small: "unat n < 256 \<Longrightarrow> getexp n = - 1"
  by (simp add: getexp_def word_less_nat_alt push_bit_eq_mult)

lemma getexp_large:
  assumes "256 \<le> unat n"
  shows "\<exists>k. getexp n = int k \<and> 8 \<le> k \<and> k < 32 \<and> 2 ^ k \<le> unat n \<and> unat n < 2 ^ (k + 1)"
proof -
  have n: "\<not> n < push_bit 8 1" using assms by (simp add: word_less_nat_alt push_bit_eq_mult)
  have e: "getexp_from 8 n = getexp_from 9 n" using n by (simp add: getexp_from.simps [of 8 n])
  define g where "g = getexp_from 9 n"
  have g: "9 \<le> g" "g \<le> 32" "g = 9 \<or> 2 ^ (g - 1) \<le> unat n" "g < 32 \<longrightarrow> unat n < 2 ^ g"
    using getexp_from_bounds [of 9 n] assms unfolding g_def by auto
  have "unat n < 2 ^ g" using g(4) g(2) unat_u32_lt [of n] by (cases "g < 32") (auto simp: le_less)
  moreover have "2 ^ (g - 1) \<le> unat n" using g(3) assms by auto
  moreover have "getexp n = int (g - 1)" using n e g(1) by (simp add: getexp_def g_def of_nat_diff)
  ultimately show ?thesis using g(1,2) by (intro exI [of _ "g - 1"]) auto
qed

lemma getexp_range: "getexp n = - 1 \<or> (\<exists>k. getexp n = int k \<and> 8 \<le> k \<and> k < 32)"
  using getexp_small [of n] getexp_large [of n] by (cases "unat n < 256") auto

lemma copied_step:
  "k < 4294967296 \<Longrightarrow> copied d c (Suc k) m = (copied d c k m)(d + of_nat k := m (c + of_nat k))"
  using copied_Suc [of d c "of_nat k" m] by (simp add: unat_of_nat_u32)

lemma copied_word:
  assumes "k + 3 < 4294967296"
  shows "copied d c (k + 4) m = (copied d c k m)
    (d + of_nat k := m (c + of_nat k), d + of_nat (k + 1) := m (c + of_nat (k + 1)),
     d + of_nat (k + 2) := m (c + of_nat (k + 2)), d + of_nat (k + 3) := m (c + of_nat (k + 3)))"
proof -
  have s: "Suc (k + 3) = k + 4" "Suc (k + 2) = k + 3" "Suc (k + 1) = k + 2" "Suc k = k + 1" by simp_all
  show ?thesis
    using assms copied_step [of "k + 3" d c m, unfolded s] copied_step [of "k + 2" d c m, unfolded s]
      copied_step [of "k + 1" d c m, unfolded s] copied_step [of k d c m, unfolded s]
    by (simp only: less_trans [OF _ assms] add_less_cancel_left)
qed

text \<open>Between regions that are apart, the source is read as it was before the copy.\<close>

lemma copied_source:
  "apart d n c n \<Longrightarrow> k < n \<Longrightarrow> j \<le> n \<Longrightarrow> copied d c j m (c + of_nat k) = m (c + of_nat k)"
  using apart_not_in_region [OF apart_mono [of d n c n j n], of k] by (simp add: copied_def)

lemma copy_bytes_copied:
  "apart d N c N \<Longrightarrow> N < 4294967296 \<Longrightarrow> k + unat n = N \<Longrightarrow>
   copy_bytes (d + of_nat k) (c + of_nat k) n (copied d c k m) = copied d c N m"
proof (induction "unat n" arbitrary: k n)
  case 0
  then have "n = 0" "k = N" by (simp_all add: unat_eq_zero)
  then show ?case by (simp add: copy_bytes.simps)
next
  case (Suc u)
  then have n: "0 < n" by (auto simp: word_gt_0)
  have u: "unat (n - 1) = u" using Suc.hyps(2) n by (simp add: unat_minus_one unat_gt_0 word_gt_0)
  have k: "k < N" using Suc by simp
  have "copy_bytes (d + of_nat (Suc k)) (c + of_nat (Suc k)) (n - 1) (copied d c (Suc k) m) = copied d c N m"
    by (rule Suc.hyps(1)) (use Suc u in auto)
  then show ?case
    using n k Suc.prems copied_source [OF Suc.prems(1) k, of k m]
    by (simp add: copy_bytes.simps [of "d + of_nat k"] copied_step add.assoc add.commute [of 1])
qed

lemma copy_words_copied:
  "apart d N c N \<Longrightarrow> N < 4294967296 \<Longrightarrow> k + unat n = N \<Longrightarrow>
   (case copy_words (d + of_nat k) (c + of_nat k) n (copied d c k m) of
      (d', c', n', m') \<Rightarrow> copy_bytes d' c' n' m') = copied d c N m"
proof (induction "unat n" arbitrary: k n rule: less_induct)
  case less
  show ?case
  proof (cases "4 \<le> n")
    case True
    then have n: "4 \<le> unat n" by (simp add: word_le_nat_alt)
    have u: "unat (n - 4) = unat n - 4" using True by (simp add: unat_minus_u32)
    have src: "copied d c k m (c + of_nat (k + j)) = m (c + of_nat (k + j))" if "j < 4" for j
      using less.prems n that by (intro copied_source [OF less.prems(1)]) auto
    have four: "copied d c (k + 4) m = store32 (copied d c k m) (d + of_nat k) (load32 (copied d c k m) (c + of_nat k))"
    proof -
      have w: "k + 3 < 4294967296" using less.prems n by simp
      show ?thesis unfolding store32_load32 copied_word [OF w]
        using src [of 0] src [of 1] src [of 2] src [of 3] by (simp add: ac_simps)
    qed
    have "(case copy_words (d + of_nat (k + 4)) (c + of_nat (k + 4)) (n - 4) (copied d c (k + 4) m) of
      (d', c', n', m') \<Rightarrow> copy_bytes d' c' n' m') = copied d c N m"
      by (rule less.hyps) (use less.prems n u in auto)
    then show ?thesis using True
      by (simp add: copy_words.simps [of "d + of_nat k"] four add.assoc)
  next
    case False
    then show ?thesis using less.prems
      by (simp add: copy_words.simps [of "d + of_nat k"] copy_bytes_copied)
  qed
qed

lemma liballoc_memcpy_copied:
  "apart d (unat n) c (unat n) \<Longrightarrow> liballoc_memcpy d c n m = copied d c (unat n) m"
proof -
  assume a: "apart d (unat n) c (unat n)"
  have "copied d c 0 m = m" by (simp add: copied_def in_region_def)
  then show ?thesis
    using copy_words_copied [OF a unat_u32_lt, of 0 n m] by (simp add: liballoc_memcpy_def)
qed

section \<open>Properties\<close>

text \<open>
  The size class of a size is the exponent of the largest power of two that it reaches, from
  256 bytes on; smaller sizes have none.
\<close>

theorem getexp_exponent:
  "if unat n < 256 then getexp n = - 1
   else \<exists>k. getexp n = int k \<and> 8 \<le> k \<and> k < 32 \<and> 2 ^ k \<le> unat n \<and> unat n < 2 ^ (k + 1)"
  using getexp_small [of n] getexp_large [of n] by simp

text \<open>
  C34. Between regions that do not overlap, the word-by-word copy of the allocator does what the
  byte-by-byte \<^verbatim>\<open>memcpy\<close> of the C library does.
\<close>

theorem liballoc_memcpy_is_memcpy:
  assumes "apart d (unat n) c (unat n)"
  shows "liballoc_memcpy d c n m = snd (memcpy d c n m)"
  unfolding liballoc_memcpy_copied [OF assms] memcpy_eq [OF assms] by simp

theorem liballoc_memcpy_is_memcpy_witness:
  "liballoc_memcpy 0x1000 0x2000 7 (\<lambda>x. ucast x) = snd (memcpy 0x1000 0x2000 7 (\<lambda>x. ucast x))"
  by (rule liballoc_memcpy_is_memcpy) (simp add: apart_def)

end
