(* ===== verification/Liballoc_Heap.thy ===== *)
theory Liballoc_Heap
  imports Liballoc
begin

text \<open>
  The invariant of the allocator's heap and what its operations do to it.

  A heap is described by the set \<open>T\<close> of the addresses of its tags and by the \<open>view\<close> of the state:
  the value of every field of every tag.  The invariant has three parts: the blocks behind the
  tags lie apart from each other (\<open>chunks\<close>); the left and right neighbours of a tag in its
  region point back at it and begin where it ends (\<open>splits\<close>); the tags whose index is not -1 are
  linked through the list of that index and the others are not linked (\<open>lists\<close>).

  Each list operation and merge of the code has a counterpart on views; the refinement lemmas
  show that the code implements it, and the invariant is proved kept on the views.
\<close>

type_synonym view = "tag_field \<Rightarrow> u32 \<Rightarrow> u32"

definition view :: "'a machine_scheme \<Rightarrow> view" where
  "view s = (\<lambda>f t. tag_get f t s)"

definition vput :: "tag_field \<Rightarrow> u32 \<Rightarrow> u32 \<Rightarrow> view \<Rightarrow> view" where
  "vput f t v V = (\<lambda>g u. if g = f \<and> u = t then v else V g u)"

definition agree :: "u32 set \<Rightarrow> view \<Rightarrow> view \<Rightarrow> bool" where
  "agree T V W \<longleftrightarrow> (\<forall>f. \<forall>t \<in> T. V f t = W f t)"

section \<open>The invariant\<close>

definition chunks :: "u32 set \<Rightarrow> view \<Rightarrow> bool" where
  "chunks T V \<longleftrightarrow> finite T
     \<and> (\<forall>t \<in> T. t \<noteq> 0 \<and> V Magic t = LIBALLOC_MAGIC \<and> 32 \<le> unat (V Real_size t)
          \<and> unat t + unat (V Real_size t) \<le> 4294967296)
     \<and> (\<forall>t \<in> T. \<forall>u \<in> T. t \<noteq> u \<longrightarrow>
          unat t + unat (V Real_size t) \<le> unat u \<or> unat u + unat (V Real_size u) \<le> unat t)"

definition split_node :: "u32 set \<Rightarrow> view \<Rightarrow> u32 \<Rightarrow> bool" where
  "split_node T V t \<longleftrightarrow>
     (V Split_right t \<noteq> 0 \<longrightarrow> V Split_right t \<in> T \<and> V Split_left (V Split_right t) = t
        \<and> unat (V Split_right t) = unat t + unat (V Real_size t))
     \<and> (V Split_left t \<noteq> 0 \<longrightarrow> V Split_left t \<in> T \<and> V Split_right (V Split_left t) = t)"

definition splits :: "u32 set \<Rightarrow> view \<Rightarrow> bool" where
  "splits T V \<longleftrightarrow> (\<forall>t \<in> T. split_node T V t)"

definition unlisted :: "view \<Rightarrow> u32 \<Rightarrow> bool" where
  "unlisted V t \<longleftrightarrow> V Index t = - 1 \<and> V Next t = 0 \<and> V Prev t = 0"

definition listed :: "u32 set \<Rightarrow> view \<Rightarrow> (nat \<Rightarrow> u32) \<Rightarrow> u32 \<Rightarrow> bool" where
  "listed T V H t \<longleftrightarrow> 8 \<le> unat (V Index t) \<and> unat (V Index t) < 32
     \<and> (V Next t \<noteq> 0 \<longrightarrow> V Next t \<in> T \<and> V Index (V Next t) = V Index t \<and> V Prev (V Next t) = t)
     \<and> (V Prev t = 0 \<longrightarrow> H (unat (V Index t)) = t)
     \<and> (V Prev t \<noteq> 0 \<longrightarrow> V Prev t \<in> T \<and> V Index (V Prev t) = V Index t \<and> V Next (V Prev t) = t)"

definition lists :: "u32 set \<Rightarrow> view \<Rightarrow> (nat \<Rightarrow> u32) \<Rightarrow> bool" where
  "lists T V H \<longleftrightarrow> (\<forall>t \<in> T. unlisted V t \<or> listed T V H t)
     \<and> (\<forall>i. 8 \<le> i \<and> i < 32 \<and> H i \<noteq> 0 \<longrightarrow> H i \<in> T \<and> unat (V Index (H i)) = i \<and> V Prev (H i) = 0)"

abbreviation is_free :: "view \<Rightarrow> u32 \<Rightarrow> bool" where
  "is_free V t \<equiv> V Index t \<noteq> - 1"

definition allocated :: "u32 set \<Rightarrow> view \<Rightarrow> u32 set" where
  "allocated T V = {t \<in> T. V Index t = - 1}"

section \<open>The operations on views\<close>

definition v_remove :: "u32 \<Rightarrow> view \<Rightarrow> view" where
  "v_remove t V =
     (let n = V Next t; p = V Prev t;
          V = (if p \<noteq> 0 then vput Next p n V else V);
          V = (if n \<noteq> 0 then vput Prev n p V else V)
      in vput Index t (- 1) (vput Prev t 0 (vput Next t 0 V)))"

definition h_remove :: "u32 \<Rightarrow> view \<Rightarrow> (nat \<Rightarrow> u32) \<Rightarrow> nat \<Rightarrow> u32" where
  "h_remove t V H = (if H (unat (V Index t)) = t then H(unat (V Index t) := V Next t) else H)"

definition v_insert :: "u32 \<Rightarrow> nat \<Rightarrow> (nat \<Rightarrow> u32) \<Rightarrow> view \<Rightarrow> view" where
  "v_insert t i H V =
     (let V = vput Index t (of_nat i) V
      in if H i \<noteq> 0 then vput Next t (H i) (vput Prev (H i) t V) else V)"

definition v_merge :: "u32 \<Rightarrow> u32 \<Rightarrow> view \<Rightarrow> view" where
  "v_merge l r V =
     (let V' = vput Split_right l (V Split_right r) (vput Real_size l (V Real_size l + V Real_size r) V)
      in if V Split_right r \<noteq> 0 then vput Split_left (V Split_right r) l V' else V')"

section \<open>The invariant is kept on views\<close>

lemma vput_simps [simp]:
  "vput f t v V f t = v" "g \<noteq> f \<Longrightarrow> vput f t v V g = V g" "u \<noteq> t \<Longrightarrow> vput f t v V g u = V g u"
  by (auto simp: vput_def)

lemma index_listed: "unat (i :: u32) < 32 \<Longrightarrow> i \<noteq> - 1"
proof
  assume "unat i < 32" "i = - 1"
  moreover have "unat (- 1 :: u32) = 4294967295"
    by (simp add: unsigned_minus_1_eq_mask mask_eq_exp_minus_1)
  ultimately show False by simp
qed

lemma listed_free: "listed T V H t \<Longrightarrow> is_free V t"
  using index_listed by (simp add: listed_def)

lemma lists_cases:
  assumes "lists T V H" "t \<in> T"
  obtains "unlisted V t" | "listed T V H t"
  using assms by (auto simp: lists_def)

lemma free_listed: "lists T V H \<Longrightarrow> t \<in> T \<Longrightarrow> is_free V t \<Longrightarrow> listed T V H t"
  by (auto simp: lists_def unlisted_def)

lemma v_remove_other_fields:
  "f \<noteq> Next \<Longrightarrow> f \<noteq> Prev \<Longrightarrow> f \<noteq> Index \<Longrightarrow> v_remove t V f = V f"
  by (simp add: v_remove_def Let_def)

lemma v_remove_index: "v_remove t V Index = (V Index)(t := - 1)"
  by (rule ext) (auto simp: v_remove_def Let_def vput_def)

lemma v_remove_next:
  "v_remove t V Next x = (if x = t then 0 else if x = V Prev t \<and> x \<noteq> 0 then V Next t else V Next x)"
  by (auto simp: v_remove_def Let_def vput_def)

lemma v_remove_prev:
  "v_remove t V Prev x = (if x = t then 0 else if x = V Next t \<and> x \<noteq> 0 then V Prev t else V Prev x)"
  by (auto simp: v_remove_def Let_def vput_def)

text \<open>The links of a listed tag once its neighbour \<open>t\<close> is gone.\<close>

lemma listed_remove:
  assumes x: "listed T V H x" "x \<noteq> t" "x \<noteq> 0" and lt: "listed T V H t" and nz: "t \<noteq> 0"
  shows "listed T (v_remove t V) (h_remove t V H) x"
proof -
  let ?W = "v_remove t V" and ?n = "V Next t" and ?p = "V Prev t"
  have idx: "?W Index x = V Index x" using x(2) by (simp add: v_remove_index)
  have nxt: "?W Next x \<in> T \<and> ?W Index (?W Next x) = V Index x \<and> ?W Prev (?W Next x) = x" if y: "?W Next x \<noteq> 0"
  proof (cases "x = ?p")
    case True
    have n: "?W Next x = ?n" "?n \<noteq> 0" using True x y by (simp_all add: v_remove_next)
    have "?n \<noteq> t" using True x(2) lt n by (auto simp: listed_def)
    then show ?thesis using n True lt x(3) by (auto simp: listed_def v_remove_index v_remove_prev)
  next
    case False
    have e: "?W Next x = V Next x" using False x(2) by (simp add: v_remove_next)
    have b: "V Next x \<in> T" "V Index (V Next x) = V Index x" "V Prev (V Next x) = x"
      using x(1) y e by (simp_all add: listed_def)
    have "V Next x \<noteq> t" using b(3) False by auto
    moreover have "V Next x \<noteq> ?n" using b(3) x(2) y e lt by (auto simp: listed_def)
    ultimately show ?thesis using b e by (simp add: v_remove_index v_remove_prev)
  qed
  have prv: "?W Prev x \<in> T \<and> ?W Index (?W Prev x) = V Index x \<and> ?W Next (?W Prev x) = x" if y: "?W Prev x \<noteq> 0"
  proof (cases "x = ?n")
    case True
    have n: "?W Prev x = ?p" "?p \<noteq> 0" using True x y by (simp_all add: v_remove_prev)
    have "?p \<noteq> t" using True x(2) lt n by (auto simp: listed_def)
    then show ?thesis using n True lt x(3) by (auto simp: listed_def v_remove_index v_remove_next)
  next
    case False
    have e: "?W Prev x = V Prev x" using False x(2) by (simp add: v_remove_prev)
    have b: "V Prev x \<in> T" "V Index (V Prev x) = V Index x" "V Next (V Prev x) = x"
      using x(1) y e by (simp_all add: listed_def)
    have "V Prev x \<noteq> t" using b(3) False by auto
    moreover have "V Prev x \<noteq> ?p" using b(3) x(2) y e lt by (auto simp: listed_def)
    ultimately show ?thesis using b e by (simp add: v_remove_index v_remove_next)
  qed
  have hd: "h_remove t V H (unat (V Index x)) = x" if z: "?W Prev x = 0"
  proof (cases "x = ?n")
    case True
    then have "V Prev t = 0" "V Index x = V Index t" using z x lt by (auto simp: listed_def v_remove_prev)
    then show ?thesis using True lt by (simp add: h_remove_def listed_def)
  next
    case False
    then have "H (unat (V Index x)) = x" using z x by (simp add: listed_def v_remove_prev)
    then show ?thesis using x(2) by (auto simp: h_remove_def)
  qed
  show ?thesis unfolding listed_def idx using nxt prv hd x(1) by (simp add: listed_def)
qed

lemma lists_remove:
  assumes L: "lists T V H" and t: "t \<in> T" "is_free V t" and nz: "0 \<notin> T"
  shows "lists T (v_remove t V) (h_remove t V H)"
proof -
  note lt = free_listed [OF L t]
  have node: "unlisted (v_remove t V) x \<or> listed T (v_remove t V) (h_remove t V H) x" if x: "x \<in> T" for x
  proof (cases "x = t")
    case True
    then show ?thesis by (simp add: unlisted_def v_remove_index v_remove_next v_remove_prev)
  next
    case False
    show ?thesis using L x
    proof (cases rule: lists_cases)
      case 1
      have "x \<noteq> V Prev t" "x \<noteq> V Next t" using 1 lt listed_free [OF lt] x nz by (auto simp: listed_def unlisted_def)
      then have "unlisted (v_remove t V) x"
        using 1 False by (simp add: unlisted_def v_remove_index v_remove_next v_remove_prev)
      then show ?thesis ..
    next
      case 2
      have "x \<noteq> 0" using x nz by auto
      have "t \<noteq> 0" using t nz by auto
      from listed_remove [OF 2 False \<open>x \<noteq> 0\<close> lt this]
      have "listed T (v_remove t V) (h_remove t V H) x" .
      then show ?thesis ..
    qed
  qed
  have head: "h_remove t V H i \<in> T \<and> unat (v_remove t V Index (h_remove t V H i)) = i
      \<and> v_remove t V Prev (h_remove t V H i) = 0"
    if i: "8 \<le> i" "i < 32" "h_remove t V H i \<noteq> 0" for i
  proof -
    have hd: "H j \<in> T \<and> unat (V Index (H j)) = j \<and> V Prev (H j) = 0" if "8 \<le> j" "j < 32" "H j \<noteq> 0" for j
      using L that by (simp add: lists_def)
    show ?thesis
    proof (cases "H (unat (V Index t)) = t \<and> i = unat (V Index t)")
      case True
      then have "V Next t \<noteq> 0" "h_remove t V H i = V Next t" using i by (auto simp: h_remove_def)
      moreover have "V Prev t = 0" using hd [of i] True i t nz by auto
      moreover have "V Next t \<noteq> t" using lt calculation t nz by (auto simp: listed_def)
      ultimately show ?thesis using lt True by (simp add: listed_def v_remove_index v_remove_prev)
    next
      case False
      then have h: "h_remove t V H i = H i" by (auto simp: h_remove_def)
      then have "H i \<noteq> t" using hd [of i] i False by auto
      moreover have "H i \<noteq> V Next t" if "V Next t \<noteq> 0"
        using hd [of i] h i lt that t nz by (auto simp: listed_def)
      ultimately show ?thesis using hd [of i] h i by (auto simp: v_remove_index v_remove_prev)
    qed
  qed
  show ?thesis unfolding lists_def using node head by blast
qed

text \<open>Each part of the invariant looks only at its own fields of the tags of \<open>T\<close>.\<close>

lemma lists_cong:
  assumes "lists T V H" "\<And>x. x \<in> T \<Longrightarrow> W Index x = V Index x \<and> W Next x = V Next x \<and> W Prev x = V Prev x"
  shows "lists T W H"
proof -
  have l: "listed T W H x" if "listed T V H x" "x \<in> T" for x
    using that assms(2) [of x] assms(2) [of "V Next x"] assms(2) [of "V Prev x"] by (auto simp: listed_def)
  have u: "unlisted W x" if "unlisted V x" "x \<in> T" for x
    using that assms(2) [of x] by (simp add: unlisted_def)
  show ?thesis using assms(1) l u assms(2) unfolding lists_def by metis
qed

lemma chunks_cong:
  "chunks T V \<Longrightarrow> (\<And>x. x \<in> T \<Longrightarrow> W Magic x = V Magic x \<and> W Real_size x = V Real_size x) \<Longrightarrow> chunks T W"
  by (simp add: chunks_def)

lemma splits_cong:
  assumes "splits T V" "\<And>x. x \<in> T \<Longrightarrow> W Split_left x = V Split_left x \<and> W Split_right x = V Split_right x
    \<and> W Real_size x = V Real_size x"
  shows "splits T W"
  using assms unfolding splits_def split_node_def by metis

lemma agree_cong: "agree T V W \<Longrightarrow> x \<in> T \<Longrightarrow> V f x = W f x"
  by (simp add: agree_def)

lemma lists_drop:
  assumes L: "lists T V H" and u: "unlisted V t" shows "lists (T - {t}) V H"
proof -
  have l: "listed (T - {t}) V H x" if "listed T V H x" for x
  proof -
    have "V Index x \<noteq> V Index t" using listed_free [OF that] u by (simp add: unlisted_def)
    then show ?thesis using that by (auto simp: listed_def)
  qed
  have "H i \<noteq> t" if "8 \<le> i" "i < 32" "H i \<noteq> 0" for i
    using L that index_listed [of "V Index (H i)"] u by (auto simp: lists_def unlisted_def)
  then show ?thesis using L l unfolding lists_def by blast
qed

lemma lists_insert:
  assumes L: "lists (T - {t}) V H" and t: "t \<noteq> 0" "V Next t = 0" "V Prev t = 0" and i: "8 \<le> i" "i < 32" and nz: "0 \<notin> T"
  shows "lists (insert t T) (v_insert t i H V) (H(i := t))"
proof -
  let ?W = "v_insert t i H V" and ?T = "T - {t}"
  have ui: "unat (of_nat i :: u32) = i" using i by (intro unat_of_nat_u32) simp
  have hd: "H j \<in> ?T \<and> unat (V Index (H j)) = j \<and> V Prev (H j) = 0" if "8 \<le> j" "j < 32" "H j \<noteq> 0" for j
    using L that by (simp add: lists_def)
  have f: "?W Index = (V Index)(t := of_nat i)" "?W Next = (V Next)(t := H i)"
    "?W Prev = (if H i \<noteq> 0 then (V Prev)(H i := t) else V Prev)"
    using t by (auto simp: v_insert_def vput_def Let_def fun_eq_iff)
  have new: "listed (insert t T) ?W (H(i := t)) t"
    using hd [of i] i ui t by (auto simp: listed_def f word_unat_eq_iff)
  have old: "unlisted ?W x \<or> listed (insert t T) ?W (H(i := t)) x" if x: "x \<in> ?T" for x
    using L x
  proof (cases rule: lists_cases)
    case 1
    then have "x \<noteq> H i" if "H i \<noteq> 0"
      using hd [OF i that] i index_listed [of "V Index x"] by (auto simp: unlisted_def)
    then show ?thesis using 1 x by (auto simp: unlisted_def f)
  next
    case 2
    have nx: "?W Next x = V Next x" "?W Index x = V Index x" using x by (simp_all add: f)
    have px: "?W Prev x = (if x = H i \<and> H i \<noteq> 0 then t else V Prev x)" by (simp add: f)
    have ix: "unat (V Index x) = i" if "x = H i" "H i \<noteq> 0" using hd [OF i that(2)] that by simp
    have "listed (insert t T) ?W (H(i := t)) x"
      unfolding listed_def nx
    proof (intro conjI impI)
      assume y: "V Next x \<noteq> 0"
      then have b: "V Next x \<in> ?T" "V Index (V Next x) = V Index x" "V Prev (V Next x) = x"
        using 2 by (simp_all add: listed_def)
      have "V Next x \<noteq> H i" using hd [OF i] b(1,3) x y nz by (cases "H i = 0") auto
      then show "V Next x \<in> insert t T" "?W Index (V Next x) = V Index x" "?W Prev (V Next x) = x"
        using b by (auto simp: f)
    next
      assume z: "?W Prev x = 0"
      then have "H (unat (V Index x)) = x" "\<not> (x = H i \<and> H i \<noteq> 0)"
        using 2 t(1) unfolding px by (auto simp: listed_def split: if_splits)
      moreover from this have "unat (V Index x) \<noteq> i" using x nz by auto
      ultimately show "(H(i := t)) (unat (V Index x)) = x" by simp
    next
      assume y: "?W Prev x \<noteq> 0"
      show "?W Prev x \<in> insert t T" using 2 y unfolding px by (auto simp: listed_def split: if_splits)
      show "?W Index (?W Prev x) = V Index x" using 2 y ix ui unfolding px
        by (auto simp: listed_def f word_unat_eq_iff split: if_splits)
      show "?W Next (?W Prev x) = x" using 2 y unfolding px by (auto simp: listed_def f split: if_splits)
    qed (use 2 in \<open>simp_all add: listed_def\<close>)
    then show ?thesis ..
  qed
  have heads: "(H(i := t)) j \<in> insert t T \<and> unat (?W Index ((H(i := t)) j)) = j \<and> ?W Prev ((H(i := t)) j) = 0"
    if j: "8 \<le> j" "j < 32" "(H(i := t)) j \<noteq> 0" for j
  proof (cases "j = i")
    case True
    then show ?thesis using ui t hd [of i] i by (auto simp: f)
  next
    case False
    have "H j \<noteq> H i" if "H i \<noteq> 0" using hd [OF j(1,2)] hd [OF i that] j False by auto
    then show ?thesis using hd [OF j(1,2)] j False by (auto simp: f)
  qed
  show ?thesis unfolding lists_def using new old heads by blast
qed

section \<open>Merging and splitting blocks\<close>

lemma chunksD:
  assumes "chunks T V" "t \<in> T"
  shows "t \<noteq> 0" "32 \<le> unat (V Real_size t)" "unat t + unat (V Real_size t) \<le> 4294967296"
    "V Magic t = LIBALLOC_MAGIC"
  using assms by (auto simp: chunks_def)

lemma chunks_apart:
  "chunks T V \<Longrightarrow> t \<in> T \<Longrightarrow> u \<in> T \<Longrightarrow> t \<noteq> u \<Longrightarrow>
   unat t + unat (V Real_size t) \<le> unat u \<or> unat u + unat (V Real_size u) \<le> unat t"
  by (auto simp: chunks_def)

lemma splitsD:
  assumes "splits T V" "t \<in> T"
  shows "V Split_right t \<noteq> 0 \<Longrightarrow> V Split_right t \<in> T"
    "V Split_right t \<noteq> 0 \<Longrightarrow> V Split_left (V Split_right t) = t"
    "V Split_right t \<noteq> 0 \<Longrightarrow> unat (V Split_right t) = unat t + unat (V Real_size t)"
    "V Split_left t \<noteq> 0 \<Longrightarrow> V Split_left t \<in> T"
    "V Split_left t \<noteq> 0 \<Longrightarrow> V Split_right (V Split_left t) = t"
  using assms unfolding splits_def split_node_def by blast+

lemma v_merge_fields:
  "v_merge l r V Real_size = (V Real_size)(l := V Real_size l + V Real_size r)"
  "v_merge l r V Split_right = (V Split_right)(l := V Split_right r)"
  "v_merge l r V Split_left = (if V Split_right r \<noteq> 0 then (V Split_left)(V Split_right r := l) else V Split_left)"
  "f \<notin> {Real_size, Split_right, Split_left} \<Longrightarrow> v_merge l r V f = V f"
  by (auto simp: v_merge_def vput_def Let_def fun_eq_iff)

text \<open>A block and its right neighbour, joined.\<close>

lemma merge_size:
  assumes "chunks T V" "splits T V" "l \<in> T" "V Split_right l = r" "r \<noteq> 0"
  shows "unat (V Real_size l + V Real_size r) = unat (V Real_size l) + unat (V Real_size r)"
    and "l \<noteq> r" "r \<in> T" "unat r = unat l + unat (V Real_size l)"
proof -
  show r: "r \<in> T" "unat r = unat l + unat (V Real_size l)" using splitsD [OF assms(2,3)] assms(4,5) by auto
  note cl = chunksD [OF assms(1,3)] and cr = chunksD [OF assms(1) r(1)]
  show "l \<noteq> r" using r(2) cl(2) by auto
  have "0 < unat l" using cl(1) by (simp add: unat_gt_0)
  then show "unat (V Real_size l + V Real_size r) = unat (V Real_size l) + unat (V Real_size r)"
    using cr(3) r(2) by (intro unat_plus_u32) simp
qed

lemma chunks_merge:
  assumes "chunks T V" "splits T V" "l \<in> T" "V Split_right l = r" "r \<noteq> 0"
  shows "chunks (T - {r}) (v_merge l r V)"
proof -
  note m = merge_size [OF assms]
  have size: "unat (v_merge l r V Real_size x) = (if x = l then unat (V Real_size l) + unat (V Real_size r) else unat (V Real_size x))"
    for x by (simp add: v_merge_fields m(1))
  have magic: "v_merge l r V Magic = V Magic" by (simp add: v_merge_fields)
  have apart: "unat l + (unat (V Real_size l) + unat (V Real_size r)) \<le> unat u
      \<or> unat u + unat (V Real_size u) \<le> unat l" if "u \<in> T" "u \<noteq> l" "u \<noteq> r" for u
    using chunks_apart [OF assms(1,3) that(1)] chunks_apart [OF assms(1) m(3) that(1)]
      chunksD(2) [OF assms(1) that(1)] that m(4) by auto
  show ?thesis
    unfolding chunks_def size magic
  proof (intro conjI ballI impI)
    show "finite (T - {r})" using assms(1) by (simp add: chunks_def)
    fix t
    assume "t \<in> T - {r}"
    then have t: "t \<in> T" "t \<noteq> r" by auto
    note c = chunksD [OF assms(1) t(1)]
    show "t \<noteq> 0" "V Magic t = LIBALLOC_MAGIC" using c by simp_all
    show "32 \<le> (if t = l then unat (V Real_size l) + unat (V Real_size r) else unat (V Real_size t))"
      "unat t + (if t = l then unat (V Real_size l) + unat (V Real_size r) else unat (V Real_size t)) \<le> 4294967296"
      using c chunksD(3) [OF assms(1) m(3)] m(4) by auto
    fix u
    assume "u \<in> T - {r}" "t \<noteq> u"
    then show "unat t + (if t = l then unat (V Real_size l) + unat (V Real_size r) else unat (V Real_size t)) \<le> unat u
      \<or> unat u + (if u = l then unat (V Real_size l) + unat (V Real_size r) else unat (V Real_size u)) \<le> unat t"
      using apart [of u] apart [of t] t chunks_apart [OF assms(1) t(1), of u] by auto
  qed
qed

lemma splits_merge:
  assumes "chunks T V" "splits T V" "l \<in> T" "V Split_right l = r" "r \<noteq> 0"
  shows "splits (T - {r}) (v_merge l r V)"
proof -
  note m = merge_size [OF assms]
  let ?W = "v_merge l r V"
  note r = splitsD [OF assms(2) m(3)] and l = splitsD [OF assms(2,3)]
  have bk: "V Split_left r = l" using l(2) assms(4,5) by simp
  have rr: "V Split_right r \<noteq> r" if "V Split_right r \<noteq> 0"
    using r(3) [OF that] chunksD(2) [OF assms(1) m(3)] by auto
  have "split_node (T - {r}) ?W x" if "x \<in> T - {r}" for x
  proof -
    have x: "x \<in> T" "x \<noteq> r" "x \<noteq> 0" using that chunksD(1) [OF assms(1)] by auto
    note s = splitsD [OF assms(2) x(1)]
    have right: "?W Split_right x \<in> T - {r} \<and> ?W Split_left (?W Split_right x) = x
        \<and> unat (?W Split_right x) = unat x + unat (?W Real_size x)" if y: "?W Split_right x \<noteq> 0"
    proof (cases "x = l")
      case True
      then have "V Split_right r \<noteq> 0" using y by (simp add: v_merge_fields)
      then show ?thesis using True r rr m by (simp add: v_merge_fields)
    next
      case False
      then have e: "?W Split_right x = V Split_right x" "V Split_right x \<noteq> 0" using y by (simp_all add: v_merge_fields)
      have "V Split_right x \<noteq> r" using s(2) [OF e(2)] bk False by auto
      moreover have "V Split_right x \<noteq> V Split_right r" using s(2) [OF e(2)] r(2) e(2) x(2) by auto
      ultimately show ?thesis using s(1-3) [OF e(2)] e False by (auto simp: v_merge_fields)
    qed
    have left: "?W Split_left x \<in> T - {r} \<and> ?W Split_right (?W Split_left x) = x" if y: "?W Split_left x \<noteq> 0"
    proof (cases "x = V Split_right r")
      case True
      then show ?thesis using x assms(3) m(2) by (simp add: v_merge_fields)
    next
      case False
      then have e: "?W Split_left x = V Split_left x" "V Split_left x \<noteq> 0" using y by (simp_all add: v_merge_fields split: if_splits)
      have "V Split_left x \<noteq> r" using s(5) [OF e(2)] False by auto
      moreover have "V Split_left x \<noteq> l" using s(5) [OF e(2)] assms(4) x(2) by auto
      ultimately show ?thesis using s(4,5) [OF e(2)] e by (simp add: v_merge_fields)
    qed
    show ?thesis unfolding split_node_def using left right by blast
  qed
  then show ?thesis by (simp add: splits_def)
qed

lemma lists_merge:
  "lists T V H \<Longrightarrow> unlisted V r \<Longrightarrow> lists (T - {r}) (v_merge l r V) H"
  by (rule lists_cong [OF lists_drop]) (simp_all add: v_merge_fields)

section \<open>The code implements the operations on views\<close>

text \<open>
  A change of the state that is confined to the headers of tags of \<open>T\<close> and the list heads.
\<close>

definition tag_region :: "u32 set \<Rightarrow> u32 \<Rightarrow> bool" where
  "tag_region T x \<longleftrightarrow> (\<exists>t \<in> T. in_region t 32 x)"

definition heap_step :: "u32 set \<Rightarrow> 'a liballoc_scheme \<Rightarrow> 'a liballoc_scheme \<Rightarrow> bool" where
  "heap_step T s s' \<longleftrightarrow> (\<exists>m h. s' = s\<lparr>mem := m, l_freePages := h\<rparr> \<and> same_outside (tag_region T) (mem s) m)"

lemma heap_step_refl [simp, intro]: "heap_step T s s"
proof -
  have "s = s\<lparr>mem := mem s, l_freePages := l_freePages s\<rparr>" by simp
  then show ?thesis unfolding heap_step_def by blast
qed

lemma heap_step_trans: "heap_step T s s' \<Longrightarrow> heap_step T s' s'' \<Longrightarrow> heap_step T s s''"
  unfolding heap_step_def by (force intro: same_outside_trans)

lemma tag_region_mono: "T \<subseteq> U \<Longrightarrow> tag_region T x \<Longrightarrow> tag_region U x"
  by (auto simp: tag_region_def)

lemma heap_step_mono: "heap_step T s s' \<Longrightarrow> T \<subseteq> U \<Longrightarrow> heap_step U s s'"
  unfolding heap_step_def by (metis same_outside_mono tag_region_mono)

lemma heap_step_heads: "heap_step T s (s\<lparr>l_freePages := h\<rparr>)"
proof -
  have "s\<lparr>l_freePages := h\<rparr> = s\<lparr>mem := mem s, l_freePages := h\<rparr>" by simp
  then show ?thesis unfolding heap_step_def by blast
qed

lemma field_in_tag: "in_region (t + field_offset f) 4 x \<Longrightarrow> in_region t 32 x"
proof -
  assume "in_region (t + field_offset f) 4 x"
  then have d: "unat (x - (t + field_offset f)) < 4" by (simp add: in_region_def)
  have "x - t = (x - (t + field_offset f)) + field_offset f" by simp
  moreover have "unat ((x - (t + field_offset f)) + field_offset f)
      = unat (x - (t + field_offset f)) + unat (field_offset f)"
    using d field_offset_bound [of f] by (intro unat_plus_u32) simp
  ultimately show ?thesis using d field_offset_bound [of f] by (simp add: in_region_def)
qed

lemma heap_step_put: "t \<in> T \<Longrightarrow> heap_step T s (tag_put f t v s)"
proof -
  assume t: "t \<in> T"
  have "tag_put f t v s = s\<lparr>mem := store32 (mem s) (t + field_offset f) v, l_freePages := l_freePages s\<rparr>"
    by (simp add: tag_put_def)
  moreover have "same_outside (tag_region T) (mem s) (store32 (mem s) (t + field_offset f) v)"
    using t field_in_tag by (intro same_outside_store32) (auto simp: tag_region_def)
  ultimately show ?thesis unfolding heap_step_def by blast
qed

lemma agree_view [simp]: "agree T (view s) (view s)"
  by (simp add: agree_def)

lemma agree_get: "agree T (view s) V \<Longrightarrow> t \<in> T \<Longrightarrow> tag_get f t s = V f t"
  by (simp add: agree_def view_def)

lemma agree_put:
  assumes "agree T (view s) V" "tags_apart T" "t \<in> T"
  shows "agree T (view (tag_put f t v s)) (vput f t v V)"
  unfolding agree_def
proof (intro allI ballI)
  fix g u
  assume u: "u \<in> T"
  then have "u = t \<or> apart t 32 u 32" using assms(2,3) by (auto simp: tags_apart_def)
  then have "tag_get g u (tag_put f t v s) = (if u = t \<and> g = f then v else tag_get g u s)"
    by (rule tag_get_put)
  then show "view (tag_put f t v s) g u = vput f t v V g u"
    using agree_get [OF assms(1) u] by (simp add: view_def vput_def)
qed

lemma view_fields [simp]:
  "view (s\<lparr>l_freePages := h\<rparr>) = view s" "view (s\<lparr>l_completePages := c\<rparr>) = view s"
  "view (s\<lparr>l_initialized := i\<rparr>) = view s"
  by (simp_all add: view_def)

text \<open>
  The relation between a state and the view and heads it is meant to have, along a run that
  started in \<open>s0\<close>.
\<close>

definition at_view :: "u32 set \<Rightarrow> 'a liballoc_scheme \<Rightarrow> view \<Rightarrow> (nat \<Rightarrow> u32) \<Rightarrow> 'a liballoc_scheme \<Rightarrow> bool" where
  "at_view T s0 V H s \<longleftrightarrow> agree T (view s) V \<and> l_freePages s = H \<and> heap_step T s0 s"

lemma at_view_start: "at_view T s (view s) (l_freePages s) s"
  by (simp add: at_view_def)

lemma at_view_put:
  "at_view T s0 V H s \<Longrightarrow> tags_apart T \<Longrightarrow> t \<in> T \<Longrightarrow> at_view T s0 (vput f t v V) H (tag_put f t v s)"
  using agree_put heap_step_put heap_step_trans by (fastforce simp: at_view_def tag_put_rest)

lemma at_view_heads:
  "at_view T s0 V H s \<Longrightarrow> at_view T s0 V H' (s\<lparr>l_freePages := H'\<rparr>)"
  using heap_step_heads heap_step_trans by (fastforce simp: at_view_def)

lemma at_view_restart:
  "at_view T s0 V H s \<Longrightarrow> mem s' = mem s \<Longrightarrow> l_freePages s' = l_freePages s \<Longrightarrow> at_view T s' V H s'"
  by (simp add: at_view_def view_def tag_get_def)

lemma at_view_mem:
  "at_view T s0 V H s \<Longrightarrow> same_outside (tag_region T) (mem s0) (mem s)
    \<and> l_completePages s = l_completePages s0 \<and> l_initialized s = l_initialized s0"
  by (auto simp: at_view_def heap_step_def)

lemma at_view_get: "at_view T s0 V H s \<Longrightarrow> t \<in> T \<Longrightarrow> tag_get f t s = V f t"
  by (auto simp: at_view_def agree_get)

lemma at_view_heads_eq: "at_view T s0 V H s \<Longrightarrow> l_freePages s = H"
  by (simp add: at_view_def)

lemma at_view_trans:
  "at_view T s0 V H s \<Longrightarrow> at_view T s V' H' s' \<Longrightarrow> at_view T s0 V' H' s'"
  using heap_step_trans by (fastforce simp: at_view_def)

lemma remove_tag_view:
  assumes v: "at_view T s0 V H s" and a: "tags_apart T" and t: "t \<in> T" and l: "listed T V H t"
  shows "\<exists>s'. remove_tag t s = Some s' \<and> at_view T s0 (v_remove t V) (h_remove t V H) s'"
proof -
  let ?i = "unat (V Index t)" and ?n = "V Next t" and ?p = "V Prev t"
  have i: "?i < 32" and pn: "?p \<noteq> 0 \<Longrightarrow> ?p \<in> T" "?n \<noteq> 0 \<Longrightarrow> ?n \<in> T"
    using l by (simp_all add: listed_def)
  have x: "sint (tag_get Index t s) = int ?i"
    using at_view_get [OF v t] i by (simp only: small_sint less_trans [OF i])
  define s1 where "s1 = (if l_freePages s ?i = t then s\<lparr>l_freePages := (l_freePages s)(?i := tag_get Next t s)\<rparr> else s)"
  have v1: "at_view T s0 V (h_remove t V H) s1"
    unfolding s1_def h_remove_def using v at_view_heads [OF v] at_view_get [OF v t] at_view_heads_eq [OF v] by simp
  define s2 where "s2 = (if tag_get Prev t s1 \<noteq> 0 then tag_put Next (tag_get Prev t s1) (tag_get Next t s1) s1 else s1)"
  define V2 where "V2 = (if ?p \<noteq> 0 then vput Next ?p ?n V else V)"
  have v2: "at_view T s0 V2 (h_remove t V H) s2"
    unfolding s2_def V2_def using v1 at_view_put [OF v1 a] at_view_get [OF v1 t] pn by simp
  have f2: "V2 Next t = ?n" "V2 Prev t = ?p" by (auto simp: V2_def vput_def)
  define s3 where "s3 = (if tag_get Next t s2 \<noteq> 0 then tag_put Prev (tag_get Next t s2) (tag_get Prev t s2) s2 else s2)"
  define V3 where "V3 = (if ?n \<noteq> 0 then vput Prev ?n ?p V2 else V2)"
  have v3: "at_view T s0 V3 (h_remove t V H) s3"
    unfolding s3_def V3_def using v2 at_view_put [OF v2 a] at_view_get [OF v2 t] pn f2 by simp
  have "at_view T s0 (v_remove t V) (h_remove t V H) (tag_put Index t (- 1) (tag_put Prev t 0 (tag_put Next t 0 s3)))"
    unfolding v_remove_def Let_def V2_def [symmetric] V3_def [symmetric]
    by (intro at_view_put v3 a t)
  moreover have "remove_tag t s = Some (tag_put Index t (- 1) (tag_put Prev t 0 (tag_put Next t 0 s3)))"
  proof -
    have c: "0 \<le> int ?i \<and> int ?i < int MAXEXP" using i by (simp only: of_nat_less_iff of_nat_0_le_iff simp_thms)
    show ?thesis unfolding remove_tag_def x Let_def nat_int if_P [OF c]
      s1_def [symmetric] s2_def [symmetric] s3_def [symmetric] ..
  qed
  ultimately show ?thesis by blast
qed

lemma insert_tag_view:
  assumes v: "at_view T s0 V H s" and a: "tags_apart T" and t: "t \<in> T" and h: "H i \<noteq> 0 \<Longrightarrow> H i \<in> T"
    and i: "8 \<le> i" "i < 32"
    and index: "index = int i \<or> index < 0 \<and> max (getexp (V Real_size t - 32)) 8 = int i"
  shows "\<exists>s'. insert_tag t index s = Some s' \<and> at_view T s0 (v_insert t i H V) (H(i := t)) s'"
proof -
  have r: "(if index < 0 then max (getexp (tag_get Real_size t s - sizeof_tag)) (int MINEXP) else index) = int i"
    using index at_view_get [OF v t, of Real_size] by auto
  define s1 where "s1 = tag_put Index t (of_nat i) s"
  have v1: "at_view T s0 (vput Index t (of_nat i) V) H s1" unfolding s1_def by (intro at_view_put v a t)
  have h1: "l_freePages s1 = H" by (rule at_view_heads_eq [OF v1])
  define s2 where "s2 = (if H i \<noteq> 0 then tag_put Next t (H i) (tag_put Prev (H i) t s1) else s1)"
  have v2: "at_view T s0 (v_insert t i H V) H s2"
    unfolding s2_def v_insert_def Let_def using v1 at_view_put [OF at_view_put [OF v1 a h] a t] by auto
  have "insert_tag t index s = Some (s2\<lparr>l_freePages := (l_freePages s2)(i := t)\<rparr>)"
  proof -
    have c: "int i < int MAXEXP" using i by simp
    show ?thesis unfolding insert_tag_def r Let_def nat_int if_P [OF c] of_int_of_nat_eq
      s1_def [symmetric] h1 s2_def [symmetric] ..
  qed
  then show ?thesis using at_view_heads [OF v2, of "H(i := t)"] at_view_heads_eq [OF v2] by simp
qed

lemma melt_left_view:
  assumes v: "at_view T s0 V H s" and a: "tags_apart T" and t: "t \<in> T" and l: "V Split_left t = l" "l \<in> T" "l \<noteq> t"
    and r: "V Split_right t \<noteq> 0 \<Longrightarrow> V Split_right t \<in> T"
  shows "\<exists>s'. melt_left t s = (l, s') \<and> at_view T s0 (v_merge l t V) H s'"
proof -
  have left: "tag_get Split_left t s = l" using at_view_get [OF v t] l by simp
  define s1 where "s1 = tag_put Real_size l (tag_get Real_size l s + tag_get Real_size t s) s"
  have v1: "at_view T s0 (vput Real_size l (V Real_size l + V Real_size t) V) H s1"
    unfolding s1_def at_view_get [OF v t] at_view_get [OF v l(2)] by (intro at_view_put v a l)
  define s2 where "s2 = tag_put Split_right l (tag_get Split_right t s1) s1"
  define V2 where "V2 = vput Split_right l (V Split_right t) (vput Real_size l (V Real_size l + V Real_size t) V)"
  have v2: "at_view T s0 V2 H s2"
    unfolding s2_def V2_def using at_view_put [OF v1 a l(2)] at_view_get [OF v1 t] by simp
  have f2: "V2 Split_right t = V Split_right t" using l by (simp add: V2_def vput_def)
  define s3 where "s3 = (if tag_get Split_right t s2 \<noteq> 0 then tag_put Split_left (tag_get Split_right t s2) l s2 else s2)"
  have "at_view T s0 (v_merge l t V) H s3"
    unfolding s3_def v_merge_def Let_def V2_def [symmetric]
    using v2 at_view_put [OF v2 a] at_view_get [OF v2 t] r f2 by simp
  moreover have "melt_left t s = (l, s3)"
    unfolding melt_left_def Let_def left s1_def [symmetric] s2_def [symmetric] s3_def [symmetric] ..
  ultimately show ?thesis by blast
qed

lemma absorb_right_view:
  assumes v: "at_view T s0 V H s" and a: "tags_apart T" and t: "t \<in> T"
    and r: "V Split_right t = r" "r \<in> T" "r \<noteq> t" "listed T V H r" and rr: "V Split_right r \<noteq> 0 \<Longrightarrow> V Split_right r \<in> T"
  shows "\<exists>s'. absorb_right t s = Some (t, s') \<and> at_view T s0 (v_merge t r (v_remove r V)) (h_remove r V H) s'"
proof -
  have right: "tag_get Split_right t s = r" using at_view_get [OF v t] r by simp
  from remove_tag_view [OF v a r(2,4)] obtain u where u: "remove_tag r s = Some u"
    "at_view T s0 (v_remove r V) (h_remove r V H) u" by blast
  let ?W = "v_remove r V"
  have w: "?W Real_size = V Real_size" "?W Split_right = V Split_right"
    by (simp_all add: v_remove_other_fields)
  define s1 where "s1 = tag_put Real_size t (tag_get Real_size t u + tag_get Real_size r u) u"
  have v1: "at_view T s0 (vput Real_size t (?W Real_size t + ?W Real_size r) ?W) (h_remove r V H) s1"
    unfolding s1_def at_view_get [OF u(2) t] at_view_get [OF u(2) r(2)] by (intro at_view_put u a t)
  define s2 where "s2 = tag_put Split_right t (tag_get Split_right r s1) s1"
  define V2 where "V2 = vput Split_right t (?W Split_right r) (vput Real_size t (?W Real_size t + ?W Real_size r) ?W)"
  have v2: "at_view T s0 V2 (h_remove r V H) s2"
    unfolding s2_def V2_def using at_view_put [OF v1 a t] at_view_get [OF v1 r(2)] by simp
  have f2: "V2 Split_right r = V Split_right r" using r(3) by (simp add: V2_def w vput_def)
  define s3 where "s3 = (if tag_get Split_right r s2 \<noteq> 0 then tag_put Split_left (tag_get Split_right r s2) t s2 else s2)"
  have "at_view T s0 (v_merge t r ?W) (h_remove r V H) s3"
    unfolding s3_def v_merge_def Let_def V2_def [symmetric]
    using v2 at_view_put [OF v2 a] at_view_get [OF v2 r(2)] rr f2 w by simp
  moreover have "absorb_right t s = Some (t, s3)"
    unfolding absorb_right_def Let_def right u(1) bind.bind_lunit
      s1_def [symmetric] s2_def [symmetric] s3_def [symmetric] ..
  ultimately show ?thesis by blast
qed

section \<open>The whole invariant\<close>

definition heap_inv :: "u32 set \<Rightarrow> view \<Rightarrow> (nat \<Rightarrow> u32) \<Rightarrow> bool" where
  "heap_inv T V H \<longleftrightarrow> chunks T V \<and> splits T V \<and> lists T V H"

lemma heap_inv_parts:
  assumes "heap_inv T V H" shows "chunks T V" "splits T V" "lists T V H" "0 \<notin> T" "finite T"
  using assms by (auto simp: heap_inv_def chunks_def)

lemma chunks_tags_apart:
  assumes "chunks T V" shows "tags_apart T"
  unfolding tags_apart_def
proof (intro ballI impI)
  fix t u
  assume tu: "t \<in> T" "u \<in> T" "t \<noteq> u"
  note t = chunksD [OF assms tu(1)] and u = chunksD [OF assms tu(2)]
  from chunks_apart [OF assms tu] show "apart t 32 u 32"
  proof
    assume "unat t + unat (V Real_size t) \<le> unat u"
    then show ?thesis using t u by (intro apart_ordered) simp_all
  next
    assume "unat u + unat (V Real_size u) \<le> unat t"
    then show ?thesis using t u by (intro apart_sym [OF apart_ordered]) simp_all
  qed
qed

lemma listed_mono: "listed T V H t \<Longrightarrow> T \<subseteq> U \<Longrightarrow> listed U V H t"
  unfolding listed_def by blast

lemma index_sign:
  assumes "lists T V H" "t \<in> T" shows "0 \<le> sint (V Index t) \<longleftrightarrow> is_free V t"
  using assms
proof (cases rule: lists_cases)
  case 1
  then show ?thesis by (simp add: unlisted_def)
next
  case 2
  then have "unat (V Index t) < 2147483648" by (simp add: listed_def)
  then show ?thesis using listed_free [OF 2] by (simp add: sint_nonneg_iff)
qed

lemma heap_inv_remove:
  assumes "heap_inv T V H" "t \<in> T" "is_free V t"
  shows "heap_inv T (v_remove t V) (h_remove t V H)" "unlisted (v_remove t V) t"
    "allocated T (v_remove t V) = insert t (allocated T V)"
proof -
  note p = heap_inv_parts [OF assms(1)]
  show "heap_inv T (v_remove t V) (h_remove t V H)"
    unfolding heap_inv_def using chunks_cong [OF p(1)] splits_cong [OF p(2)] lists_remove [OF p(3) assms(2,3) p(4)]
    by (auto simp: v_remove_other_fields)
  show "unlisted (v_remove t V) t" by (simp add: unlisted_def v_remove_index v_remove_next v_remove_prev)
  show "allocated T (v_remove t V) = insert t (allocated T V)"
    using assms(2) by (auto simp: allocated_def v_remove_index)
qed

lemma heap_inv_merge:
  assumes "heap_inv T V H" "l \<in> T" "V Split_right l = r" "r \<noteq> 0" "unlisted V r"
  shows "heap_inv (T - {r}) (v_merge l r V) H"
  using heap_inv_parts [OF assms(1)] assms chunks_merge splits_merge lists_merge
  unfolding heap_inv_def by blast

lemma heap_inv_insert:
  assumes "heap_inv T V H" "t \<in> T" "unlisted V t" "8 \<le> i" "i < 32"
  shows "heap_inv T (v_insert t i H V) (H(i := t))" "H i \<noteq> 0 \<Longrightarrow> H i \<in> T"
    "allocated T (v_insert t i H V) = allocated T V - {t}"
proof -
  note p = heap_inv_parts [OF assms(1)]
  have other: "v_insert t i H V f = V f" if "f \<notin> {Index, Next, Prev}" for f
    using that by (auto simp: v_insert_def Let_def)
  have "t \<noteq> 0" using assms(2) p(4) by auto
  then have "lists (insert t T) (v_insert t i H V) (H(i := t))"
    using lists_drop [OF p(3) assms(3)] assms(3-5) p(4) by (intro lists_insert) (simp_all add: unlisted_def)
  then show "heap_inv T (v_insert t i H V) (H(i := t))"
    unfolding heap_inv_def insert_absorb [OF assms(2)]
    using chunks_cong [OF p(1)] splits_cong [OF p(2)] by (simp add: other)
  show "H i \<noteq> 0 \<Longrightarrow> H i \<in> T" using p(3) assms(4,5) by (simp add: lists_def)
  have "unat (of_nat i :: u32) = i" using assms(5) by (intro unat_of_nat_u32) simp
  then have "(of_nat i :: u32) \<noteq> - 1" using assms(5) index_listed [of "of_nat i"] by simp
  moreover have "v_insert t i H V Index = (V Index)(t := of_nat i)"
    by (auto simp: v_insert_def vput_def Let_def fun_eq_iff)
  ultimately show "allocated T (v_insert t i H V) = allocated T V - {t}"
    by (auto simp: allocated_def)
qed

text \<open>What a step leaves of the blocks that stay allocated.\<close>

definition keeps :: "u32 set \<Rightarrow> view \<Rightarrow> view \<Rightarrow> bool" where
  "keeps A V W \<longleftrightarrow> (\<forall>x \<in> A. W Size x = V Size x \<and> W Real_size x = V Real_size x)"

lemma keeps_refl [simp]: "keeps A V V"
  by (simp add: keeps_def)

lemma keeps_trans: "keeps A V W \<Longrightarrow> keeps A W X \<Longrightarrow> keeps A V X"
  by (simp add: keeps_def)

lemma keeps_remove: "keeps A V (v_remove t V)"
  by (simp add: keeps_def v_remove_other_fields)

lemma keeps_insert: "keeps A V (v_insert t i H V)"
  by (simp add: keeps_def v_insert_def vput_def Let_def)

lemma keeps_merge: "l \<notin> A \<Longrightarrow> keeps A V (v_merge l r V)"
  by (auto simp: keeps_def v_merge_fields)

text \<open>All blocks end at or below an address.\<close>

definition below :: "nat \<Rightarrow> u32 set \<Rightarrow> view \<Rightarrow> bool" where
  "below b T V \<longleftrightarrow> (\<forall>x \<in> T. unat x + unat (V Real_size x) \<le> b)"

lemma below_remove: "below b T (v_remove t V) = below b T V"
  by (simp add: below_def v_remove_other_fields)

lemma below_insert: "below b T (v_insert t i H V) = below b T V"
  by (simp add: below_def v_insert_def vput_def Let_def)

lemma below_merge:
  assumes "chunks T V" "splits T V" "l \<in> T" "V Split_right l = r" "r \<noteq> 0" "below b T V"
  shows "below b (T - {r}) (v_merge l r V)"
proof -
  note m = merge_size [OF assms(1-5)]
  have "unat r + unat (V Real_size r) \<le> b" using assms(6) m(3) by (simp add: below_def)
  then show ?thesis using assms(6) m(1,4) by (auto simp: below_def v_merge_fields)
qed

text \<open>No two neighbours of a region are both free.\<close>

definition no_free_pair :: "u32 set \<Rightarrow> view \<Rightarrow> bool" where
  "no_free_pair T V \<longleftrightarrow>
     (\<forall>x \<in> T. is_free V x \<and> V Split_right x \<noteq> 0 \<longrightarrow> \<not> is_free V (V Split_right x))"

abbreviation taken_or_none :: "view \<Rightarrow> u32 \<Rightarrow> bool" where
  "taken_or_none V x \<equiv> x = 0 \<or> V Index x = - 1"

lemma no_free_pair_mono:
  "no_free_pair T V \<Longrightarrow> (\<And>x. is_free W x \<Longrightarrow> is_free V x) \<Longrightarrow>
   (\<And>x. x \<in> T' \<Longrightarrow> is_free W x \<Longrightarrow> x \<in> T \<and> W Split_right x = V Split_right x) \<Longrightarrow> no_free_pair T' W"
  unfolding no_free_pair_def by metis

lemma no_free_pair_agree:
  assumes "agree T W V" "splits T V" "no_free_pair T V" shows "no_free_pair T W"
  using assms splitsD(1) [OF assms(2)] by (auto simp: no_free_pair_def agree_def)

lemma no_free_pair_remove: "no_free_pair T V \<Longrightarrow> no_free_pair T (v_remove t V)"
  by (erule no_free_pair_mono) (auto simp: v_remove_other_fields v_remove_index split: if_splits)

lemma no_free_pair_insert:
  assumes "no_free_pair T V" "splits T V" "t \<in> T" "taken_or_none V (V Split_right t)" "taken_or_none V (V Split_left t)"
    "V Split_right t \<noteq> t" "0 \<notin> T"
  shows "no_free_pair T (v_insert t i H V)"
proof -
  let ?W = "v_insert t i H V"
  have W: "?W Index = (V Index)(t := of_nat i)" "?W Split_right = V Split_right"
    by (auto simp: v_insert_def vput_def Let_def fun_eq_iff)
  have "\<not> is_free ?W (V Split_right x)" if x: "x \<in> T" "is_free ?W x" "V Split_right x \<noteq> 0" for x
  proof (cases "x = t")
    case True
    then show ?thesis using x(3) assms(4,6) by (simp add: W)
  next
    case False
    then have "is_free V x" using x(2) by (simp add: W)
    moreover from this have "\<not> is_free V (V Split_right x)" using assms(1) x by (simp add: no_free_pair_def)
    moreover have "V Split_right x \<noteq> t"
      using splitsD(2) [OF assms(2) x(1,3)] assms(5,7) \<open>is_free V x\<close> x(1) by auto
    ultimately show ?thesis by (simp add: W)
  qed
  then show ?thesis by (simp add: no_free_pair_def W)
qed

text \<open>
  A block of \<open>r\<close> bytes with its tag belongs on the list of its class, and every free block is
  filed there: its index is the class of its size.
\<close>

definition list_class :: "u32 \<Rightarrow> nat" where
  "list_class r = nat (max (getexp (r - sizeof_tag)) (int MINEXP))"

definition filed :: "u32 set \<Rightarrow> view \<Rightarrow> bool" where
  "filed T V \<longleftrightarrow> (\<forall>t \<in> T. is_free V t \<longrightarrow> unat (V Index t) = list_class (V Real_size t))"

lemma filed_mono:
  "filed T V \<Longrightarrow> (\<And>x. x \<in> T' \<Longrightarrow> is_free W x \<Longrightarrow> x \<in> T \<and> W Index x = V Index x \<and> W Real_size x = V Real_size x) \<Longrightarrow>
   filed T' W"
  unfolding filed_def by metis

lemma filed_agree: "agree T W V \<Longrightarrow> filed T V \<Longrightarrow> filed T W"
  by (erule filed_mono) (simp add: agree_def)

lemma filed_remove: "filed T V \<Longrightarrow> filed T (v_remove t V)"
  by (erule filed_mono) (auto simp: v_remove_other_fields v_remove_index split: if_splits)

lemma filed_insert:
  assumes "filed T V" "i = list_class (V Real_size t)" "i < 32"
  shows "filed T (v_insert t i H V)"
proof -
  have W: "v_insert t i H V Index = (V Index)(t := of_nat i)" "v_insert t i H V Real_size = V Real_size"
    by (auto simp: v_insert_def vput_def Let_def fun_eq_iff)
  have "unat (of_nat i :: u32) = i" using assms(3) by (intro unat_of_nat_u32) simp
  then show ?thesis using assms(1,2) unfolding filed_def W by auto
qed

section \<open>Coalescing\<close>

text \<open>
  The state of \<^verbatim>\<open>free\<close> while it merges: the block \<open>t\<close> is unlisted, all other allocated blocks are
  as they were.
\<close>

definition coalesced :: "u32 set \<Rightarrow> view \<Rightarrow> u32 \<Rightarrow> u32 set \<Rightarrow> view \<Rightarrow> u32 \<Rightarrow> bool" where
  "coalesced T V t T' V' t' \<longleftrightarrow> T' \<subseteq> T \<and> t' \<in> T' \<and> unlisted V' t'
     \<and> allocated T' V' - {t'} = allocated T V - {t} \<and> keeps (allocated T V - {t}) V V'
     \<and> (\<forall>b. below b T V \<longrightarrow> below b T' V') \<and> (no_free_pair T V \<longrightarrow> no_free_pair T' V')
     \<and> (filed T V \<longrightarrow> filed T' V')"

lemma coalesced_trans:
  "coalesced T V t T' V' t' \<Longrightarrow> coalesced T' V' t' T'' V'' t'' \<Longrightarrow> coalesced T V t T'' V'' t''"
proof -
  assume a: "coalesced T V t T' V' t'" and b: "coalesced T' V' t' T'' V'' t''"
  let ?A = "allocated T V - {t}"
  have "T'' \<subseteq> T" using a b by (auto simp: coalesced_def)
  moreover have "keeps ?A V V'" "keeps ?A V' V''" "allocated T'' V'' - {t''} = ?A"
    using a b by (simp_all add: coalesced_def)
  moreover have "below b T'' V''" if "below b T V" for b using a b that by (simp add: coalesced_def)
  moreover have "no_free_pair T'' V''" if "no_free_pair T V" using a b that by (simp add: coalesced_def)
  moreover have "filed T'' V''" if "filed T V" using a b that by (simp add: coalesced_def)
  ultimately show ?thesis using b keeps_trans by (auto simp: coalesced_def)
qed

lemma coalesce_left:
  assumes I: "heap_inv T V H" and t: "t \<in> T" "unlisted V t" and l: "V Split_left t = l" "l \<noteq> 0" "is_free V l"
  shows "heap_inv (T - {t}) (v_remove l (v_merge l t V)) (h_remove l (v_merge l t V) H)"
    and "coalesced T V t (T - {t}) (v_remove l (v_merge l t V)) l"
    and "l \<in> T" "l \<noteq> t" "listed (T - {t}) (v_merge l t V) H l"
proof -
  note p = heap_inv_parts [OF I]
  show lT: "l \<in> T" and lt: "l \<noteq> t" using splitsD(4) [OF p(2) t(1)] l t(2) by (auto simp: unlisted_def)
  have r: "V Split_right l = t" using splitsD(5) [OF p(2) t(1)] l by simp
  let ?V = "v_merge l t V"
  have "t \<noteq> 0" using t(1) p(4) by auto
  then have I1: "heap_inv (T - {t}) ?V H" using heap_inv_merge [OF I lT r _ t(2)] by simp
  have idx: "?V Index = V Index" by (simp add: v_merge_fields)
  then have f1: "is_free ?V l" using l(3) by simp
  have l1: "l \<in> T - {t}" using lT lt by simp
  show "listed (T - {t}) ?V H l" using free_listed [OF heap_inv_parts(3) [OF I1] l1 f1] .
  show "heap_inv (T - {t}) (v_remove l ?V) (h_remove l ?V H)" by (rule heap_inv_remove(1) [OF I1 l1 f1])
  have "allocated (T - {t}) (v_remove l ?V) - {l} = allocated T V - {t}"
    unfolding heap_inv_remove(3) [OF I1 l1 f1] using l(3) by (auto simp: allocated_def idx)
  moreover have "keeps (allocated T V - {t}) V (v_remove l ?V)"
    using l(3) by (intro keeps_trans [OF keeps_merge keeps_remove]) (simp add: allocated_def)
  moreover have "below b (T - {t}) (v_remove l ?V)" if "below b T V" for b
    unfolding below_remove using below_merge [OF p(1,2) lT r \<open>t \<noteq> 0\<close> that] .
  moreover have "no_free_pair (T - {t}) (v_remove l ?V)" if "no_free_pair T V"
    by (rule no_free_pair_mono [OF that]) (auto simp: v_remove_index v_remove_other_fields v_merge_fields split: if_splits)
  moreover have "filed (T - {t}) (v_remove l ?V)" if "filed T V"
    by (rule filed_mono [OF that]) (auto simp: v_remove_index v_remove_other_fields v_merge_fields split: if_splits)
  ultimately show "coalesced T V t (T - {t}) (v_remove l ?V) l"
    unfolding coalesced_def using l1 heap_inv_remove(2) [OF I1 l1 f1] by blast
qed

lemma coalesce_right:
  assumes I: "heap_inv T V H" and t: "t \<in> T" "unlisted V t" and r: "V Split_right t = r" "r \<noteq> 0" "is_free V r"
  shows "heap_inv (T - {r}) (v_merge t r (v_remove r V)) (h_remove r V H)"
    and "coalesced T V t (T - {r}) (v_merge t r (v_remove r V)) t"
    and "r \<in> T" "r \<noteq> t" "listed T V H r"
proof -
  note p = heap_inv_parts [OF I]
  show rT: "r \<in> T" and rt: "r \<noteq> t" using splitsD(1) [OF p(2) t(1)] r t(2) by (auto simp: unlisted_def)
  show "listed T V H r" by (rule free_listed [OF p(3) rT r(3)])
  let ?V = "v_remove r V"
  note I1 = heap_inv_remove [OF I rT r(3)]
  have sr: "?V Split_right t = r" using r(1) by (simp add: v_remove_other_fields)
  show "heap_inv (T - {r}) (v_merge t r ?V) (h_remove r V H)"
    by (rule heap_inv_merge [OF I1(1) t(1) sr r(2) I1(2)])
  have idx: "v_merge t r ?V Index = (V Index)(r := - 1)" "v_merge t r ?V Next = ?V Next" "v_merge t r ?V Prev = ?V Prev"
    by (simp_all add: v_merge_fields v_remove_index [unfolded fun_upd_def] fun_upd_def)
  have "allocated (T - {r}) (v_merge t r ?V) - {t} = allocated T V - {t}"
    using r(3) by (auto simp: allocated_def idx)
  moreover have "keeps (allocated T V - {t}) V (v_merge t r ?V)"
    by (intro keeps_trans [OF keeps_remove keeps_merge]) simp
  moreover have "unlisted (v_merge t r ?V) t"
  proof -
    have lr: "listed T V H r" by (rule free_listed [OF p(3) rT r(3)])
    have "t \<noteq> V Prev r" "t \<noteq> V Next r" using lr t p(4) listed_free [OF lr] by (auto simp: listed_def unlisted_def)
    then show ?thesis using t(2) rt by (simp add: unlisted_def idx v_remove_next v_remove_prev)
  qed
  moreover have "below b (T - {r}) (v_merge t r ?V)" if "below b T V" for b
    using below_merge [OF heap_inv_parts(1,2) [OF I1(1)] t(1) sr r(2)] that by (simp add: below_remove)
  moreover have "no_free_pair (T - {r}) (v_merge t r ?V)" if "no_free_pair T V"
    by (rule no_free_pair_mono [OF that])
      (use t(2) in \<open>auto simp: unlisted_def v_remove_other_fields idx v_merge_fields split: if_splits\<close>)
  moreover have "filed (T - {r}) (v_merge t r ?V)" if "filed T V"
    by (rule filed_mono [OF that])
      (use t(2) in \<open>auto simp: unlisted_def v_remove_other_fields idx v_merge_fields split: if_splits\<close>)
  ultimately show "coalesced T V t (T - {r}) (v_merge t r ?V) t"
    unfolding coalesced_def using t(1) rt by blast
qed

text \<open>Both merging loops end, keep the invariant, and leave no free neighbour on their side.\<close>

lemma melt_loop_spec:
  assumes "heap_inv T V H" "t \<in> T" "unlisted V t" "T \<subseteq> T0" "tags_apart T0" "at_view T0 s0 V H s"
  shows "\<exists>t' s' T' V' H'. melt_loop t s = Some (t', s') \<and> at_view T0 s0 V' H' s' \<and> heap_inv T' V' H'
    \<and> coalesced T V t T' V' t' \<and> (V' Split_left t' = 0 \<or> V' Index (V' Split_left t') = - 1)"
  using assms
proof (induction "card T" arbitrary: T V H t s rule: less_induct)
  case less
  note p = heap_inv_parts [OF less.prems(1)]
  have tT0: "t \<in> T0" using less.prems(2,4) by auto
  let ?l = "V Split_left t"
  have left: "tag_get Split_left t s = ?l" by (rule at_view_get [OF less.prems(6) tT0])
  show ?case
  proof (cases "?l \<noteq> 0 \<and> is_free V ?l")
    case True
    have lT: "?l \<in> T" using splitsD(4) [OF p(2) less.prems(2)] True by simp
    then have lT0: "?l \<in> T0" using less.prems(4) by auto
    have sign: "0 \<le> sint (tag_get Index ?l s)"
      using at_view_get [OF less.prems(6) lT0] index_sign [OF p(3) lT] True by simp
    let ?V1 = "v_merge ?l t V" and ?T1 = "T - {t}"
    let ?V2 = "v_remove ?l ?V1" and ?H2 = "h_remove ?l ?V1 H"
    have step: "heap_inv ?T1 ?V2 ?H2" "coalesced T V t ?T1 ?V2 ?l" "?l \<noteq> t" "listed ?T1 ?V1 H ?l"
      using coalesce_left [OF less.prems(1-3)] True by auto
    have rT0: "V Split_right t \<in> T0" if "V Split_right t \<noteq> 0"
      using splitsD(1) [OF p(2) less.prems(2) that] less.prems(4) by auto
    obtain s1 where s1: "melt_left t s = (?l, s1)" "at_view T0 s0 ?V1 H s1"
      using melt_left_view [OF less.prems(6,5) tT0 refl lT0 step(3) rT0] by blast
    obtain s2 where s2: "remove_tag ?l s1 = Some s2" "at_view T0 s0 ?V2 ?H2 s2"
      using remove_tag_view [OF s1(2) less.prems(5) lT0 listed_mono [OF step(4)]] less.prems(4) by blast
    have "card ?T1 < card T" using p(5) less.prems(2) by (rule card_Diff1_less)
    moreover have "?l \<in> ?T1" "unlisted ?V2 ?l" "?T1 \<subseteq> T0"
      using step(2) less.prems(4) by (auto simp: coalesced_def)
    ultimately obtain t' s' T' V' H' where r: "melt_loop ?l s2 = Some (t', s')" "at_view T0 s0 V' H' s'"
      "heap_inv T' V' H'" "coalesced ?T1 ?V2 ?l T' V' t'" "V' Split_left t' = 0 \<or> V' Index (V' Split_left t') = - 1"
      using less.hyps [OF _ step(1) _ _ _ less.prems(5) s2(2)] by blast
    have "melt_loop t s = Some (t', s')"
      unfolding melt_loop.simps [of t s] left using sign True s1(1) s2(1) r(1) by simp
    then show ?thesis using r coalesced_trans [OF step(2) r(4)] by blast
  next
    case False
    have c: "\<not> (?l \<noteq> 0 \<and> 0 \<le> sint (tag_get Index ?l s))"
    proof
      assume c: "?l \<noteq> 0 \<and> 0 \<le> sint (tag_get Index ?l s)"
      then have lT: "?l \<in> T" using splitsD(4) [OF p(2) less.prems(2)] by simp
      then have "?l \<in> T0" using less.prems(4) by auto
      then show False
        using c at_view_get [OF less.prems(6)] index_sign [OF p(3) lT] False by simp
    qed
    have "melt_loop t s = Some (t, s)" unfolding melt_loop.simps [of t s] left if_not_P [OF c] ..
    moreover have "coalesced T V t T V t" using less.prems(2,3) by (simp add: coalesced_def)
    ultimately show ?thesis using less.prems False by blast
  qed
qed

lemma absorb_loop_spec:
  assumes "heap_inv T V H" "t \<in> T" "unlisted V t" "T \<subseteq> T0" "tags_apart T0" "at_view T0 s0 V H s"
  shows "\<exists>s' T' V' H'. absorb_loop t s = Some (t, s') \<and> at_view T0 s0 V' H' s' \<and> heap_inv T' V' H'
    \<and> coalesced T V t T' V' t \<and> (V' Split_right t = 0 \<or> V' Index (V' Split_right t) = - 1)
    \<and> V' Split_left t = V Split_left t"
  using assms
proof (induction "card T" arbitrary: T V H s rule: less_induct)
  case less
  note p = heap_inv_parts [OF less.prems(1)]
  have tT0: "t \<in> T0" using less.prems(2,4) by auto
  let ?r = "V Split_right t"
  have right: "tag_get Split_right t s = ?r" by (rule at_view_get [OF less.prems(6) tT0])
  show ?case
  proof (cases "?r \<noteq> 0 \<and> is_free V ?r")
    case True
    have rT: "?r \<in> T" using splitsD(1) [OF p(2) less.prems(2)] True by simp
    then have rT0: "?r \<in> T0" using less.prems(4) by auto
    have sign: "0 \<le> sint (tag_get Index ?r s)"
      using at_view_get [OF less.prems(6) rT0] index_sign [OF p(3) rT] True by simp
    let ?T1 = "T - {?r}" and ?V1 = "v_merge t ?r (v_remove ?r V)" and ?H1 = "h_remove ?r V H"
    have step: "heap_inv ?T1 ?V1 ?H1" "coalesced T V t ?T1 ?V1 t" "?r \<noteq> t" "listed T V H ?r"
      using coalesce_right [OF less.prems(1-3)] True by auto
    have rrT0: "V Split_right ?r \<in> T0" if "V Split_right ?r \<noteq> 0"
      using splitsD(1) [OF p(2) rT that] less.prems(4) by auto
    obtain s1 where s1: "absorb_right t s = Some (t, s1)" "at_view T0 s0 ?V1 ?H1 s1"
      using absorb_right_view [OF less.prems(6,5) tT0 refl rT0 step(3) listed_mono [OF step(4) less.prems(4)] rrT0]
      by blast
    have sl: "?V1 Split_left t = V Split_left t"
    proof -
      have "V Split_right ?r \<noteq> t" if "V Split_right ?r \<noteq> 0"
        using splitsD(3) [OF p(2) rT that] splitsD(3) [OF p(2) less.prems(2)] True chunksD(2) [OF p(1) rT] by auto
      then show ?thesis by (auto simp: v_merge_fields v_remove_other_fields)
    qed
    have "card ?T1 < card T" using p(5) rT by (rule card_Diff1_less)
    moreover have "t \<in> ?T1" "unlisted ?V1 t" "?T1 \<subseteq> T0"
      using step(2) less.prems(4) by (auto simp: coalesced_def)
    ultimately obtain s' T' V' H' where r: "absorb_loop t s1 = Some (t, s')" "at_view T0 s0 V' H' s'"
      "heap_inv T' V' H'" "coalesced ?T1 ?V1 t T' V' t" "V' Split_right t = 0 \<or> V' Index (V' Split_right t) = - 1"
      "V' Split_left t = ?V1 Split_left t"
      using less.hyps [OF _ step(1) _ _ _ less.prems(5) s1(2)] by blast
    have "absorb_loop t s = Some (t, s')"
      unfolding absorb_loop.simps [of t s] right using sign True s1(1) r(1) by simp
    then show ?thesis using r coalesced_trans [OF step(2) r(4)] sl by metis
  next
    case False
    have c: "\<not> (?r \<noteq> 0 \<and> 0 \<le> sint (tag_get Index ?r s))"
    proof
      assume c: "?r \<noteq> 0 \<and> 0 \<le> sint (tag_get Index ?r s)"
      then have rT: "?r \<in> T" using splitsD(1) [OF p(2) less.prems(2)] by simp
      then have "?r \<in> T0" using less.prems(4) by auto
      then show False
        using c at_view_get [OF less.prems(6)] index_sign [OF p(3) rT] False by simp
    qed
    have "absorb_loop t s = Some (t, s)" unfolding absorb_loop.simps [of t s] right if_not_P [OF c] ..
    moreover have "coalesced T V t T V t" using less.prems(2,3) by (simp add: coalesced_def)
    ultimately show ?thesis using less.prems False by blast
  qed
qed

section \<open>Searching a list\<close>

text \<open>
  The search ends: the visited tags \<open>W\<close> are closed under the back links, so the next tag is a
  new one.
\<close>

lemma find_tag_from:
  assumes "lists T V H" "0 \<notin> T" "finite T" "\<And>f x. x \<in> T \<Longrightarrow> tag_get f x s = V f x"
    "W \<subseteq> T" "\<And>w. w \<in> W \<Longrightarrow> V Prev w = 0 \<or> V Prev w \<in> W" "t \<notin> W"
    "t = 0 \<or> t \<in> T \<and> listed T V H t \<and> (V Prev t = 0 \<or> V Prev t \<in> W)"
  shows "\<exists>r. find_tag n t s = Some r \<and> (r = 0 \<or> r \<in> T \<and> is_free V r \<and> n + 32 \<le> V Real_size r - 32)"
  using assms(5-8)
proof (induction "card (T - W)" arbitrary: W t rule: less_induct)
  case less
  show ?case
  proof (cases "t = 0")
    case True
    then show ?thesis by (simp add: find_tag.simps)
  next
    case False
    then have t: "t \<in> T" "listed T V H t" "V Prev t = 0 \<or> V Prev t \<in> W" using less.prems(4) by auto
    show ?thesis
    proof (cases "n + 32 \<le> V Real_size t - 32")
      case True
      then have "find_tag n t s = Some t" using False assms(4) [OF t(1)] by (simp add: find_tag.simps [of n t])
      then show ?thesis using t True listed_free [OF t(2)] by blast
    next
      case no: False
      then have step: "find_tag n t s = find_tag n (V Next t) s"
        using False assms(4) [OF t(1)] by (simp add: find_tag.simps [of n t])
      let ?W = "insert t W"
      have "\<exists>r. find_tag n (V Next t) s = Some r \<and> (r = 0 \<or> r \<in> T \<and> is_free V r \<and> n + 32 \<le> V Real_size r - 32)"
      proof (rule less.hyps)
        have "T - ?W \<subset> T - W" using t(1) less.prems(3) by blast
        then show "card (T - ?W) < card (T - W)" using assms(3) by (intro psubset_card_mono) auto
        show "?W \<subseteq> T" using less.prems(1) t(1) by simp
        show "V Prev w = 0 \<or> V Prev w \<in> ?W" if "w \<in> ?W" for w using that less.prems(2) t(3) by auto
        show "V Next t \<notin> ?W"
          using t(2,3) less.prems(1-3) False assms(2) unfolding listed_def by (metis insert_iff subset_iff)
        show "V Next t = 0 \<or> V Next t \<in> T \<and> listed T V H (V Next t) \<and> (V Prev (V Next t) = 0 \<or> V Prev (V Next t) \<in> ?W)"
        proof (cases "V Next t = 0")
          case nz: False
          then have b: "V Next t \<in> T" "V Index (V Next t) = V Index t" "V Prev (V Next t) = t"
            using t(2) by (simp_all add: listed_def)
          then have "is_free V (V Next t)" using listed_free [OF t(2)] by simp
          then show ?thesis using b free_listed [OF assms(1) b(1)] by simp
        qed simp
      qed
      then show ?thesis unfolding step .
    qed
  qed
qed

lemma find_tag_spec:
  assumes "heap_inv T (view s) H" "8 \<le> i" "i < 32"
  shows "\<exists>r. find_tag n (H i) s = Some r \<and>
    (r = 0 \<or> r \<in> T \<and> is_free (view s) r \<and> n + 32 \<le> view s Real_size r - 32)"
proof -
  note p = heap_inv_parts [OF assms(1)]
  show ?thesis
  proof (rule find_tag_from [OF p(3,4,5), where W = "{}"])
    show "H i = 0 \<or> H i \<in> T \<and> listed T (view s) H (H i) \<and> (view s Prev (H i) = 0 \<or> view s Prev (H i) \<in> {})"
    proof (cases "H i = 0")
      case False
      then have h: "H i \<in> T" "unat (view s Index (H i)) = i" "view s Prev (H i) = 0"
        using p(3) assms(2,3) by (simp_all add: lists_def)
      then have "is_free (view s) (H i)" using index_listed [of "view s Index (H i)"] assms(3) by auto
      then show ?thesis using h free_listed [OF p(3) h(1)] by simp
    qed simp
  qed (simp_all add: view_def)
qed

section \<open>Splitting\<close>

lemma list_index: "\<exists>i. max (getexp n) 8 = int i \<and> 8 \<le> i \<and> i < 32"
proof -
  from getexp_range [of n] show ?thesis
  proof
    assume "getexp n = - 1"
    then show ?thesis by (intro exI [of _ 8]) simp
  next
    assume "\<exists>k. getexp n = int k \<and> 8 \<le> k \<and> k < 32"
    then obtain k where "getexp n = int k" "8 \<le> k" "k < 32" by blast
    then show ?thesis by (intro exI [of _ k]) simp
  qed
qed

definition v_split :: "u32 \<Rightarrow> u32 \<Rightarrow> view \<Rightarrow> view" where
  "v_split t a V =
     (let rem = V Real_size t - 32 - V Size t;
          V' = vput Split_right a (V Split_right t) (vput Split_left a t (vput Prev a 0 (vput Next a 0
                 (vput Real_size a rem (vput Magic a LIBALLOC_MAGIC V)))));
          V' = (if V Split_right t \<noteq> 0 then vput Split_left (V Split_right t) a V' else V')
      in vput Real_size t (V Real_size t - rem) (vput Split_right t a V'))"

lemma v_split_fields:
  assumes "a \<noteq> t"
  shows "v_split t a V Magic = (V Magic)(a := LIBALLOC_MAGIC)"
    "v_split t a V Real_size = (V Real_size)(a := V Real_size t - 32 - V Size t, t := 32 + V Size t)"
    "v_split t a V Next = (V Next)(a := 0)" "v_split t a V Prev = (V Prev)(a := 0)"
    "v_split t a V Split_right = (V Split_right)(a := V Split_right t, t := a)"
    "v_split t a V Split_left = (if V Split_right t \<noteq> 0 then (V Split_left)(a := t, V Split_right t := a)
       else (V Split_left)(a := t))"
    "v_split t a V Index = V Index" "v_split t a V Size = V Size"
  using assms by (auto simp: v_split_def vput_def Let_def fun_eq_iff)

text \<open>The numbers of a split: the new tag lies in the block, behind the request.\<close>

lemma split_numbers:
  assumes c: "chunks T V" and t: "t \<in> T" and n: "unat (V Size t) + 64 \<le> unat (V Real_size t)"
  defines "a \<equiv> t + 32 + V Size t"
  shows "unat a = unat t + 32 + unat (V Size t)" "unat (V Real_size t - 32 - V Size t) = unat (V Real_size t) - 32 - unat (V Size t)"
    "unat (32 + V Size t) = 32 + unat (V Size t)" "a \<notin> T" "a \<noteq> 0" "a \<noteq> t"
proof -
  note d = chunksD [OF c t]
  have e: "unat (t + 32) = unat t + 32" using d n by (subst unat_plus_u32) simp_all
  show ua: "unat a = unat t + 32 + unat (V Size t)"
    unfolding a_def using d n e by (subst unat_plus_u32) simp_all
  show "unat (32 + V Size t) = 32 + unat (V Size t)" using d n by (subst unat_plus_u32) simp_all
  have "unat (V Real_size t - 32) = unat (V Real_size t) - 32" using n by (subst unat_minus_u32) (simp_all add: word_le_nat_alt)
  then show "unat (V Real_size t - 32 - V Size t) = unat (V Real_size t) - 32 - unat (V Size t)"
    using n by (subst unat_minus_u32) (simp_all add: word_le_nat_alt)
  show "a \<noteq> 0" "a \<noteq> t" using ua by auto
  show "a \<notin> T"
  proof
    assume aT: "a \<in> T"
    have "t \<noteq> a" using ua by auto
    from chunks_apart [OF c t aT this] chunksD(2) [OF c aT] show False using ua n by auto
  qed
qed

lemma chunks_split:
  assumes c: "chunks T V" and t: "t \<in> T" and n: "unat (V Size t) + 64 \<le> unat (V Real_size t)"
  defines "a \<equiv> t + 32 + V Size t"
  shows "chunks (insert a T) (v_split t a V)"
proof -
  note s = split_numbers [OF c t n, folded a_def]
  note d = chunksD [OF c t]
  note f = v_split_fields [OF s(6), of V]
  let ?R = "\<lambda>x. unat (v_split t a V Real_size x)"
  have ra: "?R a = unat (V Real_size t) - 32 - unat (V Size t)" "?R t = 32 + unat (V Size t)"
    using s by (simp_all add: f)
  have rx: "?R x = unat (V Real_size x)" if "x \<in> T" "x \<noteq> t" for x using that s(4) by (auto simp: f)
  have other: "unat t + unat (V Real_size t) \<le> unat x \<or> unat x + ?R x \<le> unat t" if "x \<in> T" "x \<noteq> t" for x
    using chunks_apart [OF c t that(1)] that rx by auto
  have fin: "finite (insert a T)" using c by (simp add: chunks_def)
  have each: "x \<noteq> 0 \<and> v_split t a V Magic x = LIBALLOC_MAGIC \<and> 32 \<le> ?R x \<and> unat x + ?R x \<le> 4294967296"
    if x: "x \<in> insert a T" for x
  proof -
    consider "x = a" | "x = t" | "x \<in> T" "x \<noteq> t" "x \<noteq> a" using x by auto
    then show ?thesis
    proof cases
      case 1
      then show ?thesis using s d n ra by (simp add: f)
    next
      case 2
      then show ?thesis using d n ra s(6) by (simp add: f)
    next
      case 3
      then show ?thesis using chunksD [OF c 3(1)] rx [OF 3(1,2)] by (simp add: f)
    qed
  qed
  have pair: "unat x + ?R x \<le> unat y \<or> unat y + ?R y \<le> unat x" if x: "x \<in> insert a T" "y \<in> insert a T" "x \<noteq> y" for x y
  proof -
    have A: "unat a + ?R a \<le> unat z \<or> unat z + ?R z \<le> unat a" if "z \<in> T" for z
      using other [of z] that ra s(1) n by (cases "z = t") auto
    have B: "unat t + ?R t \<le> unat z \<or> unat z + ?R z \<le> unat t" if "z \<in> T" "z \<noteq> t" for z
      using other [OF that] ra n by auto
    consider "x = a" "y \<in> T" | "y = a" "x \<in> T" | "x = t" "y \<in> T" | "y = t" "x \<in> T" | "x \<in> T" "y \<in> T" "x \<noteq> t" "y \<noteq> t"
      using x by auto
    then show ?thesis
    proof cases
      case 5
      then show ?thesis using chunks_apart [OF c 5(1,2) x(3)] rx by auto
    qed (use A [of x] A [of y] B [of x] B [of y] x(3) in auto)
  qed
  show ?thesis unfolding chunks_def using fin each pair by blast
qed

lemma splits_split:
  assumes c: "chunks T V" and p: "splits T V" and t: "t \<in> T" and n: "unat (V Size t) + 64 \<le> unat (V Real_size t)"
  defines "a \<equiv> t + 32 + V Size t"
  shows "splits (insert a T) (v_split t a V)"
proof -
  note s = split_numbers [OF c t n, folded a_def]
  note f = v_split_fields [OF s(6), of V]
  note st = splitsD [OF p t]
  let ?W = "v_split t a V"
  have nz: "0 \<notin> T" using c by (auto simp: chunks_def)
  have sr: "V Split_right t \<noteq> t" if "V Split_right t \<noteq> 0" using st(3) [OF that] n by auto
  have na: "split_node (insert a T) ?W a"
    unfolding split_node_def using st s n sr t by (auto simp: f)
  have "t \<noteq> 0" using t nz by auto
  then have sl: "V Split_left t \<noteq> t" using st(5) sr by auto
  have nt: "split_node (insert a T) ?W t"
    unfolding split_node_def using st s sr sl by (auto simp: f)
  have nx: "split_node (insert a T) ?W x" if x: "x \<in> T" "x \<noteq> t" for x
  proof -
    note sx = splitsD [OF p x(1)]
    have xa: "x \<noteq> a" using x(1) s(4) by auto
    have right: "?W Split_right x \<in> insert a T \<and> ?W Split_left (?W Split_right x) = x
        \<and> unat (?W Split_right x) = unat x + unat (?W Real_size x)" if y: "?W Split_right x \<noteq> 0"
    proof -
      have e: "?W Split_right x = V Split_right x" "V Split_right x \<noteq> 0" using y x(2) xa by (simp_all add: f)
      have "V Split_right x \<noteq> a" using sx(1) [OF e(2)] s(4) by auto
      moreover have "V Split_right x \<noteq> V Split_right t" using sx(2) [OF e(2)] st(2) e(2) x(2) by auto
      ultimately show ?thesis using sx(1-3) [OF e(2)] e x(2) xa by (simp add: f)
    qed
    have left: "?W Split_left x \<in> insert a T \<and> ?W Split_right (?W Split_left x) = x" if y: "?W Split_left x \<noteq> 0"
    proof (cases "x = V Split_right t")
      case True
      then have "V Split_right t \<noteq> 0" using x(1) nz by auto
      then show ?thesis using True s(6) by (simp add: f)
    next
      case False
      then have e: "?W Split_left x = V Split_left x" "V Split_left x \<noteq> 0" using y xa by (auto simp: f split: if_splits)
      have "V Split_left x \<noteq> a" "V Split_left x \<noteq> t" using sx(4,5) [OF e(2)] s(4) False by auto
      then show ?thesis using sx(4,5) [OF e(2)] e by (simp add: f)
    qed
    show ?thesis unfolding split_node_def using left right by blast
  qed
  show ?thesis unfolding splits_def using na nt nx by blast
qed

text \<open>The header of the new tag is apart from the others before it is written.\<close>

lemma split_tags_apart:
  assumes c: "chunks T V" and t: "t \<in> T" and n: "unat (V Size t) + 64 \<le> unat (V Real_size t)"
  shows "tags_apart (insert (t + 32 + V Size t) T)"
  by (rule chunks_tags_apart [OF chunks_split [OF c t n]])

lemma split_tag_view:
  assumes I: "heap_inv T (view s) H" and H: "l_freePages s = H" and t: "t \<in> T"
    and n: "unat (view s Size t) + 64 \<le> unat (view s Real_size t)"
  defines "a \<equiv> t + 32 + view s Size t"
  shows "\<exists>s' i. split_tag t s = Some (a, s') \<and> 8 \<le> i \<and> i < 32
    \<and> i = list_class (view s Real_size t - 32 - view s Size t)
    \<and> at_view (insert a T) s (v_insert a i H (v_split t a (view s))) (H(i := a)) s'"
proof -
  let ?T = "insert a T" and ?V = "view s"
  note p = heap_inv_parts [OF I]
  have A: "tags_apart ?T" unfolding a_def by (rule split_tags_apart [OF p(1) t n])
  note num = split_numbers [OF p(1) t n, folded a_def]
  have aT: "a \<in> ?T" and tT: "t \<in> ?T" using t by simp_all
  have v0: "at_view ?T s ?V H s" using at_view_start [of ?T s] H by simp
  let ?rem = "?V Real_size t - 32 - ?V Size t"
  have rd: "tag_get Real_size t s - sizeof_tag - tag_get Size t s = ?rem" "t + sizeof_tag + tag_get Size t s = a"
    by (simp_all add: view_def a_def)
  define s5 where "s5 = tag_put Split_left a t (tag_put Prev a 0 (tag_put Next a 0
     (tag_put Real_size a ?rem (tag_put Magic a LIBALLOC_MAGIC s))))"
  define V5 where "V5 = vput Split_left a t (vput Prev a 0 (vput Next a 0
     (vput Real_size a ?rem (vput Magic a LIBALLOC_MAGIC ?V))))"
  have v5: "at_view ?T s V5 H s5" unfolding s5_def V5_def by (intro at_view_put v0 A aT)
  define s6 where "s6 = tag_put Split_right a (tag_get Split_right t s5) s5"
  define V6 where "V6 = vput Split_right a (?V Split_right t) V5"
  have "V5 Split_right t = ?V Split_right t" by (simp add: V5_def)
  then have v6: "at_view ?T s V6 H s6"
    unfolding s6_def V6_def using at_view_put [OF v5 A aT] at_view_get [OF v5 tT] by simp
  have g6: "tag_get Split_right a s6 = ?V Split_right t" using at_view_get [OF v6 aT] by (simp add: V6_def)
  define s7 where "s7 = (if tag_get Split_right a s6 \<noteq> 0 then tag_put Split_left (tag_get Split_right a s6) a s6 else s6)"
  define V7 where "V7 = (if ?V Split_right t \<noteq> 0 then vput Split_left (?V Split_right t) a V6 else V6)"
  have "?V Split_right t \<in> ?T" if "?V Split_right t \<noteq> 0" using splitsD(1) [OF p(2) t that] by simp
  then have v7: "at_view ?T s V7 H s7" unfolding s7_def V7_def g6 using v6 at_view_put [OF v6 A] by simp
  define s8 where "s8 = tag_put Split_right t a s7"
  have v8: "at_view ?T s (vput Split_right t a V7) H s8" unfolding s8_def by (intro at_view_put v7 A tT)
  define s9 where "s9 = tag_put Real_size t (tag_get Real_size t s8 - tag_get Real_size a s8) s8"
  have g8: "tag_get Real_size t s8 = ?V Real_size t" "tag_get Real_size a s8 = ?rem"
    using at_view_get [OF v8 tT, of Real_size] at_view_get [OF v8 aT, of Real_size] num(6)
    by (simp_all add: V7_def V6_def V5_def vput_def)
  let ?W = "v_split t a ?V"
  have v9: "at_view ?T s ?W H s9"
    using at_view_put [OF v8 A tT, of Real_size "?V Real_size t - ?rem"]
    unfolding s9_def g8 v_split_def Let_def V7_def V6_def V5_def .
  obtain i where i: "max (getexp (?W Real_size a - 32)) 8 = int i" "8 \<le> i" "i < 32" using list_index by blast
  have hT: "H i \<noteq> 0 \<Longrightarrow> H i \<in> ?T" using p(3) i(2,3) by (simp add: lists_def)
  obtain s' where s': "insert_tag a (- 1) s9 = Some s'" "at_view ?T s (v_insert a i H ?W) (H(i := a)) s'"
    using insert_tag_view [OF v9 A aT hT i(2,3), of "- 1"] i(1) by auto
  have "split_tag t s = Some (a, s')"
    unfolding split_tag_def Let_def rd s5_def [symmetric] s6_def [symmetric] s7_def [symmetric]
      s8_def [symmetric] s9_def [symmetric] s'(1) bind.bind_lunit ..
  moreover have "i = list_class ?rem"
    using i(1) v_split_fields(2) [OF num(6), of ?V] num(6) by (simp add: list_class_def)
  ultimately show ?thesis using s'(2) i(2,3) by blast
qed

lemma heap_inv_split:
  assumes I: "heap_inv T V H" and t: "t \<in> T" and n: "unat (V Size t) + 64 \<le> unat (V Real_size t)"
    and i: "8 \<le> i" "i < 32"
  defines "a \<equiv> t + 32 + V Size t"
  shows "heap_inv (insert a T) (v_insert a i H (v_split t a V)) (H(i := a))"
    "allocated (insert a T) (v_insert a i H (v_split t a V)) = allocated T V"
    "keeps (T - {t}) V (v_insert a i H (v_split t a V))"
    "v_insert a i H (v_split t a V) Size t = V Size t" "v_insert a i H (v_split t a V) Real_size t = 32 + V Size t"
    "v_insert a i H (v_split t a V) Real_size a = V Real_size t - 32 - V Size t"
proof -
  note p = heap_inv_parts [OF I]
  note num = split_numbers [OF p(1) t n, folded a_def]
  note f = v_split_fields [OF num(6), of V]
  let ?S = "v_split t a V"
  let ?W = "v_insert a i H ?S"
  have other: "?W g = ?S g" if "g \<notin> {Index, Next, Prev}" for g
    using that by (auto simp: v_insert_def Let_def)
  have idx: "?W Index = (V Index)(a := of_nat i)"
    by (auto simp: v_insert_def vput_def Let_def fun_eq_iff f)
  have Ta: "T - {a} = T" using num(4) by simp
  have L: "lists (T - {a}) ?S H" unfolding Ta
    by (rule lists_cong [OF p(3)]) (use num(4) in \<open>auto simp: f\<close>)
  then have "lists (insert a T) ?W (H(i := a))"
    using i num(5) p(4) by (intro lists_insert) (simp_all add: f)
  moreover have "chunks (insert a T) ?W"
    by (rule chunks_cong [OF chunks_split [OF p(1) t n, folded a_def]]) (simp add: other)
  moreover have "splits (insert a T) ?W"
    by (rule splits_cong [OF splits_split [OF p(1,2) t n, folded a_def]]) (simp add: other)
  ultimately show "heap_inv (insert a T) ?W (H(i := a))" by (simp add: heap_inv_def)
  have "unat (of_nat i :: u32) = i" using i by (intro unat_of_nat_u32) simp
  then have "(of_nat i :: u32) \<noteq> - 1" using i index_listed [of "of_nat i"] by simp
  then show "allocated (insert a T) ?W = allocated T V" using num(4) by (auto simp: allocated_def idx)
  show "keeps (T - {t}) V ?W" using num(4) by (auto simp: keeps_def other f)
  show "?W Size t = V Size t" "?W Real_size t = 32 + V Size t" "?W Real_size a = V Real_size t - 32 - V Size t"
    using num(6) by (simp_all add: other f)
qed

lemma filed_split:
  assumes F: "filed T V" and t: "V Index t = - 1" "a \<noteq> t"
    and i: "i = list_class (V Real_size t - 32 - V Size t)" "i < 32"
  shows "filed (insert a T) (v_insert a i H (v_split t a V))"
proof -
  note f = v_split_fields [OF t(2), of V]
  let ?W = "v_insert a i H (v_split t a V)"
  have W: "?W Index = (V Index)(a := of_nat i)" "?W Real_size = v_split t a V Real_size"
    by (auto simp: v_insert_def vput_def Let_def fun_eq_iff f)
  have "unat (of_nat i :: u32) = i" using i(2) by (intro unat_of_nat_u32) simp
  then show ?thesis using F t i(1) unfolding filed_def W f by auto
qed

text \<open>The tag that a split makes is the only new free one, and its right neighbour is that of the block.\<close>

lemma no_free_pair_split:
  assumes N: "no_free_pair T V" and I: "heap_inv T V H" and t: "t \<in> T" "V Index t = - 1" "taken_or_none V (V Split_right t)"
    and n: "unat (V Size t) + 64 \<le> unat (V Real_size t)"
  defines "a \<equiv> t + 32 + V Size t"
  shows "no_free_pair (insert a T) (v_insert a i H (v_split t a V))"
proof -
  note p = heap_inv_parts [OF I]
  note num = split_numbers [OF p(1) t(1) n, folded a_def]
  note f = v_split_fields [OF num(6), of V]
  let ?W = "v_insert a i H (v_split t a V)"
  have W: "?W Index = (V Index)(a := of_nat i)" "?W Split_right = (V Split_right)(a := V Split_right t, t := a)"
    by (auto simp: v_insert_def vput_def Let_def fun_eq_iff f)
  have inT: "V Split_right x \<in> T" if "x \<in> T" "V Split_right x \<noteq> 0" for x
    using splitsD(1) [OF p(2) that] .
  have "\<not> is_free ?W (?W Split_right x)" if x: "x \<in> insert a T" "is_free ?W x" "?W Split_right x \<noteq> 0" for x
  proof (cases "x = a")
    case True
    then show ?thesis using x(3) t inT [OF t(1)] num(4,6) by (auto simp: W)
  next
    case False
    then have "x \<in> T" "x \<noteq> t" "is_free V x" "V Split_right x \<noteq> 0" using x t(2) by (auto simp: W split: if_splits)
    moreover from this have "\<not> is_free V (V Split_right x)" using N by (simp add: no_free_pair_def)
    ultimately show ?thesis using inT [of x] num(4) False by (auto simp: W)
  qed
  then show ?thesis by (simp add: no_free_pair_def)
qed

end
