(* ===== verification/Liballoc_Spec.thy ===== *)
theory Liballoc_Spec
  imports Liballoc_Heap
begin

text \<open>
  What \<^verbatim>\<open>malloc\<close> and \<^verbatim>\<open>free\<close> promise, over the interfaces they rely on.

  The locale \<open>lock_hooks\<close> states what the allocator needs of its lock hooks, and \<open>page_source\<close>
  adds what it needs of the page hook: a granted request starts at the break, raises it by the
  size of the pages and leaves the heap's own data alone.  The specifications are proved once
  under these contracts and then read off for the hooks of \<^verbatim>\<open>rise.c\<close>, which satisfy them.
\<close>

section \<open>Freeing\<close>

text \<open>The fields that the allocator itself keeps and reads.\<close>

definition heap_same :: "'a liballoc_scheme \<Rightarrow> 'a liballoc_scheme \<Rightarrow> bool" where
  "heap_same s s' \<longleftrightarrow> mem s' = mem s \<and> l_freePages s' = l_freePages s
     \<and> l_completePages s' = l_completePages s \<and> l_initialized s' = l_initialized s"

lemma heap_same_view: "heap_same s s' \<Longrightarrow> view s' = view s"
  by (simp add: heap_same_def view_def tag_get_def)

lemma agree_keeps: "agree T V W \<Longrightarrow> A \<subseteq> T \<Longrightarrow> keeps A X W \<Longrightarrow> keeps A X V"
  unfolding agree_def keeps_def by (metis subset_iff)

lemma agree_allocated: "agree T V W \<Longrightarrow> allocated T V = allocated T W"
  by (auto simp: agree_def allocated_def)

lemma agree_heap_inv: "agree T V W \<Longrightarrow> heap_inv T W H \<Longrightarrow> heap_inv T V H"
  unfolding heap_inv_def agree_def by (auto intro: chunks_cong splits_cong lists_cong)

text \<open>Merging a block with its free neighbours, to the left and then to the right.\<close>

lemma merge_spec:
  assumes I: "heap_inv T (view s) (l_freePages s)" and t: "t \<in> T" "unlisted (view s) t"
  shows "\<exists>u s2 s3 T3 V3 H3. melt_loop t s = Some (u, s2) \<and> absorb_loop u s2 = Some (u, s3) \<and> at_view T s V3 H3 s3
    \<and> heap_inv T3 V3 H3 \<and> coalesced T (view s) t T3 V3 u
    \<and> taken_or_none V3 (V3 Split_left u) \<and> taken_or_none V3 (V3 Split_right u) \<and> V3 Split_right u \<noteq> u"
proof -
  have a: "tags_apart T" by (rule chunks_tags_apart [OF heap_inv_parts(1) [OF I]])
  obtain u s2 T2 V2 H2 where m: "melt_loop t s = Some (u, s2)" "at_view T s V2 H2 s2" "heap_inv T2 V2 H2"
    "coalesced T (view s) t T2 V2 u" "taken_or_none V2 (V2 Split_left u)"
    using melt_loop_spec [OF I t order_refl a at_view_start] by blast
  have u2: "u \<in> T2" "unlisted V2 u" "T2 \<subseteq> T" using m(4) by (simp_all add: coalesced_def)
  obtain s3 T3 V3 H3 where r: "absorb_loop u s2 = Some (u, s3)" "at_view T s V3 H3 s3" "heap_inv T3 V3 H3"
    "coalesced T2 V2 u T3 V3 u" "taken_or_none V3 (V3 Split_right u)" "V3 Split_left u = V2 Split_left u"
    using absorb_loop_spec [OF m(3) u2 a m(2)] by blast
  have co: "coalesced T (view s) t T3 V3 u" by (rule coalesced_trans [OF m(4) r(4)])
  then have u3: "u \<in> T3" "unlisted V3 u" by (simp_all add: coalesced_def)
  have "taken_or_none V3 (V3 Split_left u)"
  proof (cases "V2 Split_left u = 0 \<or> V2 Split_left u = u")
    case True
    then show ?thesis using r(6) u3(2) by (auto simp: unlisted_def)
  next
    case False
    then have "V2 Split_left u \<in> allocated T2 V2 - {u}"
      using m(5) splitsD(4) [OF heap_inv_parts(2) [OF m(3)] u2(1)] by (simp add: allocated_def)
    then show ?thesis using r(4,6) by (auto simp: coalesced_def allocated_def)
  qed
  moreover note p3 = heap_inv_parts [OF r(3)]
  have "V3 Split_right u \<noteq> u"
    using splitsD(3) [OF p3(2) u3(1)] chunksD(2) [OF p3(1) u3(1)] p3(4) u3(1) by force
  ultimately show ?thesis using m(1) r(1-3,5) co by blast
qed

text \<open>The merged block becomes the head of a list.\<close>

lemma relist_spec:
  assumes v: "at_view T s V H s" and a: "tags_apart T" and I: "heap_inv T' V H" and T: "T' \<subseteq> T"
    and u: "u \<in> T'" "unlisted V u" and i: "8 \<le> i" "i < 32"
  shows "\<exists>s'. insert_tag u (int i) s = Some s' \<and> at_view T s (v_insert u i H V) (H(i := u)) s'
    \<and> heap_inv T' (view s') (l_freePages s') \<and> allocated T' (view s') = allocated T' V - {u}
    \<and> agree T' (view s') (v_insert u i H V)"
proof -
  note ins = heap_inv_insert [OF I u i]
  have uT: "u \<in> T" and hT: "H i \<noteq> 0 \<Longrightarrow> H i \<in> T" using u T ins(2) by auto
  obtain s' where s': "insert_tag u (int i) s = Some s'" "at_view T s (v_insert u i H V) (H(i := u)) s'"
    using insert_tag_view [OF v a uT hT i, of "int i"] by auto
  have ag: "agree T' (view s') (v_insert u i H V)" using s'(2) T by (auto simp: at_view_def agree_def)
  have "heap_inv T' (view s') (l_freePages s')"
    unfolding at_view_heads_eq [OF s'(2)] by (rule agree_heap_inv [OF ag ins(1)])
  moreover have "allocated T' (view s') = allocated T' V - {u}" unfolding agree_allocated [OF ag] using ins(3) by simp
  ultimately show ?thesis using s' ag by blast
qed

text \<open>
  The lock hooks: a lock that is not held is taken, the state of the heap is not touched by
  either, and unlocking releases.  The break below which the blocks lie, and whatever else the
  hooks keep (\<open>env\<close>), change neither with the lock nor when the allocator writes its tags and
  tables.
\<close>

locale lock_hooks =
  fixes lock :: "'a liballoc_scheme \<Rightarrow> 'a liballoc_scheme option"
    and unlock :: "'a liballoc_scheme \<Rightarrow> 'a liballoc_scheme"
    and held :: "'a liballoc_scheme \<Rightarrow> bool"
    and brk :: "'a liballoc_scheme \<Rightarrow> u32"
    and env :: "'a liballoc_scheme \<Rightarrow> 'e"
  assumes lock_free: "\<not> held s \<Longrightarrow> \<exists>s'. lock s = Some s' \<and> heap_same s s'"
    and unlock_same: "heap_same s (unlock s)"
    and unlock_free: "\<not> held (unlock s)"
    and lock_brk: "lock s = Some s' \<Longrightarrow> brk s' = brk s"
    and unlock_brk: "brk (unlock s) = brk s"
    and heap_brk: "brk (s\<lparr>mem := m, l_freePages := h\<rparr>) = brk s"
    and counts_brk: "brk (s\<lparr>l_completePages := c\<rparr>) = brk s"
    and lock_env: "lock s = Some s' \<Longrightarrow> env s' = env s"
    and unlock_env: "env (unlock s) = env s"
    and heap_env: "env (s\<lparr>mem := m, l_freePages := h\<rparr>) = env s"
    and counts_env: "env (s\<lparr>l_completePages := c\<rparr>) = env s"
begin

lemma heap_step_brk: "heap_step T s s' \<Longrightarrow> brk s' = brk s"
  by (auto simp: heap_step_def heap_brk)

lemma heap_step_env: "heap_step T s s' \<Longrightarrow> env s' = env s"
  by (auto simp: heap_step_def heap_env)

text \<open>A pointer whose tag has lost its mark is left alone.\<close>

lemma free_unmarked:
  assumes "\<not> held s" "p \<noteq> 0" "tag_get Magic (p - 32) s \<noteq> LIBALLOC_MAGIC"
  shows "\<exists>s'. free lock unlock dealloc p s = Some s' \<and> heap_same s s' \<and> \<not> held s'"
proof -
  obtain s1 where s1: "lock s = Some s1" "heap_same s s1" using lock_free [OF assms(1)] by blast
  have "tag_get Magic (p - 32) s1 \<noteq> LIBALLOC_MAGIC"
    using assms(3) s1(2) by (simp add: heap_same_def tag_get_def)
  then have "free lock unlock dealloc p s = Some (unlock s1)"
    using assms(2) s1(1) by (simp add: free_def)
  then show ?thesis using s1(2) unlock_same [of s1] unlock_free by (auto simp: heap_same_def)
qed

lemma free_spec:
  assumes I: "heap_inv T (view s) (l_freePages s)" and t: "t \<in> allocated T (view s)" "t + 32 \<noteq> 0"
    and h: "\<not> held s" and c: "\<And>i. l_completePages s i \<noteq> MAXCOMPLETE"
  shows "\<exists>s' T'. free lock unlock dealloc (t + 32) s = Some s' \<and> heap_inv T' (view s') (l_freePages s')
    \<and> T' \<subseteq> T \<and> allocated T' (view s') = allocated T (view s) - {t}
    \<and> keeps (allocated T (view s) - {t}) (view s) (view s')
    \<and> same_outside (tag_region T) (mem s) (mem s') \<and> l_initialized s' = l_initialized s \<and> \<not> held s'
    \<and> brk s' = brk s \<and> env s' = env s \<and> (\<forall>b. below b T (view s) \<longrightarrow> below b T' (view s'))
    \<and> (no_free_pair T (view s) \<longrightarrow> no_free_pair T' (view s')) \<and> (filed T (view s) \<longrightarrow> filed T' (view s'))"
proof -
  note p = heap_inv_parts [OF I]
  have a: "tags_apart T" by (rule chunks_tags_apart [OF p(1)])
  have tT: "t \<in> T" and un: "unlisted (view s) t"
    using t(1) p(3) listed_free by (auto simp: allocated_def lists_def)
  obtain s1 where s1: "lock s = Some s1" "heap_same s s1" using lock_free [OF h] by blast
  have v1: "view s1 = view s" "l_freePages s1 = l_freePages s" using heap_same_view [OF s1(2)] s1(2) by (simp_all add: heap_same_def)
  have magic: "tag_get Magic t s1 = LIBALLOC_MAGIC"
    using v1(1) chunksD(4) [OF p(1) tT] by (simp add: view_def fun_eq_iff)
  obtain u s2 s3 T3 V3 H3 where m: "melt_loop t s1 = Some (u, s2)" "absorb_loop u s2 = Some (u, s3)" "at_view T s1 V3 H3 s3"
    "heap_inv T3 V3 H3" and co: "coalesced T (view s) t T3 V3 u"
    and nb: "taken_or_none V3 (V3 Split_left u)" "taken_or_none V3 (V3 Split_right u)" "V3 Split_right u \<noteq> u"
    using merge_spec [of T s1 t] I tT un unfolding v1 by blast
  then have u3: "u \<in> T3" "unlisted V3 u" "T3 \<subseteq> T" by (simp_all add: coalesced_def)
  obtain i where i: "max (getexp (tag_get Real_size u s3 - sizeof_tag)) 8 = int i" "8 \<le> i" "i < 32"
    using list_index by blast
  define whole where "whole \<longleftrightarrow> tag_get Split_left u s3 = 0 \<and> tag_get Split_right u s3 = 0"
  define s4 where "s4 = (if whole then s3\<lparr>l_completePages := (l_completePages s3)(i := l_completePages s3 i + 1)\<rparr> else s3)"
  have v4: "at_view T s4 V3 H3 s4" using at_view_restart [OF m(3), of s4] by (simp add: s4_def)
  let ?V = "v_insert u i H3 V3"
  obtain s5 where s5: "insert_tag u (int i) s4 = Some s5" "at_view T s4 ?V (H3(i := u)) s5"
    "heap_inv T3 (view s5) (l_freePages s5)" "allocated T3 (view s5) = allocated T3 V3 - {u}" "agree T3 (view s5) ?V"
    using relist_spec [OF v4 a m(4) u3(3,1,2) i(2,3)] by blast
  have "l_completePages s3 i \<noteq> MAXCOMPLETE" using at_view_mem [OF m(3)] s1(2) c by (simp add: heap_same_def)
  then have run: "free lock unlock dealloc (t + 32) s = Some (unlock s5)"
    unfolding free_def using t(2) s1(1) magic m(1,2) i s5(1)
    by (simp add: s4_def whole_def)
  have "mem s = mem s1" "mem s3 = mem s4" using s1(2) by (simp_all add: heap_same_def s4_def)
  then have mem5: "same_outside (tag_region T) (mem s) (mem s5)"
    using at_view_mem [OF m(3)] at_view_mem [OF s5(2)] same_outside_trans by metis
  have init5: "l_initialized s5 = l_initialized s"
    using at_view_mem [OF m(3)] at_view_mem [OF s5(2)] s1(2) by (simp add: heap_same_def s4_def split: if_splits)
  have al: "allocated T3 (view s5) = allocated T (view s) - {t}" using s5(4) co by (simp add: coalesced_def)
  have "keeps (allocated T (view s) - {t}) (view s) V3" using co by (simp add: coalesced_def)
  then have k: "keeps (allocated T (view s) - {t}) (view s) ?V" by (rule keeps_trans [OF _ keeps_insert])
  have keep: "keeps (allocated T (view s) - {t}) (view s) (view s5)"
    unfolding al [symmetric] by (rule agree_keeps [OF s5(5) _ k [folded al]]) (auto simp: allocated_def)
  have steps: "heap_step T s1 s3" "heap_step T s4 s5" using m(3) s5(2) by (simp_all add: at_view_def)
  have "brk s4 = brk s3" "env s4 = env s3" by (simp_all add: s4_def counts_brk counts_env)
  then have be: "brk (unlock s5) = brk s" "env (unlock s5) = env s"
    using steps lock_brk [OF s1(1)] lock_env [OF s1(1)] heap_step_brk heap_step_env by (metis unlock_brk unlock_env)+
  have low: "below b T3 (view s5)" if b: "below b T (view s)" for b
  proof -
    have "below b T3 ?V" using co b unfolding below_insert coalesced_def by blast
    then show ?thesis using s5(5) by (simp add: below_def agree_def)
  qed
  have nf: "no_free_pair T3 (view s5)" if N: "no_free_pair T (view s)"
  proof -
    have "no_free_pair T3 V3" using co N by (simp add: coalesced_def)
    then have "no_free_pair T3 ?V" by (intro no_free_pair_insert heap_inv_parts [OF m(4)] u3(1) nb)
    then show ?thesis
      using no_free_pair_agree [OF s5(5)] heap_inv_parts(2) [OF heap_inv_insert(1) [OF m(4) u3(1,2) i(2,3)]] by blast
  qed
  have fl: "filed T3 (view s5)" if F: "filed T (view s)"
  proof -
    have "filed T3 V3" using co F by (simp add: coalesced_def)
    moreover have "tag_get Real_size u s3 = V3 Real_size u" using at_view_get [OF m(3)] u3 by blast
    then have "i = list_class (V3 Real_size u)" using i(1) by (simp add: list_class_def)
    ultimately have "filed T3 ?V" using i(3) by (rule filed_insert)
    then show ?thesis by (rule filed_agree [OF s5(5)])
  qed
  have "heap_same s5 (unlock s5)" "\<not> held (unlock s5)" by (rule unlock_same unlock_free)+
  then show ?thesis
    using run u3(3) mem5 init5 heap_same_view [of s5 "unlock s5"] s5(3) al keep be low nf fl
    by (intro exI [of _ "unlock s5"] exI [of _ T3]) (simp add: heap_same_def)
qed

end

section \<open>Allocating\<close>

definition tags_above :: "nat \<Rightarrow> u32 set \<Rightarrow> bool" where
  "tags_above lo T \<longleftrightarrow> (\<forall>x \<in> T. lo \<le> unat x)"

text \<open>Taking a free tag off its list.\<close>

lemma remove_tag_spec:
  assumes I: "heap_inv T (view s) (l_freePages s)" and t: "t \<in> T" "is_free (view s) t"
  shows "\<exists>s'. remove_tag t s = Some s' \<and> heap_inv T (view s') (l_freePages s') \<and> unlisted (view s') t
    \<and> allocated T (view s') = insert t (allocated T (view s)) \<and> keeps T (view s) (view s') \<and> heap_step T s s'
    \<and> agree T (view s') (v_remove t (view s))"
proof -
  note p = heap_inv_parts [OF I]
  have a: "tags_apart T" by (rule chunks_tags_apart [OF p(1)])
  obtain s' where s': "remove_tag t s = Some s'"
    "at_view T s (v_remove t (view s)) (h_remove t (view s) (l_freePages s)) s'"
    using remove_tag_view [OF at_view_start a t(1) free_listed [OF p(3) t]] by blast
  have ag: "agree T (view s') (v_remove t (view s))" using s'(2) by (simp add: at_view_def)
  note r = heap_inv_remove [OF I t]
  have "heap_inv T (view s') (l_freePages s')"
    using agree_heap_inv [OF ag r(1)] s'(2) by (simp add: at_view_def)
  moreover have "unlisted (view s') t" using r(2) ag t(1) by (simp add: unlisted_def agree_def)
  moreover have "keeps T (view s) (view s')" using agree_keeps [OF ag order_refl keeps_remove] .
  ultimately show ?thesis
    using s' agree_allocated [OF ag] r(3) by (auto simp: at_view_def)
qed

text \<open>Giving back what a block has in excess of the request.\<close>

lemma split_condition:
  assumes "unat n + 32 \<le> unat r" "0 < sint (r - n - 32 * 2)"
  shows "unat n + 64 < unat (r :: u32)"
proof (rule ccontr)
  assume no: "\<not> unat n + 64 < unat r"
  have "unat (r - n) = unat r - unat n" using assms(1) by (subst unat_minus_u32) (simp_all add: word_le_nat_alt)
  then have u: "unat (r - n) \<le> 64" "32 \<le> unat (r - n)" using no assms(1) by auto
  show False
  proof (cases "unat (r - n) = 64")
    case True
    then have "r - n = 64" by (simp add: word_unat_eq_iff)
    then show False using assms(2) by simp
  next
    case False
    then have "unat (r - n) < unat (64 :: u32)" using u by simp
    then have "unat (r - n - 64) = unat (r - n) + 4294967296 - unat (64 :: u32)" by (rule unat_diff_wrap_u32)
    then have "\<not> unat (r - n - 64) < 2147483648" using u by simp
    then have "\<not> 0 \<le> sint (r - n - 64)" by (simp add: sint_nonneg_iff)
    then show False using assms(2) by simp
  qed
qed

lemma split_excess_spec:
  assumes I: "heap_inv T (view s) (l_freePages s)" and t: "t \<in> T"
    and n: "view s Size t = n" "unat n + 32 \<le> unat (view s Real_size t)"
  shows "\<exists>s' T'. split_excess t n s = Some s' \<and> heap_inv T' (view s') (l_freePages s') \<and> T \<subseteq> T'
    \<and> allocated T' (view s') = allocated T (view s) \<and> keeps (T - {t}) (view s) (view s')
    \<and> view s' Size t = n \<and> unat n + 32 \<le> unat (view s' Real_size t)
    \<and> heap_step T' s s' \<and> (\<forall>b. below b T (view s) \<longrightarrow> below b T' (view s'))
    \<and> (\<forall>lo. tags_above lo T \<longrightarrow> tags_above lo T')
    \<and> (no_free_pair T (view s) \<and> view s Index t = - 1 \<and> taken_or_none (view s) (view s Split_right t)
         \<longrightarrow> no_free_pair T' (view s'))
    \<and> (filed T (view s) \<and> view s Index t = - 1 \<longrightarrow> filed T' (view s'))"
proof -
  let ?rem = "view s Real_size t - n - 32 * 2"
  have g: "tag_get Real_size t s - n - sizeof_tag * 2 = ?rem" by (simp add: view_def)
  show ?thesis
  proof (cases "sint ?rem > 0 \<and> getexp ?rem \<ge> 0")
    case True
    note p = heap_inv_parts [OF I]
    have N: "unat (view s Size t) + 64 \<le> unat (view s Real_size t)"
      using split_condition [OF n(2)] True n(1) by simp
    let ?a = "t + 32 + view s Size t"
    obtain s' i where s': "split_tag t s = Some (?a, s')" "8 \<le> i" "i < 32"
      "at_view (insert ?a T) s (v_insert ?a i (l_freePages s) (v_split t ?a (view s))) ((l_freePages s)(i := ?a)) s'"
      and cl: "i = list_class (view s Real_size t - 32 - view s Size t)"
      using split_tag_view [OF I refl t N] by blast
    let ?W = "v_insert ?a i (l_freePages s) (v_split t ?a (view s))"
    note h = heap_inv_split [OF I t N s'(2,3)]
    note num = split_numbers [OF p(1) t N]
    have ag: "agree (insert ?a T) (view s') ?W" using s'(4) by (simp add: at_view_def)
    have "split_excess t n s = Some s'"
      unfolding split_excess_def Let_def g if_P [OF True] s'(1) by simp
    moreover have "heap_inv (insert ?a T) (view s') (l_freePages s')"
      using agree_heap_inv [OF ag h(1)] s'(4) by (simp add: at_view_def)
    moreover have "allocated (insert ?a T) (view s') = allocated T (view s)"
      using agree_allocated [OF ag] h(2) by simp
    moreover have k: "keeps (T - {t}) (view s) (view s')" using agree_keeps [OF ag _ h(3)] by blast
    moreover have z: "view s' Size t = n" "view s' Real_size t = 32 + n" "view s' Real_size ?a = view s Real_size t - 32 - n"
      using h(4-6) ag t n(1) by (simp_all add: agree_def)
    moreover have "below b (insert ?a T) (view s')" if b: "below b T (view s)" for b
      unfolding below_def
    proof
      fix x
      assume "x \<in> insert ?a T"
      then consider "x = ?a" | "x = t" | "x \<in> T - {t}" by auto
      then show "unat x + unat (view s' Real_size x) \<le> b"
      proof cases
        case 1
        then show ?thesis using z num N b t n(1) by (auto simp: below_def)
      next
        case 2
        then show ?thesis using z num N b t n(1) by (auto simp: below_def)
      next
        case 3
        then show ?thesis using k b by (auto simp: below_def keeps_def)
      qed
    qed
    moreover have "unat n + 32 \<le> unat (view s' Real_size t)" using z(2) num(3) n(1) by simp
    moreover have "heap_step (insert ?a T) s s'" using s'(4) by (simp add: at_view_def)
    moreover have "tags_above lo (insert ?a T)" if "tags_above lo T" for lo
      using that t num(1) by (auto simp: tags_above_def)
    moreover have "no_free_pair (insert ?a T) (view s')"
      if "no_free_pair T (view s)" "view s Index t = - 1" "taken_or_none (view s) (view s Split_right t)"
      by (rule no_free_pair_agree [OF ag heap_inv_parts(2) [OF h(1)] no_free_pair_split [OF that(1) I t that(2,3) N]])
    moreover have "filed (insert ?a T) (view s')" if "filed T (view s)" "view s Index t = - 1"
      by (rule filed_agree [OF ag filed_split [OF that num(6) cl s'(3)]])
    ultimately show ?thesis by (intro exI [of _ s'] exI [of _ "insert ?a T"]) blast
  next
    case False
    have "split_excess t n s = Some s" unfolding split_excess_def Let_def g if_not_P [OF False] ..
    then show ?thesis using I n by (intro exI [of _ s] exI [of _ T]) simp
  qed
qed

text \<open>A new region: the pages that a request of \<open>n\<close> bytes takes, and their tag.\<close>

definition pages_for :: "u32 \<Rightarrow> u32" where
  "pages_for n =
     (let usage = n + sizeof_tag; pages = usage div l_pageSize;
          pages = (if usage mod l_pageSize \<noteq> 0 then pages + 1 else pages)
      in if pages < l_pageCount then l_pageCount else pages)"

lemma pages_for_enough:
  assumes "unat n \<le> 4294900000" shows "unat n + 32 \<le> unat (pages_for n) * 4096" "unat (pages_for n) \<le> 1048576"
proof -
  have u: "unat (n + 32) = unat n + 32" using assms by (subst unat_plus_u32) simp_all
  define q where "q = (n + 32) div 4096"
  have q: "unat q = (unat n + 32) div 4096" by (simp add: q_def unat_div u)
  have "(unat n + 32) div 4096 \<le> 4294900032 div 4096" using assms by (intro div_le_mono) simp
  then have le: "(unat n + 32) div 4096 \<le> 1048559" by simp
  then have q1: "unat (q + 1) = unat q + 1" using q by (subst unat_plus_u32) simp_all
  have m: "(n + 32) mod 4096 \<noteq> 0 \<longleftrightarrow> (unat n + 32) mod 4096 \<noteq> 0"
    by (simp add: word_unat_eq_iff unat_mod u)
  define r where "r = (if (n + 32) mod 4096 \<noteq> 0 then q + 1 else q)"
  have "unat r = (unat n + 32) div 4096 + (if (unat n + 32) mod 4096 \<noteq> 0 then 1 else 0)"
    using m q q1 by (auto simp: r_def)
  then have "unat n + 32 \<le> unat r * 4096" "unat r \<le> 1048560"
    using le div_mult_mod_eq [of "unat n + 32" 4096] mod_less_divisor [of 4096 "unat n + 32"]
    by (auto split: if_splits)
  moreover have "pages_for n = (if r < 16 then 16 else r)"
    by (simp add: pages_for_def r_def q_def Let_def)
  ultimately show "unat n + 32 \<le> unat (pages_for n) * 4096" "unat (pages_for n) \<le> 1048576"
    by (auto simp: word_less_nat_alt)
qed

lemma allocate_new_tag_pages:
  "allocate_new_tag alloc n s = Option.bind (alloc (pages_for n) s) (\<lambda>(tag, s).
      if tag = 0 then Some (0, s)
      else Some (tag, tag_put Split_right tag 0 (tag_put Split_left tag 0 (tag_put Prev tag 0 (tag_put Next tag 0
        (tag_put Index tag (- 1) (tag_put Real_size tag (pages_for n * l_pageSize)
          (tag_put Size tag n (tag_put Magic tag LIBALLOC_MAGIC s)))))))))"
  unfolding allocate_new_tag_def pages_for_def Let_def ..

text \<open>
  A heap as the callers see it: before the first call there is none, and afterwards its blocks
  end below the break.
\<close>

definition heap_ok :: "nat \<Rightarrow> u32 set \<Rightarrow> 'a liballoc_scheme \<Rightarrow> bool" where
  "heap_ok b T s \<longleftrightarrow> (if l_initialized s = 0 then T = {} else heap_inv T (view s) (l_freePages s))
     \<and> below b T (view s) \<and> no_free_pair T (view s) \<and> filed T (view s)"

lemma heap_inv_empty: "heap_inv {} V (\<lambda>_. 0)"
  by (simp add: heap_inv_def chunks_def splits_def lists_def)

text \<open>The bytes of a block behind its tag, as numbers.\<close>

definition user_bytes :: "view \<Rightarrow> u32 \<Rightarrow> nat set" where
  "user_bytes V t = {unat t + 32 ..< unat t + unat (V Real_size t)}"

lemma user_bytes_safe:
  assumes c: "chunks T V" and u: "u \<in> T" and x: "tag_region T x"
  shows "unat x \<notin> user_bytes V u"
proof -
  obtain t where t: "t \<in> T" "in_region t 32 x" using x by (auto simp: tag_region_def)
  note d = chunksD [OF c t(1)]
  have r: "unat t \<le> unat x" "unat x < unat t + 32" using t(2) d in_region_ordered [of t 32 x] by simp_all
  show ?thesis
  proof (cases "t = u")
    case True
    then show ?thesis using r by (simp add: user_bytes_def)
  next
    case False
    then show ?thesis using chunks_apart [OF c t(1) u False] r d(2) by (auto simp: user_bytes_def)
  qed
qed

lemma user_bytes_apart:
  "chunks T V \<Longrightarrow> t \<in> T \<Longrightarrow> u \<in> T \<Longrightarrow> t \<noteq> u \<Longrightarrow> user_bytes V t \<inter> user_bytes V u = {}"
  using chunks_apart [of T V t u] by (auto simp: user_bytes_def)

lemma heap_inv_size: "heap_inv T V H \<Longrightarrow> heap_inv T (vput Size t n V) H"
  unfolding heap_inv_def by (auto intro: chunks_cong splits_cong lists_cong)

text \<open>A tag behind all others, filled in as \<^verbatim>\<open>allocate_new_tag\<close> does.\<close>

definition fresh_view :: "u32 \<Rightarrow> u32 \<Rightarrow> u32 \<Rightarrow> view \<Rightarrow> view" where
  "fresh_view t n r V = vput Split_right t 0 (vput Split_left t 0 (vput Prev t 0 (vput Next t 0
    (vput Index t (- 1) (vput Real_size t r (vput Size t n (vput Magic t LIBALLOC_MAGIC V)))))))"

lemma fresh_view_fields:
  "fresh_view t n r V Magic t = LIBALLOC_MAGIC" "fresh_view t n r V Size t = n" "fresh_view t n r V Real_size t = r"
  "fresh_view t n r V Index t = - 1" "fresh_view t n r V Next t = 0" "fresh_view t n r V Prev t = 0"
  "fresh_view t n r V Split_left t = 0" "fresh_view t n r V Split_right t = 0"
  "x \<noteq> t \<Longrightarrow> fresh_view t n r V f x = V f x"
  by (simp_all add: fresh_view_def)

lemma heap_inv_fresh:
  assumes I: "heap_inv T V H" and low: "\<And>x. x \<in> T \<Longrightarrow> unat x + unat (V Real_size x) \<le> unat t"
    and t: "t \<noteq> 0" "unat t + unat r \<le> 4294967296" "32 \<le> unat r"
  shows "t \<notin> T" "heap_inv (insert t T) (fresh_view t n r V) H" "unlisted (fresh_view t n r V) t"
proof -
  note p = heap_inv_parts [OF I]
  let ?T = "insert t T" and ?W = "fresh_view t n r V"
  show nT: "t \<notin> T"
  proof
    assume "t \<in> T"
    then show False using low [of t] chunksD(2) [OF p(1), of t] by simp
  qed
  note W = fresh_view_fields(1-8) [of t n r V]
  have WT: "?W f x = V f x" if "x \<in> T" for f x using that nT by (intro fresh_view_fields(9)) auto
  show un: "unlisted ?W t" using W by (simp add: unlisted_def)
  have "chunks ?T ?W"
    unfolding chunks_def
  proof (intro conjI ballI impI)
    show "finite ?T" using p(5) by simp
    fix x
    assume x: "x \<in> ?T"
    show "x \<noteq> 0" "?W Magic x = LIBALLOC_MAGIC" "32 \<le> unat (?W Real_size x)"
      "unat x + unat (?W Real_size x) \<le> 4294967296"
      using x t W WT chunksD [OF p(1)] by auto
    fix y
    assume "y \<in> ?T" "x \<noteq> y"
    then show "unat x + unat (?W Real_size x) \<le> unat y \<or> unat y + unat (?W Real_size y) \<le> unat x"
      using x low WT chunks_apart [OF p(1), of x y] by auto
  qed
  moreover have "split_node ?T ?W x" if "x \<in> T" for x
    using splitsD [OF p(2) that] WT that unfolding split_node_def by auto
  moreover have "split_node ?T ?W t" using W by (simp add: split_node_def)
  moreover have "lists T ?W H" by (rule lists_cong [OF p(3)]) (simp add: WT)
  then have "lists ?T ?W H" using un unfolding lists_def listed_def by blast
  ultimately show "heap_inv ?T ?W H" by (simp add: heap_inv_def splits_def)
qed

text \<open>The size is stored and the rest of the block split off.\<close>

lemma split_block:
  assumes I: "heap_inv T (view s) (l_freePages s)" and t: "t \<in> T" and n: "unat n + 32 \<le> unat (view s Real_size t)"
  shows "\<exists>s' T'. split_excess t n (tag_put Size t n s) = Some s' \<and> heap_inv T' (view s') (l_freePages s') \<and> T \<subseteq> T'
    \<and> allocated T' (view s') = allocated T (view s) \<and> keeps (T - {t}) (view s) (view s')
    \<and> view s' Size t = n \<and> unat n + 32 \<le> unat (view s' Real_size t)
    \<and> heap_step T' s s' \<and> (\<forall>b. below b T (view s) \<longrightarrow> below b T' (view s'))
    \<and> (\<forall>lo. tags_above lo T \<longrightarrow> tags_above lo T')
    \<and> (no_free_pair T (view s) \<and> view s Index t = - 1 \<and> taken_or_none (view s) (view s Split_right t)
         \<longrightarrow> no_free_pair T' (view s'))
    \<and> (filed T (view s) \<and> view s Index t = - 1 \<longrightarrow> filed T' (view s'))"
proof -
  let ?u = "tag_put Size t n s"
  have v: "at_view T s (vput Size t n (view s)) (l_freePages s) ?u"
    by (intro at_view_put at_view_start chunks_tags_apart [OF heap_inv_parts(1) [OF I]] t)
  have ag: "agree T (view ?u) (vput Size t n (view s))" and hd: "l_freePages ?u = l_freePages s" and st: "heap_step T s ?u"
    using v by (simp_all add: at_view_def)
  have I': "heap_inv T (view ?u) (l_freePages ?u)" unfolding hd by (rule agree_heap_inv [OF ag heap_inv_size [OF I]])
  have sz: "view ?u Size t = n" "\<And>f x. x \<in> T \<Longrightarrow> f \<noteq> Size \<or> x \<noteq> t \<Longrightarrow> view ?u f x = view s f x"
    using ag t by (auto simp: agree_def vput_def)
  have rs: "unat n + 32 \<le> unat (view ?u Real_size t)" using n sz(2) [OF t] by simp
  from split_excess_spec [OF I' t sz(1) rs] obtain s' T' where s': "split_excess t n ?u = Some s'"
    "heap_inv T' (view s') (l_freePages s')" "T \<subseteq> T'" "allocated T' (view s') = allocated T (view ?u)"
    "keeps (T - {t}) (view ?u) (view s')" "view s' Size t = n" "unat n + 32 \<le> unat (view s' Real_size t)"
    "heap_step T' ?u s'" "\<And>b. below b T (view ?u) \<Longrightarrow> below b T' (view s')" "\<And>lo. tags_above lo T \<Longrightarrow> tags_above lo T'"
    "no_free_pair T (view ?u) \<Longrightarrow> view ?u Index t = - 1 \<Longrightarrow> taken_or_none (view ?u) (view ?u Split_right t) \<Longrightarrow>
      no_free_pair T' (view s')"
    "filed T (view ?u) \<Longrightarrow> view ?u Index t = - 1 \<Longrightarrow> filed T' (view s')" by blast
  have "allocated T' (view s') = allocated T (view s)" unfolding s'(4) using sz(2) by (auto simp: allocated_def)
  moreover have "keeps (T - {t}) (view s) (view s')"
    by (rule keeps_trans [OF _ s'(5)]) (use sz(2) in \<open>auto simp: keeps_def\<close>)
  moreover have "heap_step T' s s'" by (rule heap_step_trans [OF heap_step_mono [OF st s'(3)] s'(8)])
  moreover have "below b T' (view s')" if "below b T (view s)" for b
    by (rule s'(9)) (use that sz(2) in \<open>simp add: below_def\<close>)
  moreover have "no_free_pair T' (view s')"
    if N: "no_free_pair T (view s)" "view s Index t = - 1" "taken_or_none (view s) (view s Split_right t)"
  proof (rule s'(11))
    have i: "view ?u Index x = view s Index x" "view ?u Split_right x = view s Split_right x" if "x \<in> T" for x
      using sz(2) that by simp_all
    have inT: "view s Split_right x \<in> T" if "x \<in> T" "view s Split_right x \<noteq> 0" for x
      using splitsD(1) [OF heap_inv_parts(2) [OF I] that] .
    show "view ?u Index t = - 1" using N(2) i t by simp
    show "no_free_pair T (view ?u)" using N(1) i inT by (simp add: no_free_pair_def)
    show "taken_or_none (view ?u) (view ?u Split_right t)" using N(3) i inT t by metis
  qed
  moreover have "filed T' (view s')" if F: "filed T (view s)" "view s Index t = - 1"
    by (rule s'(12)) (use F sz(2) t in \<open>simp_all add: filed_def\<close>)
  ultimately show ?thesis using s' by blast
qed

text \<open>What lies behind the tags of blocks that are kept is not written.\<close>

lemma user_bytes_same:
  assumes c: "chunks T' V'" and A: "u \<in> A" "A \<subseteq> T'" "keeps A V V'" and m: "same_outside (tag_region T') m m'"
    and x: "unat x \<in> user_bytes V u"
  shows "m' x = m x"
proof -
  have "user_bytes V' u = user_bytes V u" using A by (simp add: user_bytes_def keeps_def)
  then have "\<not> tag_region T' x" using user_bytes_safe [OF c, of u x] A x by auto
  then show ?thesis using m by (simp add: same_outside_def)
qed

lemma block_pointer:
  assumes "below (unat (b :: u32)) T V" "t \<in> T" "unat n + 32 \<le> unat (V Real_size t)"
  shows "t + 32 \<noteq> 0"
proof -
  have "unat t + unat (V Real_size t) \<le> unat b" using assms(1,2) by (simp add: below_def)
  then have le: "unat t + 32 \<le> unat b" using assms(3) by simp
  then have "unat (t + 32) = unat t + 32" using unat_u32_lt [of b] by (subst unat_plus_u32) simp_all
  then show ?thesis by auto
qed

text \<open>The lists after the first lines of \<^verbatim>\<open>malloc\<close>, which reset them once.\<close>

definition tables_ready :: "'a liballoc_scheme \<Rightarrow> 'a liballoc_scheme" where
  "tables_ready s = (if l_initialized s = 0
     then s\<lparr>l_freePages := (\<lambda>_. 0), l_completePages := (\<lambda>_. 0), l_initialized := 1\<rparr> else s)"

text \<open>A request that the list of its size class can serve, without new pages.\<close>

definition served :: "u32 \<Rightarrow> 'a liballoc_scheme \<Rightarrow> bool" where
  "served n s \<longleftrightarrow> l_initialized s \<noteq> 0 \<and> find_tag n (l_freePages s (nat (max (getexp n) (int MINEXP)))) s \<noteq> Some 0"

lemma find_tag_mono: "find_tag n t s = Some f \<Longrightarrow> mem s' = mem s \<Longrightarrow> find_tag n t s' = Some f"
proof (induction rule: find_tag.raw_induct [rotated 1, consumes 1])
  case (1 find n t s f)
  then show ?case by (subst find_tag.simps) (auto simp: tag_get_def split: if_splits)
qed

text \<open>A request lowers at most the counts of whole free regions.\<close>

definition counts_kept :: "(nat \<Rightarrow> u32) \<Rightarrow> (nat \<Rightarrow> u32) \<Rightarrow> bool" where
  "counts_kept c c' \<longleftrightarrow> (\<forall>i. c' i = c i \<or> c' i = c i - 1)"

text \<open>A free tag with room enough is taken off its list.\<close>

lemma reuse_spec:
  assumes I: "heap_inv T (view s) (l_freePages s)" and f: "f \<in> T" "is_free (view s) f" "n + 32 \<le> view s Real_size f - 32"
    and n: "unat n \<le> 4294900000"
  shows "\<exists>s'. remove_tag f s = Some s' \<and> heap_inv T (view s') (l_freePages s')
    \<and> allocated T (view s') = insert f (allocated T (view s)) \<and> keeps T (view s) (view s') \<and> heap_step T s s'
    \<and> unat n + 32 \<le> unat (view s' Real_size f)
    \<and> (no_free_pair T (view s) \<longrightarrow> no_free_pair T (view s') \<and> taken_or_none (view s') (view s' Split_right f))
    \<and> (filed T (view s) \<longrightarrow> filed T (view s')) \<and> view s' Index f = - 1"
proof -
  note p = heap_inv_parts [OF I]
  obtain s1 where s1: "remove_tag f s = Some s1" "heap_inv T (view s1) (l_freePages s1)"
    "allocated T (view s1) = insert f (allocated T (view s))" "keeps T (view s) (view s1)" "heap_step T s s1"
    and ag: "agree T (view s1) (v_remove f (view s))"
    using remove_tag_spec [OF I f(1,2)] by blast
  have "unat (n + 32) = unat n + 32" using n by (subst unat_plus_u32) simp_all
  moreover have "unat (view s Real_size f - 32) = unat (view s Real_size f) - 32"
    using chunksD(2) [OF p(1) f(1)] by (subst unat_minus_u32) (simp_all add: word_le_nat_alt)
  ultimately have "unat n + 32 \<le> unat (view s Real_size f)" using f(3) by (simp add: word_le_nat_alt)
  then have rs: "unat n + 32 \<le> unat (view s1 Real_size f)" using s1(4) f(1) by (simp add: keeps_def)
  have "no_free_pair T (view s1) \<and> taken_or_none (view s1) (view s1 Split_right f)" if N: "no_free_pair T (view s)"
  proof -
    have r: "view s1 Split_right f = view s Split_right f"
      using ag f(1) by (simp add: agree_def v_remove_other_fields)
    have "view s1 Index (view s Split_right f) = - 1" if nz: "view s Split_right f \<noteq> 0"
    proof -
      have "view s Split_right f \<in> T" using splitsD(1) [OF p(2) f(1) nz] .
      moreover have "view s Index (view s Split_right f) = - 1" using N f nz by (auto simp: no_free_pair_def)
      ultimately show ?thesis using ag by (simp add: agree_def v_remove_index)
    qed
    moreover have "no_free_pair T (view s1)"
      by (rule no_free_pair_agree [OF ag _ no_free_pair_remove [OF N]])
        (rule splits_cong [OF p(2)], simp_all add: v_remove_other_fields)
    ultimately show ?thesis using r by metis
  qed
  moreover have "filed T (view s1)" if "filed T (view s)" by (rule filed_agree [OF ag filed_remove [OF that]])
  moreover have "view s1 Index f = - 1" using ag f(1) by (simp add: agree_def v_remove_index)
  ultimately show ?thesis using s1 rs by blast
qed

text \<open>
  The page hook: when there is room, a request is granted at the break, which it raises by the
  size of the pages; nothing the heap keeps is touched, and the break does not depend on it.
\<close>

locale page_source = lock_hooks lock unlock held brk env
  for lock :: "'a liballoc_scheme \<Rightarrow> 'a liballoc_scheme option"
    and unlock :: "'a liballoc_scheme \<Rightarrow> 'a liballoc_scheme" and held :: "'a liballoc_scheme \<Rightarrow> bool"
    and brk :: "'a liballoc_scheme \<Rightarrow> u32" and env :: "'a liballoc_scheme \<Rightarrow> 'e" +
  fixes alloc :: "u32 \<Rightarrow> 'a liballoc_scheme \<Rightarrow> (u32 \<times> 'a liballoc_scheme) option"
    and room :: "u32 \<Rightarrow> 'a liballoc_scheme \<Rightarrow> bool"
  assumes alloc_room: "room n s \<Longrightarrow> \<exists>s'. alloc n s = Some (brk s, s') \<and> heap_same s s'
      \<and> brk s \<noteq> 0 \<and> unat (brk s') = unat (brk s) + unat n * 4096 \<and> env s' = env s"
    and lock_room: "lock s = Some s' \<Longrightarrow> room n s \<Longrightarrow> room n s'"
    and tables_env: "env (s\<lparr>l_freePages := h, l_completePages := c, l_initialized := i\<rparr>) = env s"
    and tables_brk: "brk (s\<lparr>l_freePages := h, l_completePages := c, l_initialized := i\<rparr>) = brk s"
      "room n s \<Longrightarrow> room n (s\<lparr>l_freePages := h, l_completePages := c, l_initialized := i\<rparr>)"
begin

lemma allocate_new_tag_spec:
  assumes I: "heap_inv T (view s) (l_freePages s)" and b: "below (unat (brk s)) T (view s)"
    and r: "room (pages_for n) s" and n: "unat n \<le> 4294900000"
  shows "\<exists>t s'. allocate_new_tag alloc n s = Some (t, s') \<and> t \<noteq> 0 \<and> t \<notin> T
    \<and> heap_inv (insert t T) (view s') (l_freePages s') \<and> unlisted (view s') t
    \<and> keeps T (view s) (view s') \<and> allocated (insert t T) (view s') = insert t (allocated T (view s))
    \<and> unat n + 32 \<le> unat (view s' Real_size t) \<and> below (unat (brk s')) (insert t T) (view s')
    \<and> same_outside (tag_region (insert t T)) (mem s) (mem s') \<and> l_initialized s' = l_initialized s
    \<and> l_completePages s' = l_completePages s
    \<and> view s' Split_right t = 0 \<and> (no_free_pair T (view s) \<longrightarrow> no_free_pair (insert t T) (view s'))
    \<and> (filed T (view s) \<longrightarrow> filed (insert t T) (view s'))
    \<and> t = brk s \<and> unat (brk s') = unat (brk s) + unat (pages_for n) * 4096 \<and> env s' = env s"
proof -
  let ?t = "brk s" and ?p = "pages_for n" and ?V = "view s"
  let ?T = "insert ?t T" and ?W = "fresh_view ?t n (?p * 4096) ?V"
  obtain s1 where s1: "alloc ?p s = Some (?t, s1)" "heap_same s s1" "?t \<noteq> 0"
    "unat (brk s1) = unat ?t + unat ?p * 4096" "env s1 = env s" using alloc_room [OF r] by blast
  have end_lt: "unat ?t + unat ?p * 4096 < 4294967296" using s1(4) unat_u32_lt [of "brk s1"] by simp
  have rs: "unat (?p * 4096) = unat ?p * 4096" using end_lt by (subst unat_mult_u32) simp_all
  note big = pages_for_enough [OF n]
  have low: "unat x + unat (?V Real_size x) \<le> unat ?t" if "x \<in> T" for x using b that by (simp add: below_def)
  have "unat ?t + unat (?p * 4096) \<le> 4294967296" "32 \<le> unat (?p * 4096)" using end_lt rs big(1) by simp_all
  note fresh = heap_inv_fresh [OF I low s1(3) this]
  note W = fresh_view_fields(1-8) [of ?t n "?p * 4096" ?V]
  have WT: "?W f x = ?V f x" if "x \<in> T" for f x using that fresh(1) by (intro fresh_view_fields(9)) auto
  have A: "tags_apart ?T" by (rule chunks_tags_apart [OF heap_inv_parts(1) [OF fresh(2)]])
  define s2 where "s2 = tag_put Split_right ?t 0 (tag_put Split_left ?t 0 (tag_put Prev ?t 0 (tag_put Next ?t 0
    (tag_put Index ?t (- 1) (tag_put Real_size ?t (?p * l_pageSize) (tag_put Size ?t n (tag_put Magic ?t LIBALLOC_MAGIC s1)))))))"
  have "at_view ?T s1 ?V (l_freePages s) s1"
    using at_view_start [of ?T s1] s1(2) heap_same_view [OF s1(2)] by (simp add: heap_same_def)
  then have v2: "at_view ?T s1 ?W (l_freePages s) s2" unfolding s2_def fresh_view_def by (intro at_view_put A) simp_all
  have ag: "agree ?T (view s2) ?W" and hd: "l_freePages s2 = l_freePages s" and st: "heap_step ?T s1 s2"
    using v2 by (simp_all add: at_view_def)
  have "allocate_new_tag alloc n s = Some (?t, s2)" using s1 unfolding allocate_new_tag_pages by (simp add: s2_def)
  moreover have "heap_inv ?T (view s2) (l_freePages s2)" unfolding hd by (rule agree_heap_inv [OF ag fresh(2)])
  moreover have "unlisted (view s2) ?t" using ag fresh(3) by (simp add: agree_def unlisted_def)
  moreover have "keeps T ?V (view s2)" by (rule agree_keeps [OF ag]) (auto simp: keeps_def WT)
  moreover have "allocated ?T (view s2) = insert ?t (allocated T ?V)"
    unfolding agree_allocated [OF ag] using W WT by (auto simp: allocated_def)
  moreover have "unat n + 32 \<le> unat (view s2 Real_size ?t)" using ag W rs big(1) by (simp add: agree_def)
  moreover have "below (unat (brk s2)) ?T (view s2)"
    unfolding heap_step_brk [OF st] below_def using ag W WT rs s1(4) low by (fastforce simp: agree_def)
  moreover have "same_outside (tag_region ?T) (mem s) (mem s2)" "l_initialized s2 = l_initialized s"
    "l_completePages s2 = l_completePages s"
    using at_view_mem [OF v2] s1(2) by (simp_all add: heap_same_def)
  moreover have "unat (brk s2) = unat ?t + unat ?p * 4096" "env s2 = env s"
    using heap_step_brk [OF st] heap_step_env [OF st] s1(4,5) by simp_all
  moreover have "view s2 Split_right ?t = 0" using ag W by (simp add: agree_def)
  moreover have "no_free_pair ?T (view s2)" if "no_free_pair T ?V"
  proof (rule no_free_pair_agree [OF ag heap_inv_parts(2) [OF fresh(2)] no_free_pair_mono [OF that]])
    show "is_free ?W x \<Longrightarrow> is_free ?V x" for x using W fresh_view_fields(9) [of x ?t] by (cases "x = ?t") simp_all
    show "x \<in> ?T \<Longrightarrow> is_free ?W x \<Longrightarrow> x \<in> T \<and> ?W Split_right x = ?V Split_right x" for x
      using W WT by auto
  qed
  moreover have "filed ?T (view s2)" if "filed T ?V"
    by (rule filed_agree [OF ag filed_mono [OF that]]) (use W WT in auto)
  ultimately show ?thesis using s1(3) fresh(1) by blast
qed

text \<open>The block that serves a request: one from the list of its size class, or a new region.\<close>

definition block_for :: "u32 \<Rightarrow> 'a liballoc_scheme \<Rightarrow> (u32 \<times> 'a liballoc_scheme) option" where
  "block_for n s =
     (let index = nat (max (getexp n) (int MINEXP))
      in do {
        found \<leftarrow> find_tag n (l_freePages s index) s;
        (if found = 0 then allocate_new_tag alloc n s
         else do {
            s \<leftarrow> remove_tag found s;
            Some (found,
              if tag_get Split_left found s = 0 \<and> tag_get Split_right found s = 0
              then s\<lparr>l_completePages := (l_completePages s)(index := l_completePages s index - 1)\<rparr> else s)
          })
      })"

lemma block_for_spec:
  assumes I: "heap_inv T (view s) (l_freePages s)" and b: "below (unat (brk s)) T (view s)"
    and r: "room (pages_for n) s \<or> find_tag n (l_freePages s (nat (max (getexp n) (int MINEXP)))) s \<noteq> Some 0"
    and n: "unat n \<le> 4294900000"
  shows "\<exists>t s' T'. block_for n s = Some (t, s') \<and> t \<noteq> 0 \<and> t \<in> T' \<and> T \<subseteq> T' \<and> t \<notin> allocated T (view s)
    \<and> heap_inv T' (view s') (l_freePages s') \<and> keeps T (view s) (view s')
    \<and> allocated T' (view s') = insert t (allocated T (view s))
    \<and> unat n + 32 \<le> unat (view s' Real_size t) \<and> below (unat (brk s')) T' (view s')
    \<and> same_outside (tag_region T') (mem s) (mem s') \<and> l_initialized s' = l_initialized s
    \<and> counts_kept (l_completePages s) (l_completePages s')
    \<and> (no_free_pair T (view s) \<longrightarrow> no_free_pair T' (view s') \<and> taken_or_none (view s') (view s' Split_right t))
    \<and> (\<forall>lo. lo \<le> unat (brk s) \<longrightarrow> tags_above lo T \<longrightarrow> tags_above lo T') \<and> unat (brk s) \<le> unat (brk s')
    \<and> unat (brk s') \<le> unat (brk s) + unat (pages_for n) * 4096 \<and> env s' = env s
    \<and> (filed T (view s) \<longrightarrow> filed T' (view s'))"
proof -
  note p = heap_inv_parts [OF I]
  obtain i where i: "max (getexp n) 8 = int i" "8 \<le> i" "i < 32" using list_index by blast
  obtain f where f: "find_tag n (l_freePages s i) s = Some f"
    "f = 0 \<or> f \<in> T \<and> is_free (view s) f \<and> n + 32 \<le> view s Real_size f - 32"
    using find_tag_spec [OF I i(2,3)] by blast
  show ?thesis
  proof (cases "f = 0")
    case True
    then have e: "block_for n s = allocate_new_tag alloc n s" using f(1) i by (simp add: block_for_def)
    have "room (pages_for n) s" using r f(1) i(1) True by simp
    from allocate_new_tag_spec [OF I b this n] obtain t s' where new: "allocate_new_tag alloc n s = Some (t, s')"
      "t \<noteq> 0" "t \<notin> T" "heap_inv (insert t T) (view s') (l_freePages s')" "keeps T (view s) (view s')"
      "allocated (insert t T) (view s') = insert t (allocated T (view s))"
      "unat n + 32 \<le> unat (view s' Real_size t)" "below (unat (brk s')) (insert t T) (view s')"
      "same_outside (tag_region (insert t T)) (mem s) (mem s')" "l_initialized s' = l_initialized s"
      "l_completePages s' = l_completePages s" "view s' Split_right t = 0"
      "no_free_pair T (view s) \<longrightarrow> no_free_pair (insert t T) (view s')"
      "t = brk s" "unat (brk s') = unat (brk s) + unat (pages_for n) * 4096" "env s' = env s"
      "filed T (view s) \<longrightarrow> filed (insert t T) (view s')" by blast
    moreover have "t \<notin> allocated T (view s)" using new(3) by (simp add: allocated_def)
    moreover have "counts_kept (l_completePages s) (l_completePages s')" using new(11) by (simp add: counts_kept_def)
    moreover have "tags_above lo (insert t T)" if "lo \<le> unat (brk s)" "tags_above lo T" for lo
      using that new(14) by (simp add: tags_above_def)
    ultimately show ?thesis unfolding e
      by (intro exI [of _ t] exI [of _ s'] exI [of _ "insert t T"]) (simp add: subset_insertI)
  next
    case False
    then have fT: "f \<in> T" "is_free (view s) f" "n + 32 \<le> view s Real_size f - 32" using f(2) by auto
    obtain s1 where s1: "remove_tag f s = Some s1" "heap_inv T (view s1) (l_freePages s1)"
      "allocated T (view s1) = insert f (allocated T (view s))" "keeps T (view s) (view s1)" "heap_step T s s1"
      "unat n + 32 \<le> unat (view s1 Real_size f)"
      "no_free_pair T (view s) \<longrightarrow> no_free_pair T (view s1) \<and> taken_or_none (view s1) (view s1 Split_right f)"
      "filed T (view s) \<longrightarrow> filed T (view s1)"
      using reuse_spec [OF I fT n] by blast
    define s2 where "s2 = (if tag_get Split_left f s1 = 0 \<and> tag_get Split_right f s1 = 0
      then s1\<lparr>l_completePages := (l_completePages s1)(i := l_completePages s1 i - 1)\<rparr> else s1)"
    have same: "view s2 = view s1" "l_freePages s2 = l_freePages s1" "mem s2 = mem s1" "brk s2 = brk s1"
      "l_initialized s2 = l_initialized s1" by (simp_all add: s2_def counts_brk)
    have "block_for n s = Some (f, s2)"
      using f(1) i False s1(1) by (simp add: block_for_def s2_def)
    moreover have "f \<noteq> 0" "f \<notin> allocated T (view s)" using False fT(2) by (simp_all add: allocated_def)
    moreover have "below (unat (brk s2)) T (view s2)"
      using b s1(4) heap_step_brk [OF s1(5)] same by (simp add: below_def keeps_def)
    moreover have "same_outside (tag_region T) (mem s) (mem s2)" "l_initialized s2 = l_initialized s"
      using s1(5) same by (auto simp: heap_step_def)
    moreover have "brk s2 = brk s" "env s2 = env s"
      using heap_step_brk [OF s1(5)] heap_step_env [OF s1(5)] same(4) by (simp_all add: s2_def counts_env)
    moreover have "counts_kept (l_completePages s) (l_completePages s2)"
      using s1(5) by (auto simp: heap_step_def counts_kept_def s2_def)
    ultimately show ?thesis using s1 same fT(1) by (intro exI [of _ f] exI [of _ s2] exI [of _ T]) auto
  qed
qed

lemma malloc_block_for:
  "malloc lock unlock alloc n s =
     do {
       s \<leftarrow> lock s;
       let s = (if l_initialized s = 0
                then s\<lparr>l_freePages := (\<lambda>_. 0), l_completePages := (\<lambda>_. 0), l_initialized := 1\<rparr> else s);
       (tag, s) \<leftarrow> block_for n s;
       if tag = 0 then Some (0, unlock s)
       else do {
         s \<leftarrow> split_excess tag n (tag_put Size tag n s);
         Some (tag + sizeof_tag, unlock s)
       }
     }"
  unfolding malloc_def block_for_def Let_def by (simp cong: if_cong)

lemma lock_ready:
  assumes ok: "heap_ok (unat (brk s)) T s" and h: "\<not> held s"
  shows "\<exists>s1 s2. lock s = Some s1 \<and> s2 = tables_ready s1 \<and> view s2 = view s \<and> mem s2 = mem s \<and> brk s2 = brk s
    \<and> l_initialized s2 \<noteq> 0 \<and> env s2 = env s \<and> heap_inv T (view s2) (l_freePages s2)
    \<and> l_completePages s2 = (if l_initialized s = 0 then \<lambda>_. 0 else l_completePages s)
    \<and> l_freePages s2 = (if l_initialized s = 0 then \<lambda>_. 0 else l_freePages s)"
proof -
  obtain s1 where s1: "lock s = Some s1" "heap_same s s1" using lock_free [OF h] by blast
  have "view (tables_ready s1) = view s"
    using heap_same_view [OF s1(2)] by (simp add: tables_ready_def view_def tag_get_def)
  moreover have "mem (tables_ready s1) = mem s" "brk (tables_ready s1) = brk s" "l_initialized (tables_ready s1) \<noteq> 0"
    "env (tables_ready s1) = env s" using s1(2) lock_brk [OF s1(1)] lock_env [OF s1(1)]
    by (simp_all add: tables_ready_def heap_same_def tables_brk tables_env)
  moreover have "l_completePages (tables_ready s1) = (if l_initialized s = 0 then \<lambda>_. 0 else l_completePages s)"
    "l_freePages (tables_ready s1) = (if l_initialized s = 0 then \<lambda>_. 0 else l_freePages s)"
    using s1(2) by (simp_all add: tables_ready_def heap_same_def)
  moreover have "heap_inv T (view s) (if l_initialized s = 0 then \<lambda>_. 0 else l_freePages s)"
    using ok heap_inv_empty by (simp add: heap_ok_def)
  ultimately show ?thesis using s1(1) by (intro exI [of _ s1] exI [of _ "tables_ready s1"]) simp
qed

lemma malloc_spec:
  assumes ok: "heap_ok (unat (brk s)) T s" and h: "\<not> held s"
    and r: "room (pages_for n) s \<or> served n s" and n: "unat n \<le> 4294900000"
  shows "\<exists>t s' T'. malloc lock unlock alloc n s = Some (t + 32, s') \<and> t + 32 \<noteq> 0 \<and> heap_ok (unat (brk s')) T' s'
    \<and> t \<notin> allocated T (view s) \<and> allocated T' (view s') = insert t (allocated T (view s))
    \<and> keeps (allocated T (view s)) (view s) (view s')
    \<and> view s' Size t = n \<and> unat n + 32 \<le> unat (view s' Real_size t)
    \<and> (\<forall>u \<in> allocated T (view s). user_bytes (view s') t \<inter> user_bytes (view s') u = {})
    \<and> (\<forall>u \<in> allocated T (view s). \<forall>x. unat x \<in> user_bytes (view s) u \<longrightarrow> mem s' x = mem s x)
    \<and> \<not> held s' \<and> l_initialized s' \<noteq> 0
    \<and> counts_kept (if l_initialized s = 0 then \<lambda>_. 0 else l_completePages s) (l_completePages s')
    \<and> same_outside (tag_region T') (mem s) (mem s')
    \<and> (\<forall>lo. lo \<le> unat (brk s) \<longrightarrow> tags_above lo T \<longrightarrow> tags_above lo T') \<and> unat (brk s) \<le> unat (brk s')
    \<and> unat (brk s') \<le> unat (brk s) + unat (pages_for n) * 4096 \<and> env s' = env s"
proof -
  obtain s1 s2 where s1: "lock s = Some s1" "s2 = tables_ready s1" and same: "view s2 = view s" "mem s2 = mem s" "brk s2 = brk s"
    "l_initialized s2 \<noteq> 0" "env s2 = env s" and I: "heap_inv T (view s2) (l_freePages s2)"
    and tab: "l_completePages s2 = (if l_initialized s = 0 then \<lambda>_. 0 else l_completePages s)"
      "l_freePages s2 = (if l_initialized s = 0 then \<lambda>_. 0 else l_freePages s)" using lock_ready [OF ok h] by blast
  have B: "below (unat (brk s2)) T (view s2)" using ok by (simp add: heap_ok_def same)
  have R: "room (pages_for n) s2 \<or> find_tag n (l_freePages s2 (nat (max (getexp n) (int MINEXP)))) s2 \<noteq> Some 0"
    using r
  proof
    assume "room (pages_for n) s"
    then show ?thesis using lock_room [OF s1(1)] tables_brk(2) by (auto simp: s1(2) tables_ready_def)
  next
    assume "served n s"
    then show ?thesis using find_tag_mono [of n _ s2 0 s] same(2) tab(2) by (auto simp: served_def)
  qed
  from block_for_spec [OF I B R n] obtain t s3 T3 where s3: "block_for n s2 = Some (t, s3)" "t \<noteq> 0" "t \<in> T3"
    "T \<subseteq> T3" "t \<notin> allocated T (view s)" "heap_inv T3 (view s3) (l_freePages s3)" "keeps T (view s) (view s3)"
    "allocated T3 (view s3) = insert t (allocated T (view s))" "unat n + 32 \<le> unat (view s3 Real_size t)"
    "below (unat (brk s3)) T3 (view s3)" "same_outside (tag_region T3) (mem s) (mem s3)" "l_initialized s3 \<noteq> 0"
    "counts_kept (l_completePages s2) (l_completePages s3)"
    "no_free_pair T (view s) \<longrightarrow> no_free_pair T3 (view s3) \<and> taken_or_none (view s3) (view s3 Split_right t)"
    "\<And>lo. lo \<le> unat (brk s) \<Longrightarrow> tags_above lo T \<Longrightarrow> tags_above lo T3" "unat (brk s) \<le> unat (brk s3)"
    "unat (brk s3) \<le> unat (brk s) + unat (pages_for n) * 4096" "env s3 = env s"
    "filed T (view s) \<longrightarrow> filed T3 (view s3)"
    using same by metis
  from split_block [OF s3(6,3,9)] obtain s5 T5 where s5: "split_excess t n (tag_put Size t n s3) = Some s5"
    "heap_inv T5 (view s5) (l_freePages s5)" "T3 \<subseteq> T5" "allocated T5 (view s5) = allocated T3 (view s3)"
    "keeps (T3 - {t}) (view s3) (view s5)" "view s5 Size t = n" "unat n + 32 \<le> unat (view s5 Real_size t)"
    "heap_step T5 s3 s5" "\<And>b. below b T3 (view s3) \<Longrightarrow> below b T5 (view s5)" "\<And>lo. tags_above lo T3 \<Longrightarrow> tags_above lo T5"
    "no_free_pair T3 (view s3) \<Longrightarrow> view s3 Index t = - 1 \<Longrightarrow> taken_or_none (view s3) (view s3 Split_right t) \<Longrightarrow>
      no_free_pair T5 (view s5)"
    "filed T3 (view s3) \<Longrightarrow> view s3 Index t = - 1 \<Longrightarrow> filed T5 (view s5)" by blast
  let ?u = "unlock s5" and ?A = "allocated T (view s)"
  have U: "heap_same s5 ?u" "\<not> held ?u" "brk ?u = brk s5" "env ?u = env s5"
    by (rule unlock_same unlock_free unlock_brk unlock_env)+
  have vu: "view ?u = view s5" by (rule heap_same_view [OF U(1)])
  have run: "malloc lock unlock alloc n s = Some (t + 32, ?u)"
    unfolding malloc_block_for using s1 s3(1,2) s5(1) by (simp add: tables_ready_def)
  have brk5: "brk s5 = brk s3" "env s5 = env s3" "l_completePages s5 = l_completePages s3" "l_initialized s5 \<noteq> 0"
    using heap_step_brk [OF s5(8)] heap_step_env [OF s5(8)] s5(8) s3(12) by (auto simp: heap_step_def)
  have ti: "t \<in> allocated T3 (view s3)" using s3(8) by simp
  have "no_free_pair T5 (view s5)" using s5(11) s3(14) ok ti by (simp add: heap_ok_def allocated_def)
  moreover have "filed T5 (view s5)" using s5(12) s3(19) ok ti by (simp add: heap_ok_def allocated_def)
  ultimately have ok5: "heap_ok (unat (brk ?u)) T5 ?u"
    using s5(2) s5(9) [OF s3(10)] U vu brk5 by (simp add: heap_ok_def heap_same_def)
  have counts: "counts_kept (if l_initialized s = 0 then \<lambda>_. 0 else l_completePages s) (l_completePages ?u)"
    using s3(13) brk5(3) U(1) tab(1) by (simp add: heap_same_def)
  have AT: "?A \<subseteq> T3 - {t}" "?A \<subseteq> T" using s3(4,5) by (auto simp: allocated_def)
  have k: "keeps ?A (view s) (view ?u)" unfolding vu
    by (rule keeps_trans [of _ _ "view s3"]) (use s3(7) s5(5) AT in \<open>auto simp: keeps_def\<close>)
  have al: "allocated T5 (view ?u) = insert t ?A" using s5(4) s3(8) vu by simp
  have c5: "chunks T5 (view ?u)" using heap_inv_parts(1) [OF s5(2)] vu by simp
  have t5: "t \<in> T5" "?A \<subseteq> T5" using al by (auto simp: allocated_def)
  have bounds: "lo \<le> unat (brk s) \<Longrightarrow> tags_above lo T \<Longrightarrow> tags_above lo T5" "unat (brk s) \<le> unat (brk ?u)"
    "unat (brk ?u) \<le> unat (brk s) + unat (pages_for n) * 4096" "env ?u = env s" for lo
    using s3(15-18) s5(10) U(3,4) brk5 by simp_all
  have nz: "t + 32 \<noteq> 0" using block_pointer [OF s5(9) [OF s3(10)] t5(1) s5(7)] .
  have "same_outside (tag_region T5) (mem s) (mem s3)"
    by (rule same_outside_mono [OF s3(11)]) (rule tag_region_mono [OF s5(3)])
  moreover have "same_outside (tag_region T5) (mem s3) (mem ?u)" using s5(8) U(1) by (auto simp: heap_step_def heap_same_def)
  ultimately have mem: "same_outside (tag_region T5) (mem s) (mem ?u)" by (rule same_outside_trans)
  have user: "mem ?u x = mem s x" if "u \<in> ?A" "unat x \<in> user_bytes (view s) u" for u x
    by (rule user_bytes_same [OF c5 that(1) t5(2) k mem that(2)])
  have apart: "user_bytes (view ?u) t \<inter> user_bytes (view ?u) u = {}" if "u \<in> ?A" for u
    using user_bytes_apart [OF c5 t5(1), of u] t5(2) that s3(5) by auto
  have init: "l_initialized ?u \<noteq> 0" using brk5(4) U(1) by (simp add: heap_same_def)
  show ?thesis
    using run nz ok5 s3(5) al k s5(6,7) vu apart user U(2) init counts mem bounds
    by (intro exI [of _ t] exI [of _ ?u] exI [of _ T5]) simp
qed

end

section \<open>Out of pages\<close>

text \<open>
  The page hook at its limit: a request that it has no pages for is answered with the null pointer
  and a complaint, and changes nothing that the heap keeps.
\<close>

locale page_limit = page_source lock unlock held brk env alloc room
  for lock :: "'a liballoc_scheme \<Rightarrow> 'a liballoc_scheme option"
    and unlock :: "'a liballoc_scheme \<Rightarrow> 'a liballoc_scheme" and held :: "'a liballoc_scheme \<Rightarrow> bool"
    and brk :: "'a liballoc_scheme \<Rightarrow> u32" and env :: "'a liballoc_scheme \<Rightarrow> 'e"
    and alloc :: "u32 \<Rightarrow> 'a liballoc_scheme \<Rightarrow> (u32 \<times> 'a liballoc_scheme) option"
    and room :: "u32 \<Rightarrow> 'a liballoc_scheme \<Rightarrow> bool" +
  fixes full :: "u32 \<Rightarrow> 'a liballoc_scheme \<Rightarrow> bool"
    and said :: "'a liballoc_scheme \<Rightarrow> 'o list" and complaint :: "'o list"
  assumes full_refused: "full n s \<Longrightarrow> \<exists>s'. alloc n s = Some (0, s') \<and> heap_same s s' \<and> brk s' = brk s \<and> env s' = env s
      \<and> said s' = said s @ complaint"
    and lock_said: "lock s = Some s' \<Longrightarrow> said s' = said s"
    and unlock_said: "said (unlock s) = said s"
    and tables_said: "said (s\<lparr>l_freePages := h, l_completePages := c, l_initialized := i\<rparr>) = said s"
    and lock_full: "lock s = Some s' \<Longrightarrow> full n s \<Longrightarrow> full n s'"
    and tables_full: "full n s \<Longrightarrow> full n (s\<lparr>l_freePages := h, l_completePages := c, l_initialized := i\<rparr>)"
begin

lemma malloc_refused:
  assumes ok: "heap_ok (unat (brk s)) T s" and h: "\<not> held s" and f: "full (pages_for n) s" "\<not> served n s"
  shows "\<exists>s'. malloc lock unlock alloc n s = Some (0, s') \<and> heap_ok (unat (brk s')) T s' \<and> mem s' = mem s
    \<and> \<not> held s' \<and> brk s' = brk s \<and> env s' = env s \<and> said s' = said s @ complaint
    \<and> (l_initialized s \<noteq> 0 \<longrightarrow> l_completePages s' = l_completePages s)"
proof -
  let ?i = "nat (max (getexp n) (int MINEXP))"
  obtain s1 s2 where s1: "lock s = Some s1" "s2 = tables_ready s1" and v2: "view s2 = view s" "mem s2 = mem s" "brk s2 = brk s"
    "l_initialized s2 \<noteq> 0" "env s2 = env s" and I: "heap_inv T (view s2) (l_freePages s2)"
    and tab: "l_completePages s2 = (if l_initialized s = 0 then \<lambda>_. 0 else l_completePages s)"
      "l_freePages s2 = (if l_initialized s = 0 then \<lambda>_. 0 else l_freePages s)" using lock_ready [OF ok h] by blast
  have s2: "full (pages_for n) s2" "said s2 = said s"
    using lock_full [OF s1(1) f(1)] tables_full lock_said [OF s1(1)] by (simp_all add: s1(2) tables_ready_def tables_said)
  have search: "find_tag n (l_freePages s2 ?i) s2 = Some 0"
  proof (cases "l_initialized s = 0")
    case False
    then have "find_tag n (l_freePages s2 ?i) s = Some 0" using f(2) tab(2) by (simp add: served_def)
    then show ?thesis by (rule find_tag_mono) (rule v2(2))
  qed (simp add: tab(2) find_tag.simps)
  have "l_initialized s \<noteq> 0 \<longrightarrow> l_completePages s2 = l_completePages s" using tab(1) by simp
  moreover obtain s3 where s3: "alloc (pages_for n) s2 = Some (0, s3)" "heap_same s2 s3" "brk s3 = brk s2" "env s3 = env s2"
    "said s3 = said s2 @ complaint"
    using full_refused [OF s2(1)] by blast
  moreover have "block_for n s2 = Some (0, s3)"
    using search s3(1) by (simp add: block_for_def allocate_new_tag_pages)
  then have "malloc lock unlock alloc n s = Some (0, unlock s3)"
    unfolding malloc_block_for using s1 by (simp add: tables_ready_def)
  moreover have same: "heap_same s2 (unlock s3)" using s3(2) unlock_same [of s3] by (simp add: heap_same_def)
  moreover have "heap_ok (unat (brk (unlock s3))) T (unlock s3)"
    using ok I heap_same_view [OF same] same s3(3) v2 by (simp add: heap_ok_def heap_same_def unlock_brk)
  ultimately show ?thesis
    using s2 v2 s3(3-5) unlock_free [of s3] by (simp add: heap_same_def unlock_brk unlock_env unlock_said)
qed

end

end
