(* ===== verification/Kheap.thy ===== *)
theory Kheap
  imports Liballoc_Spec
begin

text \<open>
  The kernel's heap: \<^verbatim>\<open>kernel/kernel/liballoc.c\<close> on the hooks of \<^verbatim>\<open>kernel/kernel/rise.c\<close>.

  The hooks satisfy the contracts of \<open>lock_hooks\<close> and \<open>page_source\<close>, so the specifications proved
  under them hold of \<open>kmalloc\<close> and \<open>kfree\<close>.  They are combined into what a client of the heap sees:
  a step relation of its requests, releases and writes, and the invariant of every state that it
  can reach.
\<close>

section \<open>The hooks of the kernel\<close>

lemma liballoc_lock_eq:
  "liballoc_lock s = (if heap_lock s = 0 then Some (s\<lparr>heap_lock := 1\<rparr>) else None)"
  by (simp add: liballoc_lock_def spin_lock_eq)

lemma page_room_frame [simp]:
  "page_room n (s\<lparr>heap_lock := l\<rparr>) = page_room n s"
  "page_room n (s\<lparr>l_freePages := h\<rparr>) = page_room n s"
  "page_room n (s\<lparr>l_completePages := c\<rparr>) = page_room n s"
  "page_room n (s\<lparr>l_initialized := i\<rparr>) = page_room n s"
  by (simp_all add: page_room_def low_heap_def)

interpretation kernel_lock: lock_hooks liballoc_lock liballoc_unlock "\<lambda>s. heap_lock s \<noteq> 0" heap_cur
  "\<lambda>s. (kernel_dir s, heap_end s)"
  by unfold_locales
    (auto simp: liballoc_lock_eq liballoc_unlock_def spin_unlock_def heap_same_def split: if_splits)

interpretation kernel_pages: page_source liballoc_lock liballoc_unlock "\<lambda>s. heap_lock s \<noteq> 0" heap_cur
  "\<lambda>s. (kernel_dir s, heap_end s)" liballoc_alloc page_room
proof unfold_locales
  fix n and s :: "'a liballoc_scheme"
  assume r: "page_room n s"
  show "\<exists>s'. liballoc_alloc n s = Some (heap_cur s, s') \<and> heap_same s s' \<and> heap_cur s \<noteq> 0
    \<and> unat (heap_cur s') = unat (heap_cur s) + unat n * 4096
    \<and> (kernel_dir s', heap_end s') = (kernel_dir s, heap_end s)"
    using liballoc_alloc_room [OF r] r by (simp add: heap_same_def page_room_def low_heap_def)
qed (auto simp: liballoc_lock_eq split: if_splits)

text \<open>
  The page hook refuses when the signed comparison says that the pages would end at or behind the
  end of the heap, and says so on the serial line.
\<close>

definition pages_full :: "u32 \<Rightarrow> 'a rise_scheme \<Rightarrow> bool" where
  "pages_full n s \<longleftrightarrow> tx_live s \<and> sint (heap_end s) \<le> sint (n * 0x1000 + heap_cur s)"

definition out_of_memory :: "port_write list" where
  "out_of_memory = map (Outb PORT) (map of_char (''Out of memory: You need a bigger heap pal'' @ [CHR 0x0A]))"

lemma liballoc_alloc_full:
  assumes "pages_full n s"
  shows "\<exists>k. liballoc_alloc n s = Some (0, s\<lparr>io := io s @ out_of_memory, in_count := k\<rparr>)"
proof -
  let ?m = "''Out of memory: You need a bigger heap pal'' @ [CHR 0x0A]"
  have f: "tx_live s" "sint (heap_end s) \<le> sint (n * 0x1000 + heap_cur s)" using assms by (simp_all add: pages_full_def)
  then have r: "liballoc_alloc n s = map_option (Pair 0) (qemu_printf ?m [] s)" by (simp add: liballoc_alloc_def)
  have "CHR ''%'' \<notin> set ?m" by simp
  from qemu_printf_message [OF f(1) this, of "[]"] show ?thesis
    unfolding r printed_def out_of_memory_def by (elim exE conjE) (simp, blast)
qed

interpretation kernel_limit: page_limit liballoc_lock liballoc_unlock "\<lambda>s. heap_lock s \<noteq> 0" heap_cur
  "\<lambda>s. (kernel_dir s, heap_end s)" liballoc_alloc page_room pages_full io out_of_memory
proof unfold_locales
  fix n and s :: "'a liballoc_scheme"
  assume "pages_full n s"
  from liballoc_alloc_full [OF this] show "\<exists>s'. liballoc_alloc n s = Some (0, s') \<and> heap_same s s' \<and> heap_cur s' = heap_cur s
    \<and> (kernel_dir s', heap_end s') = (kernel_dir s, heap_end s)
    \<and> io s' = io s @ out_of_memory"
    by (auto simp: heap_same_def)
qed (auto simp: liballoc_lock_eq liballoc_unlock_def pages_full_def tx_live_def tx_ready_def split: if_splits)

text \<open>The page tables lie below an address, the heap above it.\<close>

definition mapped_below :: "nat \<Rightarrow> 'a vmm_scheme \<Rightarrow> bool" where
  "mapped_below lo s \<longleftrightarrow>
     (\<exists>table. identity_map (kernel_dir s) table (mem s) \<and> unat (kernel_dir s) + 0x2000 \<le> lo \<and> unat table + 0x1000 \<le> lo)
     \<and> 0 < lo \<and> lo \<le> unat (heap_cur s) \<and> unat (heap_end s) < 2147483648"

text \<open>The heap between two calls, with its tags \<open>T\<close> above \<open>lo\<close>.\<close>

definition kheap :: "nat \<Rightarrow> u32 set \<Rightarrow> 'a liballoc_scheme \<Rightarrow> bool" where
  "kheap lo T s \<longleftrightarrow> heap_ok (unat (heap_cur s)) T s \<and> heap_lock s = 0 \<and> tags_above lo T \<and> mapped_below lo s"

lemma identity_map_kept:
  assumes i: "identity_map dir table m" and m: "same_outside R m m'"
    and R: "\<And>x. R x \<Longrightarrow> \<not> in_region dir 8192 x \<and> \<not> in_region table 4096 x"
  shows "identity_map dir table m'"
proof -
  have at_dir: "load32 m' (dir + of_nat k) = load32 m (dir + of_nat k)" if "k + 4 \<le> 8192" for k
    by (rule same_outside_load32 [OF m]) (use that R in_region_offset [of "k + _" 8192 dir] in \<open>force simp: add.assoc\<close>)
  have at_table: "load32 m' (table + of_nat k) = load32 m (table + of_nat k)" if "k + 4 \<le> 4096" for k
    by (rule same_outside_load32 [OF m]) (use that R in_region_offset [of "k + _" 4096 table] in \<open>force simp: add.assoc\<close>)
  have "load32 m' (page_slot table k) = load32 m (page_slot table k)" if "k < 1024" for k
    using that at_table [of "unat k * 4"] by (simp add: page_slot_nat word_less_nat_alt)
  moreover have "load32 m' (physical_slot dir k) = load32 m (physical_slot dir k)"
    "load32 m' (tables_slot dir k) = load32 m (tables_slot dir k)" if "k < 1024" for k
    using that at_dir [of "4096 + unat k * 4"] at_dir [of "unat k * 4"]
    by (simp_all add: physical_slot_nat tables_slot_nat word_less_nat_alt)
  ultimately show ?thesis using i by (simp add: identity_map_def)
qed

lemma identity_map_outside:
  assumes i: "identity_map dir table m" and lo: "unat dir + 0x2000 \<le> lo" "unat table + 0x1000 \<le> lo" "lo \<le> 4294967296"
    and m: "same_outside R m m'" "\<And>x. R x \<Longrightarrow> lo \<le> unat x"
  shows "identity_map dir table m'"
proof (rule identity_map_kept [OF i m(1)])
  fix x
  assume "R x"
  then have "lo \<le> unat x" by (rule m(2))
  then show "\<not> in_region dir 8192 x \<and> \<not> in_region table 4096 x" using lo by (auto simp: in_region_ordered)
qed

lemma mapped_below_step:
  assumes "mapped_below lo s" "same_outside R (mem s) (mem s')" "\<And>x. R x \<Longrightarrow> lo \<le> unat x"
    "kernel_dir s' = kernel_dir s" "heap_end s' = heap_end s" "unat (heap_cur s) \<le> unat (heap_cur s')"
  shows "mapped_below lo s'"
proof -
  have "lo \<le> 4294967296" using assms(1) unat_u32_lt [of "heap_cur s"] by (simp add: mapped_below_def)
  then show ?thesis
    using assms(1,4-6) identity_map_outside [OF _ _ _ _ assms(2,3)] by (fastforce simp: mapped_below_def)
qed

text \<open>Room for pages is then a matter of the numbers alone.\<close>

definition heap_fits :: "u32 \<Rightarrow> 'a rise_scheme \<Rightarrow> bool" where
  "heap_fits n s \<longleftrightarrow> unat (heap_cur s) + unat (pages_for n) * 4096 < min (unat (heap_end s)) 4194304"

lemma heap_fits_room: "mapped_below lo s \<Longrightarrow> heap_fits n s \<Longrightarrow> page_room (pages_for n) s"
  by (auto simp: mapped_below_def heap_fits_def page_room_def low_heap_def)

lemma tag_region_above: "kheap lo T s \<Longrightarrow> tag_region T x \<Longrightarrow> lo \<le> unat x"
proof -
  assume k: "kheap lo T s" and x: "tag_region T x"
  then obtain t where t: "t \<in> T" "in_region t 32 x" by (auto simp: tag_region_def)
  then have "l_initialized s \<noteq> 0" using k by (auto simp: kheap_def heap_ok_def split: if_splits)
  then have c: "chunks T (view s)" using k heap_inv_parts(1) by (auto simp: kheap_def heap_ok_def)
  have "unat t \<le> unat x" using chunksD(2,3) [OF c t(1)] t(2) in_region_ordered [of t 32 x] by simp
  then show ?thesis using k t(1) by (force simp: kheap_def tags_above_def)
qed

lemma kmalloc_spec:
  assumes k: "kheap lo T s" and r: "heap_fits n s \<or> served n s" and n: "unat n \<le> 4294900000"
  shows "\<exists>t s' T'. kmalloc n s = Some (t + 32, s') \<and> t + 32 \<noteq> 0 \<and> kheap lo T' s'
    \<and> t \<notin> allocated T (view s) \<and> allocated T' (view s') = insert t (allocated T (view s))
    \<and> keeps (allocated T (view s)) (view s) (view s')
    \<and> view s' Size t = n \<and> unat n + 32 \<le> unat (view s' Real_size t)
    \<and> (\<forall>u \<in> allocated T (view s). \<forall>x. unat x \<in> user_bytes (view s) u \<longrightarrow> mem s' x = mem s x)
    \<and> counts_kept (if l_initialized s = 0 then \<lambda>_. 0 else l_completePages s) (l_completePages s')
    \<and> unat (heap_cur s') \<le> unat (heap_cur s) + unat (pages_for n) * 4096 \<and> heap_end s' = heap_end s"
proof -
  have h: "heap_ok (unat (heap_cur s)) T s" "\<not> heap_lock s \<noteq> 0" and a: "tags_above lo T" and m: "mapped_below lo s"
    using k by (simp_all add: kheap_def)
  obtain t s' T' where s': "kmalloc n s = Some (t + 32, s')" "t + 32 \<noteq> 0" "heap_ok (unat (heap_cur s')) T' s'"
    "t \<notin> allocated T (view s)" "allocated T' (view s') = insert t (allocated T (view s))"
    "keeps (allocated T (view s)) (view s) (view s')" "view s' Size t = n" "unat n + 32 \<le> unat (view s' Real_size t)"
    "\<forall>u \<in> allocated T (view s). \<forall>x. unat x \<in> user_bytes (view s) u \<longrightarrow> mem s' x = mem s x" "heap_lock s' = 0"
    "l_initialized s' \<noteq> 0"
    "counts_kept (if l_initialized s = 0 then \<lambda>_. 0 else l_completePages s) (l_completePages s')"
    "same_outside (tag_region T') (mem s) (mem s')" "\<And>lo. lo \<le> unat (heap_cur s) \<Longrightarrow> tags_above lo T \<Longrightarrow> tags_above lo T'"
    "unat (heap_cur s) \<le> unat (heap_cur s')" "unat (heap_cur s') \<le> unat (heap_cur s) + unat (pages_for n) * 4096"
    "kernel_dir s' = kernel_dir s" "heap_end s' = heap_end s"
    using kernel_pages.malloc_spec [OF h _ n] r heap_fits_room [OF m] unfolding kmalloc_def by auto
  have a': "tags_above lo T'" using s'(14) m a by (simp add: mapped_below_def)
  have c: "chunks T' (view s')" using s'(3,11) heap_inv_parts(1) by (auto simp: heap_ok_def)
  have "lo \<le> unat x" if x: "tag_region T' x" for x
  proof -
    obtain u where u: "u \<in> T'" "in_region u 32 x" using x by (auto simp: tag_region_def)
    have "unat u \<le> unat x" using chunksD(2,3) [OF c u(1)] u(2) in_region_ordered [of u 32 x] by simp
    then show ?thesis using a' u(1) by (force simp: tags_above_def)
  qed
  then have "mapped_below lo s'" using mapped_below_step [OF m s'(13)] s'(15,17,18) by blast
  then have "kheap lo T' s'" using s'(3,10) a' by (simp add: kheap_def)
  then show ?thesis using s'(1,2,4-9,12,16,18) by blast
qed

text \<open>What a pointer's own bytes are, for a block in a heap.\<close>

lemma kheap_user_byte:
  assumes "kheap lo T s" "u \<in> allocated T (view s)" "unat x \<in> user_bytes (view s) u"
  shows "\<not> tag_region T x"
proof -
  have "l_initialized s \<noteq> 0" using assms(1,2) by (auto simp: kheap_def heap_ok_def allocated_def split: if_splits)
  then have c: "chunks T (view s)" using assms(1) heap_inv_parts(1) by (auto simp: kheap_def heap_ok_def)
  have "u \<in> T" using assms(2) by (simp add: allocated_def)
  from user_bytes_safe [OF c this] show ?thesis using assms(3) by blast
qed

lemma kfree_spec:
  assumes k: "kheap lo T s" and p: "p \<noteq> 0" "p - 32 \<in> allocated T (view s)"
    and c: "\<And>i. l_completePages s i \<noteq> MAXCOMPLETE"
  shows "\<exists>s' T'. kfree p s = Some s' \<and> kheap lo T' s'
    \<and> allocated T' (view s') = allocated T (view s) - {p - 32}
    \<and> keeps (allocated T (view s) - {p - 32}) (view s) (view s')
    \<and> (\<forall>u \<in> allocated T (view s). \<forall>x. unat x \<in> user_bytes (view s) u \<longrightarrow> mem s' x = mem s x)
    \<and> heap_cur s' = heap_cur s \<and> heap_end s' = heap_end s \<and> same_outside (tag_region T) (mem s) (mem s')"
proof -
  have "T \<noteq> {}" using p(2) by (auto simp: allocated_def)
  then have I: "heap_inv T (view s) (l_freePages s)" "l_initialized s \<noteq> 0" "below (unat (heap_cur s)) T (view s)"
    "no_free_pair T (view s)" "filed T (view s)"
    and l: "\<not> heap_lock s \<noteq> 0"
    using k by (auto simp: kheap_def heap_ok_def split: if_splits)
  have nz: "(p - 32) + 32 \<noteq> 0" using p(1) by simp
  obtain s' T' where s': "kfree p s = Some s'" "heap_inv T' (view s') (l_freePages s')"
    "allocated T' (view s') = allocated T (view s) - {p - 32}"
    "keeps (allocated T (view s) - {p - 32}) (view s) (view s')"
    "same_outside (tag_region T) (mem s) (mem s')" "l_initialized s' = l_initialized s" "heap_lock s' = 0"
    "heap_cur s' = heap_cur s" "below (unat (heap_cur s)) T' (view s')" "no_free_pair T' (view s')" "filed T' (view s')"
    "T' \<subseteq> T" "kernel_dir s' = kernel_dir s" "heap_end s' = heap_end s"
    using kernel_lock.free_spec [OF I(1) p(2) nz l c, where dealloc = liballoc_free] I(3-5)
    by (auto simp: kfree_def)
  have "mem s' x = mem s x" if "u \<in> allocated T (view s)" "unat x \<in> user_bytes (view s) u" for u x
    using kheap_user_byte [OF k that] s'(5) by (simp add: same_outside_def)
  moreover have "kheap lo T' s'"
  proof -
    have "tags_above lo T'" using k s'(12) by (auto simp: kheap_def tags_above_def)
    moreover have "mapped_below lo s'"
      using k s'(8,13,14) tag_region_above [OF k] by (intro mapped_below_step [OF _ s'(5)]) (auto simp: kheap_def)
    ultimately show ?thesis using s' I(2) by (simp add: kheap_def heap_ok_def)
  qed
  ultimately show ?thesis using s'(1,3-5,8,14) by blast
qed

text \<open>A write outside the tags does not disturb the heap.\<close>

lemma agree_outside:
  assumes "same_outside R (mem s) m" "\<And>x. R x \<Longrightarrow> \<not> tag_region T x"
  shows "agree T (view (s\<lparr>mem := m\<rparr>)) (view s)"
proof -
  have "tag_get f t (s\<lparr>mem := m\<rparr>) = tag_get f t s" if "t \<in> T" for f t
  proof -
    have "\<not> R (t + field_offset f + of_nat i)" if "i < 4" for i
    proof -
      have "in_region (t + field_offset f) 4 (t + field_offset f + of_nat i)" using that by (intro in_region_offset) simp_all
      then have "tag_region T (t + field_offset f + of_nat i)"
        using \<open>t \<in> T\<close> field_in_tag unfolding tag_region_def by blast
      then show ?thesis using assms(2) by blast
    qed
    then show ?thesis unfolding tag_get_def by (simp add: same_outside_load32 [OF assms(1)])
  qed
  then show ?thesis by (simp add: agree_def view_def)
qed

lemma kheap_outside:
  assumes k: "kheap lo T s" and m: "same_outside R (mem s) m" "\<And>x. R x \<Longrightarrow> \<not> tag_region T x"
    and low: "mapped_below lo (s\<lparr>mem := m\<rparr>)"
  shows "kheap lo T (s\<lparr>mem := m\<rparr>)"
proof -
  note ag = agree_outside [OF m(1,2)]
  show ?thesis
  proof (cases "l_initialized s = 0")
    case False
    then have I: "heap_inv T (view s) (l_freePages s)" using k by (simp add: kheap_def heap_ok_def)
    show ?thesis
      using k False agree_heap_inv [OF ag I] ag no_free_pair_agree [OF ag heap_inv_parts(2) [OF I]] filed_agree [OF ag] low
      by (simp add: kheap_def heap_ok_def below_def agree_def)
  qed (use k low in \<open>auto simp: kheap_def heap_ok_def below_def no_free_pair_def filed_def\<close>)
qed

section \<open>What a client sees\<close>

text \<open>
  The blocks that clients hold: the pointers that \<open>kmalloc\<close> returned and nobody released, with the
  sizes that were asked for.
\<close>

definition client_of :: "nat \<Rightarrow> u32 set \<Rightarrow> (u32 \<rightharpoonup> u32) \<Rightarrow> 'a liballoc_scheme \<Rightarrow> bool" where
  "client_of lo T A s \<longleftrightarrow> kheap lo T s \<and> 0 \<notin> dom A \<and> (\<forall>p. p \<noteq> 0 \<longrightarrow> p \<in> dom A \<longleftrightarrow> p - 32 \<in> allocated T (view s))
     \<and> (\<forall>p n. A p = Some n \<longrightarrow> view s Size (p - 32) = n \<and> unat n + 32 \<le> unat (view s Real_size (p - 32)))"

definition client :: "(u32 \<rightharpoonup> u32) \<Rightarrow> 'a liballoc_scheme \<Rightarrow> bool" where
  "client A s \<longleftrightarrow> (\<exists>lo T. client_of lo T A s)"

text \<open>What a request for \<open>n\<close> bytes takes from the room of the heap at most.\<close>

definition grows :: "u32 \<Rightarrow> 'a liballoc_scheme \<Rightarrow> 'a liballoc_scheme \<Rightarrow> bool" where
  "grows n s s' \<longleftrightarrow> unat (heap_cur s') \<le> unat (heap_cur s) + unat (pages_for n) * 4096 \<and> heap_end s' = heap_end s"

text \<open>The bytes of a block, by its pointer and size.\<close>

definition block_bytes :: "u32 \<Rightarrow> u32 \<Rightarrow> nat set" where
  "block_bytes p n = {unat p ..< unat p + unat n}"

lemma client_block:
  assumes "client_of lo T A s" "A p = Some n"
  shows "p \<noteq> 0" "p - 32 \<in> allocated T (view s)" "unat p = unat (p - 32) + 32"
    "block_bytes p n \<subseteq> user_bytes (view s) (p - 32)" "unat p + unat n \<le> unat (heap_cur s)"
proof -
  have d: "p \<in> dom A" using assms(2) by auto
  show nz: "p \<noteq> 0" using d assms(1) by (auto simp: client_of_def)
  show al: "p - 32 \<in> allocated T (view s)" using d nz assms(1) by (auto simp: client_of_def)
  then have T: "p - 32 \<in> T" "T \<noteq> {}" by (auto simp: allocated_def)
  have k: "below (unat (heap_cur s)) T (view s)" using assms(1) by (simp add: client_of_def kheap_def heap_ok_def)
  have r: "unat n + 32 \<le> unat (view s Real_size (p - 32))" using assms by (simp add: client_of_def)
  have e: "unat (p - 32) + unat (view s Real_size (p - 32)) \<le> unat (heap_cur s)" using k T by (simp add: below_def)
  then have "unat ((p - 32) + 32) = unat (p - 32) + 32"
    using r unat_u32_lt [of "heap_cur s"] by (subst unat_plus_u32) simp_all
  then show u: "unat p = unat (p - 32) + 32" by simp
  show "block_bytes p n \<subseteq> user_bytes (view s) (p - 32)" using u r by (auto simp: block_bytes_def user_bytes_def)
  show "unat p + unat n \<le> unat (heap_cur s)" using u r e by simp
qed

lemma client_apart:
  assumes "client_of lo T A s" "A p = Some n" "A q = Some k" "p \<noteq> q"
  shows "block_bytes p n \<inter> block_bytes q k = {}"
proof -
  note bp = client_block [OF assms(1,2)] and bq = client_block [OF assms(1,3)]
  have T: "p - 32 \<in> T" "q - 32 \<in> T" using bp(2) bq(2) by (auto simp: allocated_def)
  then have "l_initialized s \<noteq> 0" using assms(1) by (auto simp: client_of_def kheap_def heap_ok_def split: if_splits)
  then have c: "chunks T (view s)" using assms(1) heap_inv_parts(1) by (auto simp: client_of_def kheap_def heap_ok_def)
  have "user_bytes (view s) (p - 32) \<inter> user_bytes (view s) (q - 32) = {}"
    using assms(4) by (intro user_bytes_apart [OF c T]) auto
  then show ?thesis using bp(4) bq(4) by blast
qed

text \<open>The bytes of the blocks in \<open>A\<close> read the same in both states.\<close>

definition same_blocks :: "(u32 \<rightharpoonup> u32) \<Rightarrow> 'a liballoc_scheme \<Rightarrow> 'a liballoc_scheme \<Rightarrow> bool" where
  "same_blocks A s s' \<longleftrightarrow> (\<forall>p n x. A p = Some n \<longrightarrow> unat x \<in> block_bytes p n \<longrightarrow> mem s' x = mem s x)"

lemma client_kmalloc:
  assumes c: "client A s" and r: "heap_fits n s \<or> served n s" and n: "unat n \<le> 4294900000"
  shows "\<exists>p s'. kmalloc n s = Some (p, s') \<and> p \<noteq> 0 \<and> A p = None \<and> client (A(p \<mapsto> n)) s' \<and> same_blocks A s s' \<and> grows n s s'
    \<and> counts_kept (if l_initialized s = 0 then \<lambda>_. 0 else l_completePages s) (l_completePages s')"
proof -
  obtain lo T where T: "client_of lo T A s" using c by (auto simp: client_def)
  then have k: "kheap lo T s" by (simp add: client_of_def)
  obtain t s' T' where s': "kmalloc n s = Some (t + 32, s')" "t + 32 \<noteq> 0" "kheap lo T' s'"
    "t \<notin> allocated T (view s)" "allocated T' (view s') = insert t (allocated T (view s))"
    "keeps (allocated T (view s)) (view s) (view s')" "view s' Size t = n" "unat n + 32 \<le> unat (view s' Real_size t)"
    "\<And>u x. u \<in> allocated T (view s) \<Longrightarrow> unat x \<in> user_bytes (view s) u \<Longrightarrow> mem s' x = mem s x"
    "counts_kept (if l_initialized s = 0 then \<lambda>_. 0 else l_completePages s) (l_completePages s')"
    "grows n s s'" using kmalloc_spec [OF k r n] unfolding grows_def by blast
  have new: "A (t + 32) = None"
  proof (rule ccontr)
    assume "A (t + 32) \<noteq> None"
    then obtain k where "A (t + 32) = Some k" by auto
    from client_block(2) [OF T this] show False using s'(4) by simp
  qed
  have eq: "p - 32 = t \<longleftrightarrow> p = t + 32" for p by (auto simp: algebra_simps)
  have "client_of lo T' (A(t + 32 \<mapsto> n)) s'"
    unfolding client_of_def
  proof (intro conjI allI impI)
    show "kheap lo T' s'" by (rule s'(3))
    show "0 \<notin> dom (A(t + 32 \<mapsto> n))" using T s'(2) by (auto simp: client_of_def)
    show "p \<in> dom (A(t + 32 \<mapsto> n)) \<longleftrightarrow> p - 32 \<in> allocated T' (view s')" if "p \<noteq> 0" for p
      using T that by (auto simp: client_of_def s'(5) eq)
    fix p k
    assume p: "(A(t + 32 \<mapsto> n)) p = Some k"
    have "view s' Size (p - 32) = k \<and> unat k + 32 \<le> unat (view s' Real_size (p - 32))"
    proof (cases "p = t + 32")
      case True
      then show ?thesis using p s'(7,8) by simp
    next
      case False
      then have "A p = Some k" using p by simp
      then show ?thesis using T client_block(2) [OF T] s'(6) by (simp add: client_of_def keeps_def)
    qed
    then show "view s' Size (p - 32) = k" "unat k + 32 \<le> unat (view s' Real_size (p - 32))" by simp_all
  qed
  moreover have "same_blocks A s s'"
    unfolding same_blocks_def using client_block(2,4) [OF T] s'(9) by blast
  ultimately show ?thesis using s'(1,2,10,11) new unfolding client_def by blast
qed

text \<open>
  A request that neither the list of its class nor the rest of the heap can serve.
\<close>

definition heap_full :: "u32 \<Rightarrow> 'a liballoc_scheme \<Rightarrow> bool" where
  "heap_full n s \<longleftrightarrow> pages_full (pages_for n) s \<and> \<not> served n s"

lemma client_refused:
  assumes c: "client_of lo T A s" and f: "heap_full n s"
  shows "\<exists>s'. kmalloc n s = Some (0, s') \<and> client_of lo T A s' \<and> mem s' = mem s
    \<and> heap_cur s' = heap_cur s \<and> heap_end s' = heap_end s \<and> kernel_dir s' = kernel_dir s \<and> io s' = io s @ out_of_memory
    \<and> (l_initialized s \<noteq> 0 \<longrightarrow> l_completePages s' = l_completePages s)"
proof -
  have k: "heap_ok (unat (heap_cur s)) T s" "\<not> heap_lock s \<noteq> 0" "tags_above lo T" "mapped_below lo s"
    using c by (simp_all add: client_of_def kheap_def)
  have full: "pages_full (pages_for n) s" "\<not> served n s" using f by (simp_all add: heap_full_def)
  obtain s' where s': "kmalloc n s = Some (0, s')" "heap_ok (unat (heap_cur s')) T s'" "mem s' = mem s" "\<not> heap_lock s' \<noteq> 0"
    "heap_cur s' = heap_cur s" "kernel_dir s' = kernel_dir s" "heap_end s' = heap_end s" "io s' = io s @ out_of_memory"
    "l_initialized s \<noteq> 0 \<longrightarrow> l_completePages s' = l_completePages s"
    using kernel_limit.malloc_refused [OF k(1,2) full] unfolding kmalloc_def by auto
  have "view s' = view s" using s'(3) by (simp add: view_def tag_get_def)
  moreover have "mapped_below lo s'" using k(4) s'(3,5-7) by (simp add: mapped_below_def)
  ultimately have "client_of lo T A s'" using c s'(2,4) k(3) by (simp add: client_of_def kheap_def)
  then show ?thesis using s' by blast
qed

lemma client_of_kfree:
  assumes T: "client_of lo T A s" and p: "p \<in> dom A" and m: "\<And>i. l_completePages s i \<noteq> MAXCOMPLETE"
  shows "\<exists>s'. kfree p s = Some s' \<and> client (A(p := None)) s' \<and> same_blocks A s s'
    \<and> heap_cur s' = heap_cur s \<and> heap_end s' = heap_end s \<and> same_outside (tag_region T) (mem s) (mem s')"
proof -
  from T have k: "kheap lo T s" by (simp add: client_of_def)
  obtain n where n: "A p = Some n" using p by auto
  note b = client_block [OF T n]
  obtain s' T' where s': "kfree p s = Some s'" "kheap lo T' s'"
    "allocated T' (view s') = allocated T (view s) - {p - 32}"
    "keeps (allocated T (view s) - {p - 32}) (view s) (view s')"
    "\<And>u x. u \<in> allocated T (view s) \<Longrightarrow> unat x \<in> user_bytes (view s) u \<Longrightarrow> mem s' x = mem s x"
    "heap_cur s' = heap_cur s" "heap_end s' = heap_end s" "same_outside (tag_region T) (mem s) (mem s')"
    using kfree_spec [OF k b(1,2) m] by blast
  have "client_of lo T' (A(p := None)) s'"
    unfolding client_of_def
  proof (intro conjI allI impI)
    show "kheap lo T' s'" by (rule s'(2))
    show "0 \<notin> dom (A(p := None))" using T by (auto simp: client_of_def)
    show "q \<in> dom (A(p := None)) \<longleftrightarrow> q - 32 \<in> allocated T' (view s')" if "q \<noteq> 0" for q
      using T that by (auto simp: client_of_def s'(3))
    fix q k
    assume "(A(p := None)) q = Some k"
    then have q: "A q = Some k" "q - 32 \<noteq> p - 32" by (auto split: if_splits)
    then show "view s' Size (q - 32) = k" "unat k + 32 \<le> unat (view s' Real_size (q - 32))"
      using T client_block(2) [OF T q(1)] s'(4) by (simp_all add: client_of_def keeps_def)
  qed
  moreover have "same_blocks A s s'"
    unfolding same_blocks_def using client_block(2,4) [OF T] s'(5) by blast
  ultimately show ?thesis using s'(1,6-8) unfolding client_def by blast
qed

lemma client_kfree:
  assumes "client A s" "p \<in> dom A" "\<And>i. l_completePages s i \<noteq> MAXCOMPLETE"
  shows "\<exists>s'. kfree p s = Some s' \<and> client (A(p := None)) s' \<and> same_blocks A s s'
    \<and> heap_cur s' = heap_cur s \<and> heap_end s' = heap_end s"
  using client_of_kfree [OF _ assms(2,3)] assms(1) unfolding client_def [of A s] by blast

text \<open>A write outside the tags, with the pages still mapped, does not disturb the clients.\<close>

lemma client_of_outside:
  assumes T: "client_of lo T A s" and m: "same_outside R (mem s) m" "\<And>x. R x \<Longrightarrow> \<not> tag_region T x"
    and low: "mapped_below lo (s\<lparr>mem := m\<rparr>)"
  shows "client_of lo T A (s\<lparr>mem := m\<rparr>)"
proof -
  have k: "kheap lo T s" using T by (simp add: client_of_def)
  note ag = agree_outside [OF m]
  have v: "view (s\<lparr>mem := m\<rparr>) f x = view s f x" if "x \<in> allocated T (view s)" for f x
    using ag that by (simp add: agree_def allocated_def)
  show ?thesis
    unfolding client_of_def
  proof (intro conjI allI impI)
    show "kheap lo T (s\<lparr>mem := m\<rparr>)" by (rule kheap_outside [OF k m low])
    show "0 \<notin> dom A" using T by (simp add: client_of_def)
    show "q \<in> dom A \<longleftrightarrow> q - 32 \<in> allocated T (view (s\<lparr>mem := m\<rparr>))" if "q \<noteq> 0" for q
      using T that by (simp add: client_of_def agree_allocated [OF ag])
    fix q k
    assume q: "A q = Some k"
    then show "view (s\<lparr>mem := m\<rparr>) Size (q - 32) = k" "unat k + 32 \<le> unat (view (s\<lparr>mem := m\<rparr>) Real_size (q - 32))"
      using T v client_block(2) [OF T q] by (simp_all add: client_of_def)
  qed
qed

text \<open>A write into a block.\<close>

lemma client_write:
  assumes c: "client A s" and p: "A p = Some n" and m: "same_outside R (mem s) m" "\<And>x. R x \<Longrightarrow> unat x \<in> block_bytes p n"
  shows "client A (s\<lparr>mem := m\<rparr>)" "same_blocks (A(p := None)) s (s\<lparr>mem := m\<rparr>)"
proof -
  obtain lo T where T: "client_of lo T A s" using c by (auto simp: client_def)
  then have k: "kheap lo T s" by (simp add: client_of_def)
  note b = client_block [OF T p]
  have R: "\<not> tag_region T x" if "R x" for x :: u32 using kheap_user_byte [OF k b(2)] m(2) [OF that] b(4) by blast
  have lo: "lo \<le> unat x" if "R x" for x :: u32
  proof -
    have "unat x \<in> user_bytes (view s) (p - 32)" using m(2) [OF that] b(4) by blast
    moreover have "p - 32 \<in> T" using b(2) by (simp add: allocated_def)
    ultimately show ?thesis using k by (force simp: kheap_def tags_above_def user_bytes_def)
  qed
  have "mapped_below lo s" using k by (simp add: kheap_def)
  then have "mapped_below lo (s\<lparr>mem := m\<rparr>)"
    by (rule mapped_below_step [OF _ _ lo]) (simp_all add: m(1))
  then have "client_of lo T A (s\<lparr>mem := m\<rparr>)" using client_of_outside [OF T m(1) R] by blast
  then show "client A (s\<lparr>mem := m\<rparr>)" by (auto simp: client_def)
  show "same_blocks (A(p := None)) s (s\<lparr>mem := m\<rparr>)"
    unfolding same_blocks_def
  proof (intro allI impI)
    fix q k and x :: u32
    assume "(A(p := None)) q = Some k" "unat x \<in> block_bytes q k"
    then have "\<not> R x" using client_apart [OF T p, of q k] m(2) by (auto split: if_splits)
    then show "mem (s\<lparr>mem := m\<rparr>) x = mem s x" using m(1) by (simp add: same_outside_def)
  qed
qed

lemma client_region:
  assumes "client A s" "A p = Some n"
  shows "in_region p (unat n) x \<longleftrightarrow> unat x \<in> block_bytes p n"
proof -
  obtain lo T where "client_of lo T A s" using assms(1) by (auto simp: client_def)
  from client_block(5) [OF this assms(2)] have "unat p + unat n \<le> 4294967296"
    using unat_u32_lt [of "heap_cur s"] by simp
  then show ?thesis by (auto simp: in_region_ordered block_bytes_def)
qed

lemma client_blocks_apart:
  assumes c: "client A s" and p: "A p = Some n" "A q = Some k" "p \<noteq> q" and r: "r \<le> unat n" "r \<le> unat k"
  shows "apart q r p r"
proof -
  obtain lo T where T: "client_of lo T A s" using c by (auto simp: client_def)
  note e = client_block(5) [OF T p(1)] client_block(5) [OF T p(2)] unat_u32_lt [of "heap_cur s"]
  show ?thesis
  proof (cases "r = 0")
    case False
    have "unat p + unat n \<le> unat q \<or> unat q + unat k \<le> unat p"
    proof (rule ccontr)
      assume "\<not> ?thesis"
      then have "max (unat p) (unat q) \<in> block_bytes p n \<inter> block_bytes q k"
        using False r by (auto simp: block_bytes_def max_def)
      then show False using client_apart [OF T p] by simp
    qed
    then show ?thesis
    proof
      assume "unat p + unat n \<le> unat q"
      then show ?thesis using False r e by (intro apart_sym [OF apart_ordered]) simp_all
    next
      assume "unat q + unat k \<le> unat p"
      then show ?thesis using False r e by (intro apart_ordered) simp_all
    qed
  qed (simp add: apart_def)
qed

lemma client_initialized: "client A s \<Longrightarrow> A p = Some n \<Longrightarrow> l_initialized s \<noteq> 0"
proof -
  assume c: "client A s" and p: "A p = Some n"
  from c obtain lo T where T: "client_of lo T A s" by (auto simp: client_def)
  from client_block(2) [OF T p] have "T \<noteq> {}" by (auto simp: allocated_def)
  then show ?thesis using T by (auto simp: client_of_def kheap_def heap_ok_def split: if_splits)
qed

lemma same_blocksD:
  "same_blocks A s s' \<Longrightarrow> A p = Some n \<Longrightarrow> unat x \<in> block_bytes p n \<Longrightarrow> mem s' x = mem s x"
  by (simp add: same_blocks_def)

lemma same_blocks_trans: "same_blocks A s s' \<Longrightarrow> same_blocks A s' s'' \<Longrightarrow> same_blocks A s s''"
  by (simp add: same_blocks_def)

lemma client_kcalloc:
  assumes c: "client A s" and r: "heap_fits (k * n) s \<or> served (k * n) s" and n: "unat (k * n) \<le> 4294900000"
  shows "\<exists>p s'. kcalloc k n s = Some (p, s') \<and> p \<noteq> 0 \<and> A p = None \<and> client (A(p \<mapsto> k * n)) s' \<and> same_blocks A s s'
    \<and> grows (k * n) s s' \<and> (\<forall>x. unat x \<in> block_bytes p (k * n) \<longrightarrow> mem s' x = 0)"
proof -
  obtain p s1 where s1: "kmalloc (k * n) s = Some (p, s1)" "p \<noteq> 0" "A p = None" "client (A(p \<mapsto> k * n)) s1"
    "same_blocks A s s1" "grows (k * n) s s1" using client_kmalloc [OF c r n] by blast
  let ?A = "A(p \<mapsto> k * n)" and ?m = "filled p (unat (k * n)) 0 (mem s1)"
  have new: "?A p = Some (k * n)" by simp
  have "liballoc_memset p 0 (k * n) (mem s1) = ?m"
    unfolding liballoc_memset_def by (simp add: for_loop_fill)
  then have run: "kcalloc k n s = Some (p, s1\<lparr>mem := ?m\<rparr>)"
    using s1(1) by (simp add: kcalloc_def calloc_def kmalloc_def)
  note w = client_write [OF s1(4) new same_outside_filled, of p "unat (k * n)" 0]
  have R: "unat x \<in> block_bytes p (k * n)" if "in_region p (unat (k * n)) x" for x :: u32
    using that client_region [OF s1(4) new] by simp
  have "same_blocks A s (s1\<lparr>mem := ?m\<rparr>)"
  proof (rule same_blocks_trans [OF s1(5)])
    have e: "?A(p := None) = A" using s1(3) by auto
    show "same_blocks A s1 (s1\<lparr>mem := ?m\<rparr>)" using w(2) [OF R] unfolding e .
  qed
  moreover have "mem (s1\<lparr>mem := ?m\<rparr>) x = 0" if "unat x \<in> block_bytes p (k * n)" for x
    using that client_region [OF s1(4) new, of x] by (simp add: filled_def)
  moreover have "grows (k * n) s (s1\<lparr>mem := ?m\<rparr>)" using s1(6) by (simp add: grows_def)
  ultimately show ?thesis using run s1(2,3) w(1) [OF R] by blast
qed

lemma copied_byte: "i < n \<Longrightarrow> n \<le> 4294967296 \<Longrightarrow> copied d c n m (d + of_nat i) = m (c + of_nat i)"
  by (simp add: copied_def in_region_def unat_of_nat_u32)

lemma same_outside_copied: "same_outside (in_region d n) m (copied d c n m)"
  by (simp add: same_outside_def copied_def)

lemma client_krealloc:
  assumes c: "client A s" and p: "A p = Some old" and n0: "n \<noteq> 0"
    and r: "heap_fits n s \<or> served n s" and n: "unat n \<le> 4294900000"
    and m: "\<And>i. l_completePages s i \<notin> {MAXCOMPLETE, MAXCOMPLETE + 1}"
  shows "\<exists>q s'. krealloc p n s = Some (q, s') \<and> q \<noteq> 0 \<and> A q = None \<and> client ((A(q \<mapsto> n))(p := None)) s'
    \<and> same_blocks (A(p := None)) s s' \<and> grows n s s'
    \<and> (\<forall>i < min (unat old) (unat n). mem s' (q + of_nat i) = mem s (p + of_nat i))"
proof -
  obtain lo T where T: "client_of lo T A s" using c by (auto simp: client_def)
  note b = client_block [OF T p]
  have lock0: "heap_lock s = 0" using T by (simp add: client_of_def kheap_def)
  have "s\<lparr>heap_lock := heap_lock s\<rparr> = s" by simp
  then have unlocked: "s\<lparr>heap_lock := 0\<rparr> = s" by (simp only: lock0)
  have "view s Size (p - 32) = old" using T p by (simp add: client_of_def)
  then have size: "load32 (mem s) (p - 28) = old" by (simp add: view_def tag_get_def)
  obtain q s1 where s1: "kmalloc n s = Some (q, s1)" "q \<noteq> 0" "A q = None" "client (A(q \<mapsto> n)) s1"
    "same_blocks A s s1" "counts_kept (if l_initialized s = 0 then \<lambda>_. 0 else l_completePages s) (l_completePages s1)"
    "grows n s s1" using client_kmalloc [OF c r n] by blast
  let ?A = "A(q \<mapsto> n)"
  have pq: "p \<noteq> q" using p s1(3) by auto
  define k where "k = (if old > n then n else old)"
  have k: "unat k = min (unat old) (unat n)" by (auto simp: k_def word_less_nat_alt)
  have A: "?A p = Some old" "?A q = Some n" using p pq by simp_all
  have ap: "apart q (unat k) p (unat k)" using client_blocks_apart [OF s1(4) A pq] k by simp
  let ?m = "copied q p (unat k) (mem s1)" and ?s2 = "s1\<lparr>mem := copied q p (unat k) (mem s1)\<rparr>"
  have R: "unat x \<in> block_bytes q n" if "in_region q (unat k) x" for x :: u32
    using that client_region [OF s1(4) A(2), of x] k by (simp add: in_region_def)
  have w: "client ?A ?s2" "same_blocks (?A(q := None)) s1 ?s2"
    by (rule client_write [OF s1(4) A(2) same_outside_copied R], assumption)+
  have cnt: "l_completePages ?s2 i \<noteq> MAXCOMPLETE" for i
  proof -
    have "l_completePages s1 i = l_completePages s i \<or> l_completePages s1 i = l_completePages s i - 1"
      using s1(6) client_initialized [OF c p] by (simp add: counts_kept_def)
    moreover have "l_completePages s i = 6" if "l_completePages s i - 1 = 5" using that by (simp add: diff_eq_eq)
    ultimately show ?thesis using m [of i] by auto
  qed
  have pd: "p \<in> dom ?A" using A by auto
  obtain s3 where s3: "kfree p ?s2 = Some s3" "client (?A(p := None)) s3" "same_blocks ?A ?s2 s3"
    "heap_cur s3 = heap_cur ?s2" "heap_end s3 = heap_end ?s2"
    using client_kfree [OF w(1) pd cnt] by blast
  have cp: "n < old \<Longrightarrow> liballoc_memcpy q p n (mem s1) = ?m" "\<not> n < old \<Longrightarrow> liballoc_memcpy q p old (mem s1) = ?m"
    using liballoc_memcpy_copied [OF ap] by (simp_all add: k_def)
  have "krealloc p n s = Some (q, s3)"
    using b(1) n0 lock0 s1(1) s3(1)
    by (simp add: krealloc_def realloc_def liballoc_lock_eq liballoc_unlock_def spin_unlock_def unlocked tag_get_def
        Let_def size kmalloc_def kfree_def cp)
  moreover have "same_blocks (A(p := None)) s s3"
    unfolding same_blocks_def
  proof (intro allI impI)
    fix a l and x :: u32
    assume a: "(A(p := None)) a = Some l" "unat x \<in> block_bytes a l"
    then have "A a = Some l" "a \<noteq> q" using s1(3) by (auto split: if_splits)
    then have "(?A(q := None)) a = Some l" "?A a = Some l" by simp_all
    with \<open>A a = Some l\<close> have "mem s1 x = mem s x" "mem ?s2 x = mem s1 x" "mem s3 x = mem ?s2 x"
      using same_blocksD [OF s1(5) _ a(2)] same_blocksD [OF w(2) _ a(2)] same_blocksD [OF s3(3) _ a(2)] by blast+
    then show "mem s3 x = mem s x" by simp
  qed
  moreover have "mem s3 (q + of_nat i) = mem s (p + of_nat i)" if "i < min (unat old) (unat n)" for i
  proof -
    have i: "i < unat k" "i < unat n" "i < unat old" "i < 4294967296" using that k unat_u32_lt [of old] by simp_all
    have x: "unat (q + of_nat i) \<in> block_bytes q n" "unat (p + of_nat i) \<in> block_bytes p old"
      using client_region [OF s1(4) A(2)] client_region [OF c p] in_region_offset i by blast+
    have "mem s3 (q + of_nat i) = mem ?s2 (q + of_nat i)" by (rule same_blocksD [OF s3(3) A(2) x(1)])
    also have "\<dots> = mem s1 (p + of_nat i)" using i(1) unat_u32_lt [of k] by (simp add: copied_byte)
    also have "\<dots> = mem s (p + of_nat i)" by (rule same_blocksD [OF s1(5) p x(2)])
    finally show ?thesis .
  qed
  moreover have "grows n s s3" using s1(7) s3(4,5) by (simp add: grows_def)
  ultimately show ?thesis using s1(2,3) s3(2) by blast
qed

end
