(* ===== verification/Heap_Client.thy ===== *)
theory Heap_Client
  imports Kheap
begin

text \<open>
  The kernel's heap under any sequence of requests, releases, resizings and writes.

  \<open>heap_use\<close> is the step relation of the clients of \<^verbatim>\<open>malloc\<close>, \<^verbatim>\<open>calloc\<close>, \<^verbatim>\<open>realloc\<close> and \<^verbatim>\<open>free\<close>
  (\<^verbatim>\<open>liballoc.c\<close> on the hooks of \<^verbatim>\<open>rise.c\<close>), paired with the blocks they hold; \<open>block_step\<close> is what such a
  step means for somebody who knows nothing of tags and lists: a finite map from pointers to byte
  strings.  The theorems show that the code implements the map, that its data structures stay
  consistent in every reachable state, and what single calls do, errors included.

  A request is served from the list of its size class, or by pages that fit below the end of the
  heap and below four megabytes, or refused when the heap has come to its end.  A release is a
  step while fewer than five whole free regions stand by in a size class; what happens when they
  do not is stated separately.
\<close>

section \<open>Steps of the clients\<close>

text \<open>
  The calls with what they return: a request by its size and the pointer, a zeroed one by the
  number and size of its elements and the pointer, a resizing by the old pointer, the size and the
  new pointer; a write by pointer, index and byte.  The null pointer is an argument of the calls
  like any other: \<^verbatim>\<open>realloc\<close> of it is a request, \<^verbatim>\<open>free\<close> of it does nothing, and \<^verbatim>\<open>realloc\<close> to no bytes
  is a release.  A refused request returns it.
\<close>

datatype heap_op =
    Request u32 u32
  | Zeroed u32 u32 u32
  | Resize u32 u32 u32
  | Release u32
  | Write u32 u32 u8

definition standing_by :: "u32 set \<Rightarrow> 'a liballoc_scheme \<Rightarrow> bool" where
  "standing_by C s \<longleftrightarrow> (\<forall>i. l_completePages s i \<in> C)"

inductive heap_use ::
  "heap_op \<Rightarrow> 'a liballoc_scheme \<times> (u32 \<rightharpoonup> u32) \<Rightarrow> 'a liballoc_scheme \<times> (u32 \<rightharpoonup> u32) \<Rightarrow> bool" where
  request: "heap_use (Request n p) (s, A) (s', A(p \<mapsto> n))"
    if "heap_fits n s \<or> served n s" "unat n \<le> 4294900000" "kmalloc n s = Some (p, s')"
| refuse: "heap_use (Request n 0) (s, A) (s', A)" if "heap_full n s" "kmalloc n s = Some (0, s')"
| zeroed: "heap_use (Zeroed k n p) (s, A) (s', A(p \<mapsto> k * n))"
    if "heap_fits (k * n) s \<or> served (k * n) s" "unat k * unat n \<le> 4294900000" "kcalloc k n s = Some (p, s')"
| resize: "heap_use (Resize p n q) (s, A) (s', (A(q \<mapsto> n))(p := None))"
    if "p \<in> dom A" "n \<noteq> 0" "heap_fits n s \<or> served n s" "unat n \<le> 4294900000" "standing_by (- {MAXCOMPLETE, MAXCOMPLETE + 1}) s"
      "krealloc p n s = Some (q, s')"
| resize_null: "heap_use (Resize 0 n p) (s, A) (s', A(p \<mapsto> n))"
    if "n \<noteq> 0" "heap_fits n s \<or> served n s" "unat n \<le> 4294900000" "krealloc 0 n s = Some (p, s')"
| resize_away: "heap_use (Resize p 0 q) (s, A) (s', A(p := None))"
    if "p = 0 \<or> p \<in> dom A" "standing_by (- {MAXCOMPLETE}) s" "krealloc p 0 s = Some (q, s')"
| release: "heap_use (Release p) (s, A) (s', A(p := None))"
    if "p = 0 \<or> p \<in> dom A" "standing_by (- {MAXCOMPLETE}) s" "kfree p s = Some s'"
| store: "heap_use (Write p i v) (s, A) (s\<lparr>mem := (mem s)(p + i := v)\<rparr>, A)"
    if "A p = Some n" "i < n"

inductive_cases heap_use_cases [elim]:
  "heap_use (Request n p) (s, A) (s', A')" "heap_use (Zeroed k n p) (s, A) (s', A')"
  "heap_use (Resize p n q) (s, A) (s', A')" "heap_use (Release p) (s, A) (s', A')"
  "heap_use (Write p i v) (s, A) (s', A')"

text \<open>The states that clients can reach from a heap that was set up and never used.\<close>

inductive heap_reach :: "'a liballoc_scheme \<times> (u32 \<rightharpoonup> u32) \<Rightarrow> bool" where
  start: "heap_reach (s, Map.empty)" if "mapped_below lo s" "l_initialized s = 0" "heap_lock s = 0"
| step: "heap_reach t" if "heap_reach s" "heap_use op s t"

section \<open>The map of blocks\<close>

definition contents :: "(u32 \<rightharpoonup> u32) \<Rightarrow> 'a liballoc_scheme \<Rightarrow> u32 \<rightharpoonup> u8 list" where
  "contents A s p = map_option (\<lambda>n. map (\<lambda>i. mem s (p + of_nat i)) [0 ..< unat n]) (A p)"

inductive block_step :: "heap_op \<Rightarrow> (u32 \<rightharpoonup> u8 list) \<Rightarrow> (u32 \<rightharpoonup> u8 list) \<Rightarrow> bool" where
  fresh: "block_step (Request n p) B (B(p \<mapsto> bs))" if "p \<noteq> 0" "p \<notin> dom B" "length bs = unat n"
| refused: "block_step (Request n 0) B B"
| zeros: "block_step (Zeroed k n p) B (B(p \<mapsto> replicate (unat k * unat n) 0))" if "p \<noteq> 0" "p \<notin> dom B"
| moved: "block_step (Resize p n q) B ((B(q \<mapsto> bs))(p := None))"
    if "B p = Some old" "q \<noteq> 0" "q \<notin> dom B" "length bs = unat n"
      "take (min (length old) (unat n)) bs = take (min (length old) (unat n)) old"
| new_moved: "block_step (Resize 0 n p) B (B(p \<mapsto> bs))" if "p \<noteq> 0" "p \<notin> dom B" "length bs = unat n" "n \<noteq> 0"
| moved_away: "block_step (Resize p 0 0) B (B(p := None))" if "p = 0 \<or> p \<in> dom B"
| gone: "block_step (Release p) B (B(p := None))" if "p = 0 \<or> p \<in> dom B"
| written: "block_step (Write p i v) B (B(p \<mapsto> bs[unat i := v]))" if "B p = Some bs" "unat i < length bs"

lemma dom_contents [simp]: "dom (contents A s) = dom A"
  by (auto simp: contents_def dom_def)

lemma contents_None [simp]: "contents A s p = None \<longleftrightarrow> A p = None"
  by (simp add: contents_def)

lemma contents_remove: "contents (A(p := None)) s = (contents A s)(p := None)"
  by (rule ext) (simp add: contents_def)

lemma contents_add:
  "contents (A(p \<mapsto> n)) s = (contents A s)(p \<mapsto> map (\<lambda>i. mem s (p + of_nat i)) [0 ..< unat n])"
  by (rule ext) (simp add: contents_def)

lemma client_byte: "client A s \<Longrightarrow> A p = Some n \<Longrightarrow> i < unat n \<Longrightarrow> unat (p + of_nat i) \<in> block_bytes p n"
  using client_region [of A s p n "p + of_nat i"] in_region_offset [of i "unat n" p] unat_u32_lt [of n] by simp

lemma contents_elsewhere:
  assumes "client A s" "same_blocks (A(p := None)) s s'" "a \<noteq> p" shows "contents A s' a = contents A s a"
proof (cases "A a")
  case (Some n)
  then have a: "(A(p := None)) a = Some n" using assms(3) by simp
  have "mem s' (a + of_nat i) = mem s (a + of_nat i)" if "i < unat n" for i
    by (rule same_blocksD [OF assms(2) a client_byte [OF assms(1) Some that]])
  then show ?thesis using Some by (simp add: contents_def)
qed (simp add: contents_def)

lemma contents_same:
  assumes "client A s" "same_blocks A s s'" shows "contents A s' = contents A s"
proof
  fix a
  have "same_blocks (A(a + 1 := None)) s s'" using assms(2) by (auto simp: same_blocks_def split: if_splits)
  then show "contents A s' a = contents A s a" by (rule contents_elsewhere [OF assms(1)]) simp
qed

lemma client_start:
  assumes "mapped_below lo s" "l_initialized s = 0" "heap_lock s = 0" shows "client Map.empty s"
proof -
  have "client_of lo {} Map.empty s"
    using assms by (simp add: client_of_def kheap_def heap_ok_def below_def no_free_pair_def filed_def tags_above_def allocated_def)
  then show ?thesis by (auto simp: client_def)
qed

section \<open>The code implements the map\<close>

lemma client_release:
  assumes c: "client A s" and p: "p = 0 \<or> p \<in> dom A" and b: "standing_by (- {MAXCOMPLETE}) s" and r: "kfree p s = Some s'"
  shows "client (A(p := None)) s'" "same_blocks A s s'"
proof -
  have cnt: "l_completePages s i \<noteq> MAXCOMPLETE" for i using b by (auto simp: standing_by_def)
  have "client (A(p := None)) s' \<and> same_blocks A s s'"
  proof (cases "p = 0")
    case True
    have "0 \<notin> dom A" using c by (auto simp: client_def client_of_def)
    then have "A(p := None) = A" using True by auto
    moreover have "s' = s" using r True by (simp add: kfree_def free_def)
    ultimately show ?thesis using c by (simp add: same_blocks_def)
  next
    case False
    then have d: "p \<in> dom A" using p by simp
    show ?thesis using client_kfree [OF c d cnt] r by auto
  qed
  then show "client (A(p := None)) s'" "same_blocks A s s'" by simp_all
qed

lemma client_moved:
  assumes c: "client A s" and A: "A p = Some old" "A q = None" and m: "same_blocks (A(p := None)) s s'"
    and copy: "\<And>i. i < min (unat old) (unat n) \<Longrightarrow> mem s' (q + of_nat i) = mem s (p + of_nat i)"
    and q: "q \<noteq> 0"
  shows "block_step (Resize p n q) (contents A s) (contents ((A(q \<mapsto> n))(p := None)) s')"
proof -
  let ?bs = "map (\<lambda>i. mem s' (q + of_nat i)) [0 ..< unat n]"
  have pq: "p \<noteq> q" using A by auto
  have "contents A s p = Some (map (\<lambda>i. mem s (p + of_nat i)) [0 ..< unat old])" using A by (simp add: contents_def)
  moreover have "contents ((A(q \<mapsto> n))(p := None)) s' = ((contents A s)(q \<mapsto> ?bs))(p := None)"
  proof
    fix a
    have "contents A s' a = contents A s a" if "a \<noteq> p" using contents_elsewhere [OF c m that] .
    then show "contents ((A(q \<mapsto> n))(p := None)) s' a = (((contents A s)(q \<mapsto> ?bs))(p := None)) a"
      by (simp add: contents_def)
  qed
  moreover have "take (min (unat old) (unat n)) ?bs
      = take (min (unat old) (unat n)) (map (\<lambda>i. mem s (p + of_nat i)) [0 ..< unat old])"
    using copy by (simp add: list_eq_iff_nth_eq)
  ultimately show ?thesis using A(2) q by (simp add: block_step.moved domIff)
qed

lemma client_store:
  assumes c: "client A s" and p: "A p = Some n" "i < n"
  shows "client A (s\<lparr>mem := (mem s)(p + i := v)\<rparr>)"
    "block_step (Write p i v) (contents A s) (contents A (s\<lparr>mem := (mem s)(p + i := v)\<rparr>))"
proof -
  let ?s = "s\<lparr>mem := (mem s)(p + i := v)\<rparr>"
  let ?bs = "map (\<lambda>k. mem s (p + of_nat k)) [0 ..< unat n]"
  have i: "unat i < unat n" using p(2) by (simp add: word_less_nat_alt)
  have R: "unat x \<in> block_bytes p n" if "x = p + i" for x using client_byte [OF c p(1) i] that by simp
  have out: "same_outside (\<lambda>x. x = p + i) (mem s) ((mem s)(p + i := v))" by (simp add: same_outside_def)
  note w = client_write [OF c p(1) out R]
  show "client A ?s" using w(1) by simp
  have "map (\<lambda>k. mem ?s (p + of_nat k)) [0 ..< unat n] = ?bs[unat i := v]"
  proof (rule nth_equalityI)
    fix k
    assume "k < length (map (\<lambda>k. mem ?s (p + of_nat k)) [0 ..< unat n])"
    then have k: "k < unat n" by simp
    then have "unat (of_nat k :: u32) = k" using unat_u32_lt [of n] by (intro unat_of_nat_u32) simp
    then have "of_nat k = i \<longleftrightarrow> unat i = k" by auto
    then show "map (\<lambda>k. mem ?s (p + of_nat k)) [0 ..< unat n] ! k = ?bs[unat i := v] ! k"
      using k by (simp add: nth_list_update)
  qed simp
  then have at: "contents A ?s p = Some (?bs[unat i := v])" using p(1) by (simp add: contents_def)
  have "contents A ?s x = ((contents A s)(p \<mapsto> ?bs[unat i := v])) x" for x
    using contents_elsewhere [OF c w(2), of x] at by (cases "x = p") simp_all
  then have "contents A ?s = (contents A s)(p \<mapsto> ?bs[unat i := v])" by (rule ext)
  moreover have "contents A s p = Some ?bs" using p(1) by (simp add: contents_def)
  ultimately show "block_step (Write p i v) (contents A s) (contents A ?s)" using i by (simp add: block_step.written)
qed

lemma client_use:
  assumes c: "client A s" and u: "heap_use op (s, A) (s', A')"
  shows "client A' s' \<and> block_step op (contents A s) (contents A' s')"
  using u
proof (cases rule: heap_use.cases)
  case (request n p)
  obtain s1 where s1: "A p = None" "p \<noteq> 0" "client (A(p \<mapsto> n)) s'" "same_blocks A s s'"
    using client_kmalloc [OF c request(3,4)] request(5) by auto
  then show ?thesis
    unfolding request(1,2) contents_add contents_same [OF c s1(4)] using s1(1-3)
    by (intro conjI block_step.fresh) (simp_all add: domIff)
next
  case (refuse n)
  obtain lo T where T: "client_of lo T A s" using c by (auto simp: client_def)
  have s1: "client A s'" "mem s' = mem s" using client_refused [OF T refuse(3)] refuse(4) by (auto simp: client_def)
  then have "same_blocks A s s'" by (simp add: same_blocks_def)
  then show ?thesis unfolding refuse(1,2) using s1(1) by (simp add: contents_same [OF c] block_step.refused)
next
  case (zeroed k n p)
  have m: "unat (k * n) = unat k * unat n" using zeroed(4) by (intro unat_mult_u32) simp
  obtain s1 where s1: "A p = None" "p \<noteq> 0" "client (A(p \<mapsto> k * n)) s'" "same_blocks A s s'"
    "\<And>x. unat x \<in> block_bytes p (k * n) \<Longrightarrow> mem s' x = 0"
    using client_kcalloc [OF c zeroed(3)] zeroed(4,5) m by auto
  have "mem s' (p + of_nat i) = 0" if "i < unat (k * n)" for i
    by (rule s1(5) [OF client_byte [OF s1(3) _ that]]) simp
  then have "map (\<lambda>i. mem s' (p + of_nat i)) [0 ..< unat (k * n)] = replicate (unat k * unat n) 0"
    by (simp add: m list_eq_iff_nth_eq)
  then show ?thesis
    unfolding zeroed(1,2) contents_add contents_same [OF c s1(4)] using s1(1-3)
    by (intro conjI) (simp_all add: block_step.zeros domIff \<open>map _ _ = replicate _ _\<close>)
next
  case (resize p n q)
  obtain old where old: "A p = Some old" using resize(3) by auto
  have cnt: "l_completePages s i \<notin> {MAXCOMPLETE, MAXCOMPLETE + 1}" for i
    using resize(7) by (auto simp: standing_by_def)
  have s1: "A q = None" "q \<noteq> 0" "client ((A(q \<mapsto> n))(p := None)) s'" "same_blocks (A(p := None)) s s'"
    "\<And>i. i < min (unat old) (unat n) \<Longrightarrow> mem s' (q + of_nat i) = mem s (p + of_nat i)"
    using client_krealloc [OF c old resize(4-6) cnt] resize(8) by auto
  show ?thesis unfolding resize(1,2) using client_moved [OF c old s1(1,4,5,2)] s1(3) by blast
next
  case (resize_null n p)
  have "kmalloc n s = Some (p, s')" using resize_null(3,6) by (simp add: krealloc_def realloc_def kmalloc_def)
  then obtain s1 where s1: "A p = None" "p \<noteq> 0" "client (A(p \<mapsto> n)) s'" "same_blocks A s s'"
    using client_kmalloc [OF c resize_null(4,5)] by auto
  then show ?thesis
    unfolding resize_null(1,2) contents_add contents_same [OF c s1(4)] using s1(1-3) resize_null(3)
    by (intro conjI block_step.new_moved) (simp_all add: domIff)
next
  case (resize_away p q)
  have r: "kfree p s = Some s'" "q = 0" using resize_away(5) by (auto simp: krealloc_def realloc_def kfree_def)
  note s1 = client_release [OF c resize_away(3,4) r(1)]
  then show ?thesis
    unfolding resize_away(1,2) r(2) contents_remove contents_same [OF c s1(2)] using resize_away(3) s1(1)
    by (simp add: block_step.moved_away)
next
  case (release p)
  note s1 = client_release [OF c release(3-5)]
  then show ?thesis
    unfolding release(1,2) contents_remove contents_same [OF c s1(2)] using release(3) s1(1)
    by (simp add: block_step.gone)
next
  case (store p n i v)
  show ?thesis unfolding store(1-3) using client_store [OF c store(4,5)] by blast
qed

lemma client_reach: "heap_reach (s, A) \<Longrightarrow> client A s"
proof (induction "(s, A)" arbitrary: s A rule: heap_reach.induct)
  case (start lo s)
  then show ?case by (rule client_start)
next
  case (step t op)
  obtain s0 A0 where t: "t = (s0, A0)" by (cases t)
  then show ?case using step client_use by blast
qed

section \<open>A heap after paging is set up\<close>

text \<open>Initialising the pages makes a heap that nobody has used.\<close>

lemma paging_init_mapped:
  assumes "tx_live s" "unat (placementaddr s) \<le> 268435456"
  shows "\<exists>s'. paging_init s = Some s' \<and> mapped_below (unat (heap_start s')) s' \<and> heap_cur s' = heap_start s'
    \<and> heap_end s' = heap_start s' + HEAP_SIZE \<and> heap_start s' = page_up (placementaddr s) + 0x3400"
proof -
  let ?D = "page_up (placementaddr s)"
  have "unat (placementaddr s) \<le> 4294963200 - 4096" using assms(2) by simp
  from page_up_bound [OF this] have D: "unat ?D \<le> 268439552" using assms(2) by linarith
  then have u: "unat (?D + 0x2000) = unat ?D + 0x2000" "unat (?D + 0x3400) = unat ?D + 0x3400"
    by (subst unat_plus_u32; simp)+
  have e: "unat (?D + 0x3400 + HEAP_SIZE) = unat ?D + 0x3400 + 0x400000"
    using D u(2) by (subst unat_plus_u32) simp_all
  obtain s' where s': "paging_init s = Some s'" "kernel_dir s' = ?D" "placementaddr s' = ?D + 0x3400"
    "heap_start s' = placementaddr s'" "heap_cur s' = placementaddr s'" "heap_end s' = placementaddr s' + HEAP_SIZE"
    "identity_map (kernel_dir s') (kernel_dir s' + 0x2000) (mem s')"
    using paging_init_result [OF assms] by auto
  have "mapped_below (unat (heap_start s')) s'"
    unfolding mapped_below_def using s' u e D by (intro conjI exI [of _ "?D + 0x2000"]) simp_all
  then show ?thesis using s' by simp
qed

definition boot_heap :: liballoc where
  "boot_heap = rise.extend paged_rise \<lparr>l_freePages = (\<lambda>_. 0), l_completePages = (\<lambda>_. 0), l_initialized = 0\<rparr>"

lemma boot_heap_start: "heap_reach (boot_heap, Map.empty)" "heap_cur boot_heap = 0x138400" "heap_end boot_heap = 0x538400"
  "heap_lock boot_heap = 0" "l_initialized boot_heap = 0"
proof -
  have p: "page_up 0x135000 = 0x135000" by (simp add: page_up_def)
  have s': "paging_init boot_vmm = Some (the (paging_init boot_vmm))"
    "mapped_below (unat (heap_start (the (paging_init boot_vmm)))) (the (paging_init boot_vmm))"
    "heap_cur (the (paging_init boot_vmm)) = 0x138400" "heap_end (the (paging_init boot_vmm)) = 0x538400"
    using paging_init_mapped [OF boot_vmm_live] by (auto simp: p)
  show "heap_cur boot_heap = 0x138400" "heap_end boot_heap = 0x538400" "heap_lock boot_heap = 0" "l_initialized boot_heap = 0"
    using s'(3,4) by (simp_all add: boot_heap_def paged_rise_def vmm.defs rise.defs)
  have "mapped_below (unat (heap_start (the (paging_init boot_vmm)))) boot_heap"
    using s'(2) by (simp add: boot_heap_def paged_rise_def mapped_below_def vmm.defs rise.defs)
  then show "heap_reach (boot_heap, Map.empty)"
    by (rule heap_reach.start) (simp_all add: boot_heap_def paged_rise_def vmm.defs rise.defs)
qed

text \<open>Two blocks in the heap after boot.\<close>

lemma standing_by_fresh: "counts_kept (\<lambda>_. 0) c \<Longrightarrow> counts_kept c c' \<Longrightarrow> c' i \<in> {0, - 1, - 2}"
proof -
  assume "counts_kept (\<lambda>_. 0) c" "counts_kept c c'"
  then have "c i = 0 \<or> c i = - 1" "c' i = c i \<or> c' i = c i - 1" by (simp_all add: counts_kept_def)
  then show ?thesis by auto
qed

lemma pages_for_small: "pages_for 10 = 16" "pages_for 20 = 16"
  by (simp_all add: pages_for_def Let_def)

lemma boot_blocks:
  "\<exists>p s1 q s2. kmalloc 10 boot_heap = Some (p, s1) \<and> kmalloc 20 s1 = Some (q, s2) \<and> p \<noteq> q
    \<and> heap_reach (s1, [p \<mapsto> 10]) \<and> heap_reach (s2, [p \<mapsto> 10, q \<mapsto> 20]) \<and> (heap_fits 20 s1 \<or> served 20 s1) \<and> (heap_fits 20 s2 \<or> served 20 s2)
    \<and> (\<forall>i. l_completePages s2 i \<in> {0, - 1, - 2})"
proof -
  note r0 = boot_heap_start(1)
  have f0: "heap_fits 10 boot_heap \<or> served 10 boot_heap" by (simp add: heap_fits_def boot_heap_start pages_for_small)
  obtain p s1 where s1: "kmalloc 10 boot_heap = Some (p, s1)" "p \<noteq> 0" "client [p \<mapsto> 10] s1" "grows 10 boot_heap s1"
    "counts_kept (\<lambda>_. 0) (l_completePages s1)"
    using client_kmalloc [OF client_reach [OF r0] f0] by (auto simp: boot_heap_start)
  have "heap_use (Request 10 p) (boot_heap, Map.empty) (s1, [p \<mapsto> 10])"
    using f0 s1(1) by (intro heap_use.request) simp_all
  then have r1: "heap_reach (s1, [p \<mapsto> 10])" by (rule heap_reach.step [OF r0])
  have i1: "l_initialized s1 \<noteq> 0" using client_initialized [OF s1(3), of p] by simp
  have c1: "unat (heap_cur s1) \<le> 0x138400 + 65536" "heap_end s1 = 0x538400"
    using s1(4) by (simp_all add: grows_def boot_heap_start pages_for_small)
  then have f1: "heap_fits 20 s1 \<or> served 20 s1" by (simp add: heap_fits_def pages_for_small)
  obtain q s2 where s2: "kmalloc 20 s1 = Some (q, s2)" "p \<noteq> q" "grows 20 s1 s2"
    "counts_kept (l_completePages s1) (l_completePages s2)"
    using client_kmalloc [OF s1(3) f1] i1 by (auto split: if_splits)
  have "heap_use (Request 20 q) (s1, [p \<mapsto> 10]) (s2, [p \<mapsto> 10, q \<mapsto> 20])"
    using f1 s2(1) by (intro heap_use.request) simp_all
  then have r2: "heap_reach (s2, [p \<mapsto> 10, q \<mapsto> 20])" by (rule heap_reach.step [OF r1])
  have "heap_fits 20 s2 \<or> served 20 s2" using s2(3) c1 by (simp add: heap_fits_def grows_def pages_for_small)
  moreover have "l_completePages s2 i \<in> {0, - 1, - 2}" for i by (rule standing_by_fresh [OF s1(5) s2(4)])
  ultimately show ?thesis using s1(1) s2(1,2) r1 r2 f1 by blast
qed

section \<open>Properties\<close>

text \<open>
  C3. A request that fits, or that the list of its class can serve, is granted: \<^verbatim>\<open>malloc\<close> returns a pointer that is not null and that nobody
  holds, its bytes are apart from those of every block that clients hold, those blocks keep their
  contents, and the heap stays fit for the next call.
\<close>

theorem kmalloc_allocates:
  assumes "client A s" "heap_fits n s \<or> served n s" "unat n \<le> 4294900000"
  shows "\<exists>p s'. kmalloc n s = Some (p, s') \<and> p \<noteq> 0 \<and> A p = None \<and> client (A(p \<mapsto> n)) s'
    \<and> (\<forall>q k. A q = Some k \<longrightarrow> block_bytes p n \<inter> block_bytes q k = {}) \<and> contents A s' = contents A s
    \<and> grows n s s'"
proof -
  obtain p s' where s': "kmalloc n s = Some (p, s')" "p \<noteq> 0" "A p = None" "client (A(p \<mapsto> n)) s'" "same_blocks A s s'"
    "grows n s s'" using client_kmalloc [OF assms] by blast
  obtain lo T where T: "client_of lo T (A(p \<mapsto> n)) s'" using s'(4) by (auto simp: client_def)
  have "block_bytes p n \<inter> block_bytes q k = {}" if "A q = Some k" for q k
    using that s'(3) by (intro client_apart [OF T]) auto
  then show ?thesis using s' contents_same [OF assms(1) s'(5)] by blast
qed

theorem kmalloc_allocates_witness:
  "\<exists>p s'. kmalloc 10 boot_heap = Some (p, s') \<and> p \<noteq> 0 \<and> client [p \<mapsto> 10] s'"
  using kmalloc_allocates [OF client_reach [OF boot_heap_start(1)], of 10]
  by (auto simp: heap_fits_def boot_heap_start pages_for_small)

text \<open>
  C4. Releasing a block that a client holds returns, takes exactly that block out of the heap,
  leaves the contents of all others and the break of the heap as they were, and leaves the heap fit for
  the next call, as long as no size class has five whole free regions standing by.
\<close>

theorem kfree_releases:
  assumes "client A s" "p \<in> dom A" "standing_by (- {MAXCOMPLETE}) s"
  shows "\<exists>s'. kfree p s = Some s' \<and> client (A(p := None)) s' \<and> contents (A(p := None)) s' = (contents A s)(p := None)
    \<and> heap_cur s' = heap_cur s"
proof -
  have c: "l_completePages s i \<noteq> MAXCOMPLETE" for i using assms(3) by (auto simp: standing_by_def)
  show ?thesis using client_kfree [OF assms(1,2) c] contents_same [OF assms(1)] by (auto simp: contents_remove)
qed

theorem kfree_releases_witness:
  "\<exists>p q (s :: liballoc) s'. kfree p s = Some s' \<and> client [p \<mapsto> 10, q \<mapsto> 20] s \<and> client [q \<mapsto> 20] s'"
proof -
  obtain p s1 q s2 where b: "p \<noteq> q" "heap_reach (s2 :: liballoc, [p \<mapsto> 10, q \<mapsto> 20])" "\<forall>i. l_completePages s2 i \<in> {0, - 1, - 2}"
    using boot_blocks by blast
  have "l_completePages s2 i \<noteq> MAXCOMPLETE" for i using b(3) [rule_format, of i] by auto
  then have "standing_by (- {MAXCOMPLETE}) s2" by (simp add: standing_by_def)
  from kfree_releases [OF client_reach [OF b(2)] _ this, of p]
  obtain s' where "kfree p s2 = Some s'" "client ([p \<mapsto> 10, q \<mapsto> 20](p := None)) s'" by auto
  moreover have e: "[p \<mapsto> 10, q \<mapsto> 20](p := None) = [q \<mapsto> (20 :: u32)]" using b(1) by auto
  ultimately show ?thesis using client_reach [OF b(2)] unfolding e by blast
qed

text \<open>
  C5. Take a block that a client holds and a new size \<open>n\<close> that is not zero, at most 4294900000, and
  can be had: there is room for its pages (\<open>heap_fits\<close>) or a block on the list of its class
  (\<open>served\<close>). Let no size class have exactly five or six whole free regions standing by. Then resizing
  the block to \<open>n\<close> bytes returns a pointer that nobody held, releases the old block, and the new one
  starts with the bytes of the old, as many as both have; all other blocks keep their contents.
  What happens when \<open>n\<close> cannot be had is stated in \<open>krealloc_loses_block\<close>.
\<close>

theorem krealloc_moves:
  assumes "client A s" "A p = Some old" "n \<noteq> 0" "heap_fits n s \<or> served n s" "unat n \<le> 4294900000"
    "standing_by (- {MAXCOMPLETE, MAXCOMPLETE + 1}) s"
  shows "\<exists>q s'. krealloc p n s = Some (q, s') \<and> q \<noteq> 0 \<and> A q = None \<and> client ((A(q \<mapsto> n))(p := None)) s'
    \<and> (\<forall>i < min (unat old) (unat n). mem s' (q + of_nat i) = mem s (p + of_nat i))
    \<and> (\<forall>a. a \<noteq> p \<longrightarrow> contents A s' a = contents A s a)"
proof -
  have cnt: "l_completePages s i \<notin> {MAXCOMPLETE, MAXCOMPLETE + 1}" for i using assms(6) by (auto simp: standing_by_def)
  obtain q s' where r: "krealloc p n s = Some (q, s')" "q \<noteq> 0" "A q = None" "client ((A(q \<mapsto> n))(p := None)) s'"
    "same_blocks (A(p := None)) s s'" "\<forall>i < min (unat old) (unat n). mem s' (q + of_nat i) = mem s (p + of_nat i)"
    using client_krealloc [OF assms(1-5) cnt] by blast
  show ?thesis using r contents_elsewhere [OF assms(1) r(5)] by blast
qed

theorem krealloc_moves_witness:
  "\<exists>p q (s :: liballoc) q' s'. krealloc p 20 s = Some (q', s') \<and> client [p \<mapsto> 10, q \<mapsto> 20] s
    \<and> mem s' (q' + of_nat 9) = mem s (p + of_nat 9)"
proof -
  obtain p s1 q s2 where b: "p \<noteq> q" "heap_reach (s2 :: liballoc, [p \<mapsto> 10, q \<mapsto> 20])" "heap_fits 20 s2 \<or> served 20 s2"
    "\<forall>i. l_completePages s2 i \<in> {0, - 1, - 2}" using boot_blocks by blast
  have "l_completePages s2 i \<notin> {MAXCOMPLETE, MAXCOMPLETE + 1}" for i using b(4) [rule_format, of i] by auto
  then have "standing_by (- {MAXCOMPLETE, MAXCOMPLETE + 1}) s2" by (simp add: standing_by_def)
  from krealloc_moves [OF client_reach [OF b(2)] _ _ b(3) _ this, of p 10] b(1)
  obtain q' s' where r: "krealloc p 20 s2 = Some (q', s')"
    "\<forall>i < min (unat (10 :: u32)) (unat (20 :: u32)). mem s' (q' + of_nat i) = mem s2 (p + of_nat i)" by auto
  have "9 < min (unat (10 :: u32)) (unat (20 :: u32))" by simp
  then have "mem s' (q' + of_nat 9) = mem s2 (p + of_nat 9)" using r(2) by blast
  then show ?thesis using r(1) client_reach [OF b(2)] by blast
qed

text \<open>
  C2. In every state that clients can reach, the lock is free, the tags lie apart with their marks
  set, every tag is an allocated block or linked, in both directions, on the list of the class of
  its size (which \<open>list_class\<close> computes from the size of the block, and \<open>filed\<close> states of all free
  blocks), the links between neighbours agree with their positions, no two neighbours are both free, the allocated tags are
  exactly those of the blocks that clients hold, and the first four megabytes are still mapped.
\<close>

theorem heap_invariant:
  assumes "heap_reach (s, A)"
  shows "heap_lock s = 0 \<and> (\<exists>table. identity_map (kernel_dir s) table (mem s))
    \<and> (\<exists>T. (if l_initialized s = 0 then T = {} else heap_inv T (view s) (l_freePages s))
         \<and> filed T (view s) \<and> no_free_pair T (view s) \<and> allocated T (view s) = (\<lambda>p. p - 32) ` dom A)"
proof -
  obtain lo T where T: "client_of lo T A s" using client_reach [OF assms] by (auto simp: client_def)
  have "t \<in> (\<lambda>p. p - 32) ` dom A" if t: "t \<in> allocated T (view s)" for t
  proof -
    have "t + 32 \<noteq> 0"
    proof
      assume z: "t + 32 = 0"
      have tT: "t \<in> T" using t by (simp add: allocated_def)
      then have "l_initialized s \<noteq> 0" using T by (auto simp: client_of_def kheap_def heap_ok_def split: if_splits)
      then have c: "chunks T (view s)" and b: "below (unat (heap_cur s)) T (view s)"
        using T heap_inv_parts(1) by (auto simp: client_of_def kheap_def heap_ok_def)
      have "unat t + 32 < 4294967296"
        using b tT chunksD(2) [OF c tT] unat_u32_lt [of "heap_cur s"] by (force simp: below_def)
      then have "unat (t + 32) = unat t + 32" by (subst unat_plus_u32) simp_all
      then show False using z by simp
    qed
    then have "t + 32 \<in> dom A" using T t by (simp add: client_of_def)
    then show ?thesis by (intro image_eqI [of _ _ "t + 32"]) simp_all
  qed
  moreover have "p - 32 \<in> allocated T (view s)" if "p \<in> dom A" for p
    using that client_block(2) [OF T] by auto
  ultimately have "allocated T (view s) = (\<lambda>p. p - 32) ` dom A" by blast
  moreover have "heap_lock s = 0" "no_free_pair T (view s)" "filed T (view s)" "mapped_below lo s"
    "if l_initialized s = 0 then T = {} else heap_inv T (view s) (l_freePages s)"
    using T by (simp_all add: client_of_def kheap_def heap_ok_def)
  ultimately show ?thesis unfolding mapped_below_def by blast
qed

theorem heap_invariant_witness:
  "\<exists>s p q. p \<noteq> q \<and> heap_lock (s :: liballoc) = 0
    \<and> (\<exists>T. allocated T (view s) = (\<lambda>p. p - 32) ` dom ([p \<mapsto> 10, q \<mapsto> 20] :: u32 \<rightharpoonup> u32))"
proof -
  obtain p q s where b: "p \<noteq> q" "heap_reach (s :: liballoc, [p \<mapsto> 10, q \<mapsto> 20])" using boot_blocks by blast
  show ?thesis using heap_invariant [OF b(2)] b(1) by blast
qed

text \<open>
  C1. The allocator implements a map from pointers to byte strings: in every state that clients can
  reach, each call has on the contents of the blocks exactly the effect of its step on the map,
  whatever the tags and the lists behind it look like.
\<close>

theorem heap_refines:
  assumes "heap_reach (s, A)" "heap_use op (s, A) (s', A')"
  shows "block_step op (contents A s) (contents A' s')"
  using client_use [OF client_reach [OF assms(1)] assms(2)] by blast

theorem heap_refines_witness:
  "\<exists>p (s :: liballoc) q s'. heap_use (Request 20 q) (s, [p \<mapsto> 10]) (s', [p \<mapsto> 10, q \<mapsto> 20])
    \<and> block_step (Request 20 q) (contents [p \<mapsto> 10] s) (contents [p \<mapsto> 10, q \<mapsto> 20] s')"
proof -
  obtain p q s s' where b: "heap_reach (s :: liballoc, [p \<mapsto> 10])" "kmalloc 20 s = Some (q, s')" "heap_fits 20 s \<or> served 20 s"
    using boot_blocks by blast
  have "heap_use (Request 20 q) (s, [p \<mapsto> 10]) (s', [p \<mapsto> 10, q \<mapsto> 20])"
    using b by (intro heap_use.request) simp_all
  then show ?thesis using heap_refines [OF b(1)] by blast
qed

text \<open>
  C20. In every state that clients can reach, two blocks have no byte in common, and each lies at a
  pointer that is not null and ends below the break of the heap.
\<close>

theorem heap_blocks_apart:
  assumes "heap_reach (s, A)" "A p = Some n" "A q = Some k" "p \<noteq> q"
  shows "block_bytes p n \<inter> block_bytes q k = {} \<and> p \<noteq> 0 \<and> unat p + unat n \<le> unat (heap_cur s)"
proof -
  obtain lo T where T: "client_of lo T A s" using client_reach [OF assms(1)] by (auto simp: client_def)
  show ?thesis using client_apart [OF T assms(2-4)] client_block [OF T assms(2)] by simp
qed

theorem heap_blocks_apart_witness:
  "\<exists>p q (s :: liballoc). heap_reach (s, [p \<mapsto> 10, q \<mapsto> 20]) \<and> block_bytes p 10 \<inter> block_bytes q 20 = {}"
proof -
  obtain p q s where b: "p \<noteq> q" "heap_reach (s :: liballoc, [p \<mapsto> 10, q \<mapsto> 20])" using boot_blocks by blast
  show ?thesis using heap_blocks_apart [OF b(2), of p 10 q 20] b by auto
qed

end
