(* ===== verification/Heap_Limits.thy ===== *)
theory Heap_Limits
  imports Heap_Client
begin

text \<open>
  The allocator at its limits: pointers it did not hand out, a heap without pages, and sizes that
  wrap around (\<^verbatim>\<open>kernel/kernel/liballoc.c\<close> on the hooks of \<^verbatim>\<open>rise.c\<close>).
\<close>

section \<open>An empty allocator\<close>

text \<open>
  A request on an allocator that was never used, or whose lists are empty, finds nothing there
  and asks for pages.
\<close>

definition no_lists :: "'a liballoc_scheme \<Rightarrow> bool" where
  "no_lists s \<longleftrightarrow> l_initialized s = 0 \<or> l_freePages s = (\<lambda>_. 0)"

definition fresh_heap :: "'a liballoc_scheme \<Rightarrow> 'a liballoc_scheme" where
  "fresh_heap s =
     (let s = s\<lparr>heap_lock := 1\<rparr>
      in if l_initialized s = 0
         then s\<lparr>l_freePages := (\<lambda>_. 0), l_completePages := (\<lambda>_. 0), l_initialized := 1\<rparr> else s)"

lemma fresh_heap_fields [simp]:
  "heap_cur (fresh_heap s) = heap_cur s" "heap_end (fresh_heap s) = heap_end s" "mem (fresh_heap s) = mem s"
  "io (fresh_heap s) = io s" "port_env (fresh_heap s) = port_env s" "page_room n (fresh_heap s) = page_room n s"
  "no_lists s \<Longrightarrow> l_freePages (fresh_heap s) = (\<lambda>_. 0)"
  by (auto simp: fresh_heap_def Let_def no_lists_def)

lemma find_tag_empty: "find_tag n 0 s = Some 0"
  by (simp add: find_tag.simps)

lemma kmalloc_unused:
  assumes "heap_lock s = 0" "no_lists s"
  shows "kmalloc n s =
     do {
       (tag, s) \<leftarrow> allocate_new_tag liballoc_alloc n (fresh_heap s);
       if tag = 0 then Some (0, liballoc_unlock s)
       else do {
         s \<leftarrow> split_excess tag n (tag_put Size tag n s);
         Some (tag + sizeof_tag, liballoc_unlock s)
       }
     }"
proof -
  have "liballoc_lock s = Some (s\<lparr>heap_lock := 1\<rparr>)" using assms(1) by (simp add: liballoc_lock_eq)
  then have "kmalloc n s =
     do {
       (tag, s) \<leftarrow> kernel_pages.block_for n (fresh_heap s);
       if tag = 0 then Some (0, liballoc_unlock s)
       else do {
         s \<leftarrow> split_excess tag n (tag_put Size tag n s);
         Some (tag + sizeof_tag, liballoc_unlock s)
       }
     }"
    unfolding kmalloc_def kernel_pages.malloc_block_for Let_def fresh_heap_def by simp
  moreover have "kernel_pages.block_for n (fresh_heap s) = allocate_new_tag liballoc_alloc n (fresh_heap s)"
    using assms(2) by (simp add: kernel_pages.block_for_def find_tag_empty)
  ultimately show ?thesis by simp
qed

lemma allocate_new_tag_refused:
  "liballoc_alloc (pages_for n) s = Some (0, s') \<Longrightarrow> allocate_new_tag liballoc_alloc n s = Some (0, s')"
  by (simp add: allocate_new_tag_pages)

lemma allocate_new_tag_granted:
  assumes "liballoc_alloc (pages_for n) s = Some (t, s')" "t \<noteq> 0"
  shows "\<exists>s''. allocate_new_tag liballoc_alloc n s = Some (t, s'') \<and> heap_cur s'' = heap_cur s'"
  unfolding allocate_new_tag_pages using assms by (simp add: tag_put_def)

lemma pages_for_half:
  assumes "unat n \<le> 2147479520" shows "pages_for n < 0x80000"
proof -
  have u: "unat (n + 32) = unat n + 32" using assms by (subst unat_plus_u32) simp_all
  let ?q = "(n + 32) div 4096"
  have q: "unat ?q = (unat n + 32) div 4096" by (simp add: unat_div u)
  have d: "(unat n + 32) div 4096 * 4096 + (unat n + 32) mod 4096 = unat n + 32" by (rule div_mult_mod_eq)
  then have "unat ?q \<le> 524287" using assms unfolding q by linarith
  moreover from this have q1: "unat (?q + 1) = unat ?q + 1" by (subst unat_plus_u32) simp_all
  moreover have "unat ?q \<le> 524286" if "(n + 32) mod 4096 \<noteq> 0"
  proof -
    have "0 < unat ((n + 32) mod 4096)" using that by (simp add: unat_gt_0)
    then have "0 < (unat n + 32) mod 4096" by (simp add: unat_mod u)
    then show ?thesis using d assms unfolding q by linarith
  qed
  ultimately show ?thesis by (auto simp: pages_for_def Let_def word_less_nat_alt)
qed

text \<open>Splitting always returns, and leaves the break alone.\<close>

lemma tag_put_heap_cur [simp]: "heap_cur (tag_put f t v s) = heap_cur s"
  by (simp add: tag_put_def)

lemma insert_tag_total: "\<exists>s'. insert_tag t (- 1) s = Some s' \<and> heap_cur s' = heap_cur s"
proof -
  obtain i where "max (getexp (tag_get Real_size t s - sizeof_tag)) 8 = int i" "i < 32" using list_index by blast
  then show ?thesis by (simp add: insert_tag_def Let_def)
qed

lemma bind_total: "\<exists>s'. m = Some s' \<and> P s' \<Longrightarrow> \<exists>a s'. Option.bind m (\<lambda>s. Some (x, s)) = Some (a, s') \<and> P s'"
  by auto

lemma split_excess_total: "\<exists>s'. split_excess t n s = Some s' \<and> heap_cur s' = heap_cur s"
proof -
  have "\<exists>a s'. split_tag t u = Some (a, s') \<and> heap_cur s' = heap_cur u" for u :: "'a liballoc_scheme"
    unfolding split_tag_def Let_def
    by (rule bind_total, rule exE [OF insert_tag_total], rule exI, erule conjE, rule conjI, assumption) simp
  from this [of s] obtain a s' where "split_tag t s = Some (a, s')" "heap_cur s' = heap_cur s" by blast
  then show ?thesis by (simp add: split_excess_def Let_def)
qed

text \<open>With room in the heap, the block of such a request is a new region at the break.\<close>

lemma kmalloc_first:
  assumes "heap_lock s = 0" "no_lists s" "page_room (pages_for n) s"
  shows "\<exists>s'. kmalloc n s = Some (heap_cur s + sizeof_tag, s')
    \<and> heap_cur s' = heap_cur s + pages_for n * 0x1000"
proof -
  let ?s = "fresh_heap s"
  have r: "page_room (pages_for n) ?s" using assms(3) by simp
  have a: "liballoc_alloc (pages_for n) ?s = Some (heap_cur s, ?s\<lparr>heap_cur := heap_cur s + pages_for n * 0x1000\<rparr>)"
    using liballoc_alloc_room [OF r] by simp
  have nz: "heap_cur s \<noteq> 0" using assms(3) by (simp add: page_room_def low_heap_def)
  obtain s1 where s1: "allocate_new_tag liballoc_alloc n ?s = Some (heap_cur s, s1)"
    "heap_cur s1 = heap_cur s + pages_for n * 0x1000"
    using allocate_new_tag_granted [OF a nz] by auto
  obtain s2 where s2: "split_excess (heap_cur s) n (tag_put Size (heap_cur s) n s1) = Some s2" "heap_cur s2 = heap_cur s1"
    using split_excess_total [of "heap_cur s" n "tag_put Size (heap_cur s) n s1"] by auto
  have "kmalloc n s = Some (heap_cur s + sizeof_tag, liballoc_unlock s2)"
    unfolding kmalloc_unused [OF assms(1,2)] using s1(1) s2(1) nz by simp
  then show ?thesis using s1(2) s2(2) by (simp add: liballoc_unlock_def)
qed

text \<open>The heap before paging is initialised: no pages, no blocks.\<close>

definition heap_unpaged :: "'a liballoc_scheme \<Rightarrow> bool" where
  "heap_unpaged s \<longleftrightarrow> tx_live s \<and> heap_cur s = 0 \<and> heap_end s = 0 \<and> heap_lock s = 0 \<and> no_lists s"

lemma kmalloc_refused:
  assumes u: "heap_unpaged s" and n: "unat n \<le> 2147479520"
  shows "\<exists>s'. kmalloc n s = Some (0, s') \<and> mem s' = mem s \<and> heap_unpaged s'
    \<and> io s' = io s @ map (Outb PORT) (map of_char (''Out of memory: You need a bigger heap pal'' @ [CHR 0x0A]))"
proof -
  let ?m = "''Out of memory: You need a bigger heap pal'' @ [CHR 0x0A]"
  have s: "heap_lock s = 0" "no_lists s" "heap_cur s = 0" "heap_end s = 0" "tx_live s"
    using u by (simp_all add: heap_unpaged_def)
  have "tx_live (fresh_heap s)" using s(5) by (simp add: tx_live_def tx_ready_def)
  from liballoc_alloc_before_init [OF this _ _ pages_for_half [OF n]] s(3,4)
  obtain k where "liballoc_alloc (pages_for n) (fresh_heap s)
      = Some (0, (fresh_heap s)\<lparr>io := io s @ map (Outb PORT) (map of_char ?m), in_count := k\<rparr>)" by auto
  from allocate_new_tag_refused [OF this]
  have "kmalloc n s = Some (0, liballoc_unlock ((fresh_heap s)\<lparr>io := io s @ map (Outb PORT) (map of_char ?m), in_count := k\<rparr>))"
    by (simp add: kmalloc_unused [OF s(1,2)])
  moreover have "heap_unpaged (liballoc_unlock ((fresh_heap s)\<lparr>io := ws, in_count := k\<rparr>))" for ws
    using s by (simp add: heap_unpaged_def no_lists_def liballoc_unlock_def spin_unlock_def tx_live_def tx_ready_def)
  ultimately show ?thesis by (simp add: liballoc_unlock_def)
qed

text \<open>A list of requests, one after the other, with the pointers they return.\<close>

fun mallocs :: "u32 list \<Rightarrow> 'a liballoc_scheme \<Rightarrow> (u32 list \<times> 'a liballoc_scheme) option" where
  "mallocs [] s = Some ([], s)"
| "mallocs (n # ns) s = do { (p, s) \<leftarrow> kmalloc n s; (ps, s) \<leftarrow> mallocs ns s; Some (p # ps, s) }"

lemma mallocs_refused:
  "heap_unpaged s \<Longrightarrow> \<forall>n \<in> set ns. unat n \<le> 2147479520 \<Longrightarrow>
   \<exists>s'. mallocs ns s = Some (replicate (length ns) 0, s') \<and> mem s' = mem s \<and> heap_unpaged s'"
proof (induction ns arbitrary: s)
  case (Cons n ns)
  obtain t where t: "kmalloc n s = Some (0, t)" "mem t = mem s" "heap_unpaged t"
    using kmalloc_refused [OF Cons.prems(1), of n] Cons.prems(2) by auto
  moreover obtain u where "mallocs ns t = Some (replicate (length ns) 0, u)" "mem u = mem t" "heap_unpaged u"
    using Cons.IH [OF t(3)] Cons.prems(2) by auto
  ultimately show ?case by simp
qed simp

section \<open>Properties\<close>

text \<open>
  Releasing a pointer whose tag does not carry the mark, and releasing the null pointer, change
  nothing, whatever the state of the heap.
\<close>

theorem kfree_unmarked:
  assumes "heap_lock s = 0" "p = 0 \<or> tag_get Magic (p - sizeof_tag) s \<noteq> LIBALLOC_MAGIC"
  shows "kfree p s = Some s"
proof -
  have "s\<lparr>heap_lock := heap_lock s\<rparr> = s" by simp
  then have unlocked: "s\<lparr>heap_lock := 0\<rparr> = s" by (simp only: assms(1))
  show ?thesis
    using assms by (auto simp: kfree_def free_def liballoc_lock_eq liballoc_unlock_def spin_unlock_def unlocked tag_get_def)
qed

theorem kfree_unmarked_witness: "kfree 0x200000 (boot_heap\<lparr>mem := \<lambda>_. 0\<rparr>) = Some (boot_heap\<lparr>mem := \<lambda>_. 0\<rparr>)"
  by (rule kfree_unmarked) (simp_all add: boot_heap_start tag_get_def load32_def)

text \<open>
  Before paging is initialised, as in \<^verbatim>\<open>kernel_main\<close>, which leaves the call out, every request of
  up to 2147479520 bytes, which is 2 GB less a page and a tag, returns the null pointer after the message that a bigger heap is needed; memory is
  not touched, the lock is released, and the next request meets the same state.
\<close>

theorem kmalloc_before_paging:
  assumes "heap_unpaged s" "unat n \<le> 2147479520"
  shows "\<exists>s'. kmalloc n s = Some (0, s') \<and> mem s' = mem s \<and> heap_unpaged s'
    \<and> io s' = io s @ map (Outb PORT) (map of_char (''Out of memory: You need a bigger heap pal'' @ [CHR 0x0A]))"
  by (rule kmalloc_refused [OF assms])

definition early_heap :: liballoc where
  "early_heap = rise.extend boot_rise \<lparr>l_freePages = (\<lambda>_. 0), l_completePages = (\<lambda>_. 0), l_initialized = 0\<rparr>"

lemma early_heap_unpaged: "heap_unpaged early_heap"
  using boot_rise_live
  by (simp add: heap_unpaged_def no_lists_def early_heap_def boot_rise_def tx_live_def tx_ready_def rise.defs vmm.defs)

theorem kmalloc_before_paging_witness: "\<exists>s'. kmalloc 10 early_heap = Some (0, s') \<and> heap_unpaged s'"
  using kmalloc_before_paging [OF early_heap_unpaged, of 10] by auto

text \<open>
  C29. On an allocator whose lists are empty, as before its first use, whose lock is free, and with
  room in the heap for one region of 16 pages, a request within 32 bytes of 4 GB is granted, although
  no memory could hold it: adding the tag wraps around to almost nothing, so the break moves by one
  minimal region of 64 KB and the pointer returned leads into that region.
\<close>

theorem kmalloc_wraps:
  assumes "heap_lock s = 0" "no_lists s" "page_room 16 s" "0xFFFFFFE0 \<le> n"
  shows "\<exists>s'. kmalloc n s = Some (heap_cur s + sizeof_tag, s') \<and> unat (heap_cur s') = unat (heap_cur s) + 65536"
proof -
  have n: "4294967264 \<le> unat n" using assms(4) by (simp add: word_le_nat_alt)
  have "n + 32 = n - 0xFFFFFFE0" by (subst eq_diff_eq) simp
  moreover have "unat (n - 0xFFFFFFE0) = unat n - 4294967264" using assms(4) by (subst unat_minus_u32) simp_all
  ultimately have "unat (n + 32) = unat n - 4294967264" by (simp only:)
  then have small: "unat (n + 32) < 32" using unat_u32_lt [of n] by simp
  then have "unat ((n + 32) div 4096) = 0" by (simp add: unat_div)
  then have "(n + 32) div 4096 = 0" by (simp add: unat_eq_0)
  then have p: "pages_for n = 16" by (simp add: pages_for_def Let_def)
  have "unat (heap_cur s + 16 * 0x1000) = unat (heap_cur s) + 65536"
    using liballoc_alloc_room [OF assms(3)] by simp
  moreover have "page_room (pages_for n) s" using assms(3) by (simp add: p)
  ultimately show ?thesis using kmalloc_first [OF assms(1,2), of n] by (auto simp: p)
qed

theorem kmalloc_wraps_witness:
  "\<exists>s'. kmalloc 0xFFFFFFFF boot_heap = Some (0x138420, s') \<and> heap_cur s' = 0x148400"
proof -
  have "page_room 16 boot_heap" using paged_rise_room(1)
    by (simp add: boot_heap_def page_room_def low_heap_def rise.defs)
  moreover have "no_lists boot_heap" by (simp add: no_lists_def boot_heap_start)
  ultimately have "0xFFFFFFE0 \<le> n \<Longrightarrow> \<exists>s'. kmalloc n boot_heap = Some (heap_cur boot_heap + sizeof_tag, s')
      \<and> unat (heap_cur s') = unat (heap_cur boot_heap) + 65536" for n
    using kmalloc_wraps [OF boot_heap_start(4)] by blast
  from this [of "0xFFFFFFFF"] show ?thesis
    by (auto simp: boot_heap_start word_unat_eq_iff)
qed

end
