(* ===== verification/Heap_Regions.thy ===== *)
theory Heap_Regions
  imports Heap_Limits
begin

text \<open>
  Whole regions given back by the allocator (\<^verbatim>\<open>kernel/kernel/liballoc.c\<close> on the hooks of \<^verbatim>\<open>rise.c\<close>).

  A block that has its region to itself stands by on its list when it is released, up to five of
  a size class; the sixth is given back through \<^verbatim>\<open>liballoc_free\<close>.  The theory follows a client that
  takes and releases one such block at a time, whose sixth release is reached from boot, and
  states what that release does.
\<close>

section \<open>One region too many\<close>

text \<open>The blocks of a workload that takes and gives back one region at a time.\<close>

abbreviation big :: u32 where "big \<equiv> 65480"

lemma getexp_bits: "unat n < 65536 \<Longrightarrow> 32768 \<le> unat n \<Longrightarrow> getexp n = 15"
proof -
  assume n: "unat n < 65536" "32768 \<le> unat n"
  obtain k where k: "getexp n = int k" "2 ^ k \<le> unat n" "unat n < 2 ^ (k + 1)"
    using getexp_large [of n] n(2) by auto
  have "\<not> k < 15"
  proof
    assume "k < 15"
    then have "(2 :: nat) ^ (k + 1) \<le> 2 ^ 15" by (intro power_increasing) auto
    then show False using k(3) n(2) by simp
  qed
  moreover have "\<not> 15 < k"
  proof
    assume "15 < k"
    then have "(2 :: nat) ^ 16 \<le> 2 ^ k" by (intro power_increasing) auto
    then show False using k(2) n(1) by simp
  qed
  ultimately show ?thesis using k(1) by simp
qed

lemma getexp_big: "getexp big = 15" "getexp 65504 = 15"
  by (rule getexp_bits; simp)+

lemma pages_for_big: "pages_for big = 16"
  by (simp add: pages_for_def Let_def)

lemma tag_put_outside:
  "same_outside (in_region t 32) m (mem u) \<Longrightarrow> same_outside (in_region t 32) m (mem (tag_put f t v u))"
  using field_in_tag by (auto intro!: same_outside_trans [of _ m "mem u"] same_outside_store32 simp: tag_put_def)

text \<open>A request that finds nothing on its list takes a region of its own and leaves nothing of it.\<close>

lemma kmalloc_region:
  assumes l: "heap_lock s = 0" and f: "find_tag big (l_freePages (fresh_heap s) 15) (fresh_heap s) = Some 0"
    and r: "page_room 16 s"
  shows "\<exists>m. kmalloc big s = Some (heap_cur s + 32, (fresh_heap s)\<lparr>heap_cur := heap_cur s + 0x10000, mem := m, heap_lock := 0\<rparr>)
    \<and> same_outside (in_region (heap_cur s) 32) (mem s) m
    \<and> (\<forall>f. load32 m (heap_cur s + field_offset f) = (case f of Magic \<Rightarrow> LIBALLOC_MAGIC | Size \<Rightarrow> big
         | Real_size \<Rightarrow> 65536 | Index \<Rightarrow> - 1 | _ \<Rightarrow> 0))"
proof -
  let ?t = "heap_cur s" and ?s = "fresh_heap s"
  have a: "liballoc_alloc 16 ?s = Some (?t, ?s\<lparr>heap_cur := ?t + 0x10000\<rparr>)"
    using liballoc_alloc_room(1) [of 16 ?s] r by simp
  have nz: "?t \<noteq> 0" using r by (simp add: page_room_def low_heap_def)
  have lock: "liballoc_lock s = Some (s\<lparr>heap_lock := 1\<rparr>)" using l by (simp add: liballoc_lock_eq)
  let ?u = "tag_put Split_right ?t 0 (tag_put Split_left ?t 0 (tag_put Prev ?t 0 (tag_put Next ?t 0
        (tag_put Index ?t (- 1) (tag_put Real_size ?t 65536
          (tag_put Size ?t big (tag_put Magic ?t LIBALLOC_MAGIC (?s\<lparr>heap_cur := ?t + 0x10000\<rparr>))))))))"
  have new: "allocate_new_tag liballoc_alloc big ?s = Some (?t, ?u)"
    unfolding allocate_new_tag_pages pages_for_big using a nz by simp
  let ?v = "tag_put Size ?t big ?u"
  have fields: "tag_get f ?t ?v = (case f of Magic \<Rightarrow> LIBALLOC_MAGIC | Size \<Rightarrow> big
      | Real_size \<Rightarrow> 65536 | Index \<Rightarrow> - 1 | _ \<Rightarrow> 0)" for f
    by (cases f) (simp_all add: tag_get_put)
  have split: "split_excess ?t big ?v = Some ?v" by (simp add: split_excess_def fields)
  have block: "kernel_pages.block_for big ?s = Some (?t, ?u)"
    unfolding kernel_pages.block_for_def using f new by (simp add: getexp_big)
  have "kmalloc big s = Some (?t + 32, liballoc_unlock ?v)"
    unfolding kmalloc_def kernel_pages.malloc_block_for Let_def
    using lock block split nz by (simp add: fresh_heap_def Let_def)
  moreover have "liballoc_unlock ?v = ?s\<lparr>heap_cur := ?t + 0x10000, mem := mem ?v, heap_lock := 0\<rparr>"
    by (simp add: liballoc_unlock_def spin_unlock_def tag_put_def)
  moreover have "same_outside (in_region ?t 32) (mem s) (mem ?v)"
    by (intro tag_put_outside) simp
  ultimately show ?thesis using fields unfolding tag_get_def by metis
qed


text \<open>Releasing a block that has its region to itself: nothing is merged.\<close>

abbreviation list_of :: "u32 \<Rightarrow> nat" where
  "list_of r \<equiv> nat (max (getexp (r - sizeof_tag)) (int MINEXP))"

lemma melt_alone: "tag_get Split_left t s = 0 \<Longrightarrow> melt_loop t s = Some (t, s)"
  by (simp add: melt_loop.simps)

lemma absorb_alone: "tag_get Split_right t s = 0 \<Longrightarrow> absorb_loop t s = Some (t, s)"
  by (simp add: absorb_loop.simps)

lemma tag_get_lock [simp]: "tag_get f t (s\<lparr>heap_lock := l\<rparr>) = tag_get f t s"
  by (simp add: tag_get_def)

lemma kfree_whole:
  assumes l: "heap_lock s = 0" and p: "p \<noteq> 0" "tag_get Magic (p - 32) s = LIBALLOC_MAGIC"
    and w: "tag_get Split_left (p - 32) s = 0" "tag_get Split_right (p - 32) s = 0"
    and r: "tag_get Real_size (p - 32) s = pages * 0x1000" "16 \<le> pages" "unat pages * 4096 < 4194304"
    and c: "l_completePages s (list_of (pages * 0x1000)) = MAXCOMPLETE"
  shows "kfree p s = map_option (\<lambda>(_, s). liballoc_unlock s) (liballoc_free (p - 32) pages (s\<lparr>heap_lock := 1\<rparr>))"
proof -
  have m: "unat (pages * 0x1000) = unat pages * 4096" using r(3) by (subst unat_mult_u32) simp_all
  then have "pages * 0x1000 div 4096 = pages" "pages * 0x1000 mod 4096 = 0"
    by (simp_all add: word_unat_eq_iff unat_div unat_mod)
  moreover have "\<not> pages < 16" using r(2) by simp
  moreover have "liballoc_lock s = Some (s\<lparr>heap_lock := 1\<rparr>)" using l by (simp add: liballoc_lock_eq)
  ultimately show ?thesis
    using p w r(1) c
    by (simp add: kfree_def free_def melt_alone absorb_alone map_option_case case_prod_beta split: option.splits)
qed

text \<open>With fewer than five regions standing by, the region becomes the head of its list.\<close>

lemma kfree_stands_by:
  assumes l: "heap_lock s = 0" and t: "t + 32 \<noteq> 0" "tag_get Magic t s = LIBALLOC_MAGIC"
    and w: "tag_get Split_left t s = 0" "tag_get Split_right t s = 0" "tag_get Real_size t s = 65536"
    and c: "l_completePages s 15 \<noteq> MAXCOMPLETE" and h: "l_freePages s 15 = h" "h = 0 \<or> apart t 32 h 32"
  shows "\<exists>m. kfree (t + 32) s = Some (s\<lparr>mem := m, l_completePages := (l_completePages s)(15 := l_completePages s 15 + 1),
        l_freePages := (l_freePages s)(15 := t)\<rparr>)
    \<and> same_outside (\<lambda>x. in_region t 32 x \<or> h \<noteq> 0 \<and> in_region h 32 x) (mem s) m
    \<and> load32 m (t + 24) = (if h = 0 then tag_get Next t s else h) \<and> load32 m (t + 8) = 65536
    \<and> (h \<noteq> 0 \<longrightarrow> load32 m (h + 24) = tag_get Next h s \<and> load32 m (h + 8) = tag_get Real_size h s)"
proof -
  have unlocked: "s\<lparr>heap_lock := 0\<rparr> = s" using l by simp
  have lock: "liballoc_lock s = Some (s\<lparr>heap_lock := 1\<rparr>)" using l by (simp add: liballoc_lock_eq)
  let ?s = "s\<lparr>heap_lock := 1, l_completePages := (l_completePages s)(15 := l_completePages s 15 + 1)\<rparr>"
  let ?i = "tag_put Index t 15 ?s"
  let ?n = "if h \<noteq> 0 then tag_put Next t h (tag_put Prev h t ?i) else ?i"
  have ins: "insert_tag t 15 ?s = Some (?n\<lparr>l_freePages := (l_freePages s)(15 := t)\<rparr>)"
    unfolding insert_tag_def using h(1) by (simp add: Let_def frame_simps)
  have run: "kfree (t + 32) s = Some (liballoc_unlock (?n\<lparr>l_freePages := (l_freePages s)(15 := t)\<rparr>))"
    using t w c lock ins by (simp add: kfree_def free_def melt_alone absorb_alone getexp_big)
  have rest: "?n = ?s\<lparr>mem := mem ?n\<rparr>" by (simp add: tag_put_def)
  have "liballoc_unlock (?n\<lparr>l_freePages := (l_freePages s)(15 := t)\<rparr>) =
    s\<lparr>mem := mem ?n, l_completePages := (l_completePages s)(15 := l_completePages s 15 + 1), l_freePages := (l_freePages s)(15 := t)\<rparr>"
    by (subst rest) (simp add: liballoc_unlock_def spin_unlock_def l)
  moreover have "same_outside (\<lambda>x. in_region t 32 x \<or> h \<noteq> 0 \<and> in_region h 32 x) (mem s) (mem ?n)"
  proof -
    have put: "same_outside R m (mem u) \<Longrightarrow> (\<And>x. in_region a 32 x \<Longrightarrow> R x) \<Longrightarrow> same_outside R m (mem (tag_put f a v u))"
      for R m f a v and u :: "'a liballoc_scheme"
      using field_in_tag by (auto intro!: same_outside_trans [of _ m "mem u"] same_outside_store32 simp: tag_put_def)
    show ?thesis by (cases "h = 0") (auto intro!: put)
  qed
  moreover have "tag_get f u ?n = (if u = t \<and> f = Index then 15 else if u = t \<and> f = Next \<and> h \<noteq> 0 then h
      else if u = h \<and> f = Prev \<and> h \<noteq> 0 then t else tag_get f u s)" if "u = t \<or> u = h \<and> h \<noteq> 0" for f u
    using that
  proof
    assume u: "u = t"
    have "h = 0 \<or> apart h 32 t 32 \<and> h \<noteq> t" using h(2) by (auto intro: apart_sym simp: apart_def)
    then show ?thesis unfolding u by (auto simp: tag_get_put)
  next
    assume u: "u = h \<and> h \<noteq> 0"
    then have "apart h 32 t 32" "apart t 32 h 32" "h \<noteq> t" using h(2) by (auto intro: apart_sym simp: apart_def)
    then show ?thesis using u by (simp add: tag_get_put)
  qed
  note this [of t Next] this [of t Real_size] this [of h Next] this [of h Real_size]
  moreover have "h = 0 \<or> h \<noteq> t" using h(2) by (auto simp: apart_def)
  ultimately show ?thesis
    unfolding run using w(3) by (intro exI [of _ "mem ?n"]) (auto simp: tag_get_def)
qed

section \<open>A client that takes one region at a time\<close>

text \<open>The place of the \<open>j\<close>-th region of the heap after boot.\<close>

definition region_tag :: "nat \<Rightarrow> u32" where
  "region_tag j = 0x138400 + of_nat (j * 0x10000)"

lemma region_tag_unat: "j \<le> 8 \<Longrightarrow> unat (region_tag j) = 0x138400 + j * 0x10000"
  unfolding region_tag_def by (subst unat_add_of_nat_u32) simp_all

lemma region_tag_Suc: "region_tag (Suc j) = region_tag j + 0x10000"
  by (simp add: region_tag_def)

lemma region_tag_apart: "i \<le> 8 \<Longrightarrow> j \<le> 8 \<Longrightarrow> i \<noteq> j \<Longrightarrow> apart (region_tag i) 32 (region_tag j) 32"
  using apart_offsets [of "i * 0x10000" 32 "j * 0x10000" 32 "0x138400"]
    apart_offsets [of "j * 0x10000" 32 "i * 0x10000" 32 "0x138400"]
  unfolding region_tag_def by (cases "i < j") (auto intro: apart_sym)

text \<open>\<open>k\<close> regions stand by, the last one in front.\<close>

abbreviation chain_head :: "nat \<Rightarrow> u32" where
  "chain_head k \<equiv> if k = 0 then 0 else region_tag (k - 1)"

definition chained :: "nat \<Rightarrow> 'a liballoc_scheme \<Rightarrow> bool" where
  "chained k s \<longleftrightarrow> heap_lock s = 0 \<and> heap_end s = 0x538400
     \<and> l_freePages (fresh_heap s) = l_freePages s \<and> l_completePages (fresh_heap s) = l_completePages s
     \<and> l_freePages s 15 = chain_head k \<and> l_completePages s = (\<lambda>i. if i = 15 then of_nat k else 0)
     \<and> (\<forall>j < k. load32 (mem s) (region_tag j + 8) = 65536 \<and> load32 (mem s) (region_tag j + 24) = chain_head j)
     \<and> kernel_dir s = 0x135000 \<and> placementaddr s = 0x138400 \<and> bitmap_addr s = 0x110000
     \<and> identity_map 0x135000 0x137000 (mem s)"

lemma chain_search: "(\<forall>j < k. load32 (mem s) (region_tag j + 8) = 65536 \<and> load32 (mem s) (region_tag j + 24) = chain_head j)
  \<Longrightarrow> find_tag big (chain_head k) s = Some 0"
proof (induction k)
  case 0
  then show ?case by (simp add: find_tag_empty)
next
  case (Suc k)
  have "find_tag big (chain_head k) s = Some 0" by (rule Suc.IH) (use Suc.prems in simp)
  moreover have "tag_get Real_size (region_tag k) s = 65536" "tag_get Next (region_tag k) s = chain_head k"
    using Suc.prems by (simp_all add: tag_get_def)
  ultimately show ?case by (subst find_tag.simps) simp
qed

text \<open>Writes to tags of the regions touch neither the fields of the others nor the page tables.\<close>

lemma region_above: "j \<le> 8 \<Longrightarrow> in_region (region_tag j) 32 x \<Longrightarrow> 0x138000 \<le> unat x"
  using region_tag_unat [of j] in_region_ordered [of "region_tag j" 32 x] by simp

lemma region_field_same:
  assumes "same_outside R m m'" "\<And>i. i < 32 \<Longrightarrow> \<not> R (t + of_nat i)"
  shows "load32 m' (t + 8) = load32 m (t + 8)" "load32 m' (t + 24) = load32 m (t + 24)"
proof -
  have "load32 m' (t + of_nat k) = load32 m (t + of_nat k)" if "k + 4 \<le> 32" for k
    using assms(2) that by (intro same_outside_load32 [OF assms(1)]) (metis add.assoc nat_add_left_cancel_less of_nat_add less_le_trans)
  from this [of 8] this [of 24] show "load32 m' (t + 8) = load32 m (t + 8)" "load32 m' (t + 24) = load32 m (t + 24)" by simp_all
qed

lemma low_map_same:
  assumes "identity_map 0x135000 0x137000 m" "same_outside R m m'" "\<And>x. R x \<Longrightarrow> 0x138000 \<le> unat x"
  shows "identity_map 0x135000 0x137000 m'"
  by (rule identity_map_outside [OF assms(1) _ _ _ assms(2,3)]) simp_all

lemma chained_kmalloc:
  assumes c: "chained k s" and b: "heap_cur s = region_tag k" "k \<le> 5"
  shows "\<exists>s'. kmalloc big s = Some (region_tag k + 32, s') \<and> chained k s' \<and> heap_cur s' = region_tag (Suc k)
    \<and> l_initialized s' \<noteq> 0
    \<and> (\<forall>f. tag_get f (region_tag k) s' = (case f of Magic \<Rightarrow> LIBALLOC_MAGIC | Size \<Rightarrow> big
         | Real_size \<Rightarrow> 65536 | Index \<Rightarrow> - 1 | _ \<Rightarrow> 0))"
proof -
  let ?t = "region_tag k"
  have u: "unat ?t = 0x138400 + k * 0x10000" using b(2) by (intro region_tag_unat) simp
  have i: "identity_map 0x135000 0x137000 (mem s)" and d: "kernel_dir s = 0x135000" "heap_end s = 0x538400"
    using c by (simp_all add: chained_def)
  have "?t \<noteq> 0" using u by (auto simp: word_unat_eq_iff)
  then have room: "page_room 16 s" using i d b u by (auto simp: page_room_def low_heap_def)
  have f: "find_tag big (l_freePages (fresh_heap s) 15) (fresh_heap s) = Some 0"
    using c chain_search [of k "fresh_heap s"] by (simp add: chained_def)
  have l: "heap_lock s = 0" using c by (simp add: chained_def)
  obtain m where m: "kmalloc big s = Some (?t + 32, (fresh_heap s)\<lparr>heap_cur := ?t + 0x10000, mem := m, heap_lock := 0\<rparr>)"
    "same_outside (in_region ?t 32) (mem s) m"
    "\<forall>f. load32 m (?t + field_offset f) = (case f of Magic \<Rightarrow> LIBALLOC_MAGIC | Size \<Rightarrow> big
         | Real_size \<Rightarrow> 65536 | Index \<Rightarrow> - 1 | _ \<Rightarrow> 0)"
    using kmalloc_region [OF l f room] unfolding b(1) by blast
  let ?s = "(fresh_heap s)\<lparr>heap_cur := ?t + 0x10000, mem := m, heap_lock := 0\<rparr>"
  have old: "load32 m (region_tag j + 8) = load32 (mem s) (region_tag j + 8)"
    "load32 m (region_tag j + 24) = load32 (mem s) (region_tag j + 24)" if "j < k" for j
    using that b(2) apart_not_in_region [OF region_tag_apart [of k j]]
    by (intro region_field_same [OF m(2)]; simp)+
  have init: "l_initialized ?s \<noteq> 0" by (simp add: fresh_heap_def Let_def)
  then have fresh: "fresh_heap ?s = ?s\<lparr>heap_lock := 1\<rparr>" by (simp add: fresh_heap_def [of ?s])
  have "kernel_dir ?s = kernel_dir s" "placementaddr ?s = placementaddr s" "bitmap_addr ?s = bitmap_addr s"
    by (simp_all add: fresh_heap_def Let_def)
  then have "chained k ?s"
    using c old low_map_same [OF i m(2)] region_above [of k] b(2) unfolding chained_def fresh by simp
  then show ?thesis
    using m(1,3) init by (intro exI [of _ ?s]) (simp add: region_tag_Suc tag_get_def)
qed

lemma chained_kfree:
  assumes c: "chained k s" and k: "k < 5" and i: "l_initialized s \<noteq> 0"
    and f: "\<And>f. tag_get f (region_tag k) s = (case f of Magic \<Rightarrow> LIBALLOC_MAGIC | Size \<Rightarrow> big
         | Real_size \<Rightarrow> 65536 | Index \<Rightarrow> - 1 | _ \<Rightarrow> 0)"
  shows "\<exists>s'. kfree (region_tag k + 32) s = Some s' \<and> chained (Suc k) s' \<and> heap_cur s' = heap_cur s"
proof -
  let ?t = "region_tag k" and ?h = "chain_head k"
  have u: "unat ?t = 0x138400 + k * 0x10000" using k by (intro region_tag_unat) simp
  then have "unat (?t + 32) = 0x138420 + k * 0x10000" using k by (subst unat_plus_u32) simp_all
  then have nz: "?t + 32 \<noteq> 0" by (auto simp: word_unat_eq_iff)
  have l: "heap_lock s = 0" and h: "l_freePages s 15 = ?h" and i0: "identity_map 0x135000 0x137000 (mem s)"
    and cnt: "l_completePages s = (\<lambda>i. if i = 15 then of_nat k else 0)"
    using c by (simp_all add: chained_def)
  have "unat (of_nat k :: u32) = k" using k by (intro unat_of_nat_u32) simp
  then have n5: "l_completePages s 15 \<noteq> MAXCOMPLETE" using k cnt by (auto simp: word_unat_eq_iff)
  have ap: "?h = 0 \<or> apart ?t 32 ?h 32" using k by (auto intro: region_tag_apart)
  obtain m where m: "kfree (?t + 32) s = Some (s\<lparr>mem := m, l_completePages := (l_completePages s)(15 := l_completePages s 15 + 1),
        l_freePages := (l_freePages s)(15 := ?t)\<rparr>)"
    "same_outside (\<lambda>x. in_region ?t 32 x \<or> ?h \<noteq> 0 \<and> in_region ?h 32 x) (mem s) m"
    "load32 m (?t + 24) = (if ?h = 0 then tag_get Next ?t s else ?h)" "load32 m (?t + 8) = 65536"
    "?h \<noteq> 0 \<longrightarrow> load32 m (?h + 24) = tag_get Next ?h s \<and> load32 m (?h + 8) = tag_get Real_size ?h s"
    using kfree_stands_by [OF l nz _ _ _ _ n5 h ap] f by auto
  let ?s = "s\<lparr>mem := m, l_completePages := (l_completePages s)(15 := l_completePages s 15 + 1),
        l_freePages := (l_freePages s)(15 := ?t)\<rparr>"
  have fields: "load32 m (region_tag j + 8) = 65536 \<and> load32 m (region_tag j + 24) = chain_head j" if j: "j < Suc k" for j
  proof -
    have old: "load32 (mem s) (region_tag j + 8) = 65536" "load32 (mem s) (region_tag j + 24) = chain_head j" if "j < k"
      using c that by (simp_all add: chained_def)
    consider "j = k" | "0 < k" "j = k - 1" | "j < k" "j \<noteq> k - 1" using j by linarith
    then show ?thesis
    proof cases
      case 1
      then show ?thesis using m(3,4) f [of Next] by (cases "k = 0") auto
    next
      case 2
      then have "?h = region_tag j" "?h \<noteq> 0" using region_tag_unat [of j] k by (auto simp: word_unat_eq_iff)
      then show ?thesis using m(5) old 2 by (simp add: tag_get_def)
    next
      case 3
      then have "load32 m (region_tag j + 8) = load32 (mem s) (region_tag j + 8)"
        "load32 m (region_tag j + 24) = load32 (mem s) (region_tag j + 24)"
        using k apart_not_in_region [OF region_tag_apart [of k j]] apart_not_in_region [OF region_tag_apart [of "k - 1" j]]
        by (intro region_field_same [OF m(2)]; auto)+
      then show ?thesis using old 3 by simp
    qed
  qed
  have low: "0x138000 \<le> unat x" if "in_region ?t 32 x \<or> ?h \<noteq> 0 \<and> in_region ?h 32 x" for x
    using that k region_above [of k x] region_above [of "k - 1" x] by (auto split: if_splits)
  have fresh: "fresh_heap ?s = ?s\<lparr>heap_lock := 1\<rparr>" using i by (simp add: fresh_heap_def)
  have "chained (Suc k) ?s"
    using c fields low_map_same [OF i0 m(2) low] cnt unfolding chained_def fresh by (auto simp: fun_eq_iff)
  then show ?thesis using m(1) by simp
qed

text \<open>From boot, five rounds.\<close>

lemma boot_heap_chained: "chained 0 boot_heap"
proof -
  have p: "page_up 0x135000 = 0x135000" by (simp add: page_up_def)
  from paging_init_result [OF boot_vmm_live] obtain s' where s': "paging_init boot_vmm = Some s'"
    "placementaddr s' = 0x138400" "bitmap_addr s' = 0x110000" "kernel_dir s' = 0x135000"
    "identity_map 0x135000 0x137000 (mem s')" by (auto simp: p)
  then show ?thesis
    using boot_heap_start(3-5)
    by (simp add: chained_def fresh_heap_def Let_def boot_heap_def paged_rise_def rise.defs vmm.defs fun_eq_iff)
qed

lemma chained_fits: "chained k s \<Longrightarrow> heap_cur s = region_tag k \<Longrightarrow> k \<le> 5 \<Longrightarrow> heap_fits big s"
  using region_tag_unat [of k] by (auto simp: chained_def heap_fits_def pages_for_big)

lemma chained_rounds: "k \<le> 5 \<Longrightarrow> \<exists>s. heap_reach (s :: liballoc, Map.empty) \<and> chained k s \<and> heap_cur s = region_tag k"
proof (induction k)
  case 0
  then show ?case using boot_heap_start(1,2) boot_heap_chained by (auto simp: region_tag_def)
next
  case (Suc k)
  then obtain s where s: "heap_reach (s :: liballoc, Map.empty)" "chained k s" "heap_cur s = region_tag k" by auto
  have k: "k < 5" "k \<le> 5" using Suc.prems by simp_all
  let ?p = "region_tag k + 32"
  obtain s1 where s1: "kmalloc big s = Some (?p, s1)" "chained k s1" "heap_cur s1 = region_tag (Suc k)" "l_initialized s1 \<noteq> 0"
    "\<And>f. tag_get f (region_tag k) s1 = (case f of Magic \<Rightarrow> LIBALLOC_MAGIC | Size \<Rightarrow> big
         | Real_size \<Rightarrow> 65536 | Index \<Rightarrow> - 1 | _ \<Rightarrow> 0)"
    using chained_kmalloc [OF s(2,3) k(2)] by blast
  obtain s2 where s2: "kfree ?p s1 = Some s2" "chained (Suc k) s2" "heap_cur s2 = region_tag (Suc k)"
    using chained_kfree [OF s1(2) k(1) s1(4,5)] s1(3) by auto
  have "heap_use (Request big ?p) (s, Map.empty) (s1, [?p \<mapsto> big])"
    using chained_fits [OF s(2,3) k(2)] s1(1) by (intro heap_use.request) simp_all
  then have r1: "heap_reach (s1, [?p \<mapsto> big])" by (rule heap_reach.step [OF s(1)])
  have "unat (of_nat k :: u32) = k" using k by (intro unat_of_nat_u32) simp
  then have "standing_by (- {MAXCOMPLETE}) s1"
    using s1(2) k(1) by (auto simp: standing_by_def chained_def word_unat_eq_iff)
  then have "heap_use (Release ?p) (s1, [?p \<mapsto> big]) (s2, [?p \<mapsto> big](?p := None))"
    using s2(1) by (intro heap_use.release) simp_all
  then have "heap_reach (s2, Map.empty)" using heap_reach.step [OF r1] by simp
  then show ?case using s2(2,3) by blast
qed

section \<open>The sixth release\<close>

lemma client_tag: "client A s \<Longrightarrow> p \<in> dom A \<Longrightarrow> heap_lock s = 0 \<and> p \<noteq> 0 \<and> tag_get Magic (p - 32) s = LIBALLOC_MAGIC"
proof -
  assume c: "client A s" and p: "p \<in> dom A"
  obtain n where n: "A p = Some n" using p by auto
  obtain lo T where T: "client_of lo T A s" using c by (auto simp: client_def)
  note b = client_block [OF T n]
  have "heap_inv T (view s) (l_freePages s)"
    using T client_initialized [OF c n] by (simp add: client_of_def kheap_def heap_ok_def)
  then have "view s Magic (p - 32) = LIBALLOC_MAGIC"
    using b(2) chunksD(4) [OF heap_inv_parts(1)] by (simp add: allocated_def)
  then show ?thesis using b(1) T by (simp add: view_def client_of_def kheap_def)
qed

text \<open>
  C21. Releasing a block that has its region to itself, while five regions of its class stand by,
  returns, but the region is lost: the heap's lists, counters and break are as before, and the
  processor can no longer reach the pages of the region, nor the pages that it shares with the
  regions next to it, which blocks of other clients may use.
\<close>

theorem kfree_sixth_unmaps:
  assumes "client A s" "p \<in> dom A" "tag_get Split_left (p - 32) s = 0" "tag_get Split_right (p - 32) s = 0"
    "tag_get Real_size (p - 32) s = pages * 0x1000" "16 \<le> pages" "unat (p - 32) + unat pages * 4096 < 4194304"
    "l_completePages s (list_of (pages * 0x1000)) = MAXCOMPLETE"
    "identity_map (kernel_dir s) table (mem s)" "tables_apart (kernel_dir s) table s"
  shows "\<exists>m. kfree p s = Some (s\<lparr>mem := m\<rparr>) \<and> same_outside (unmap_region table s) (mem s) m
    \<and> mmu_walk m (physical_slot (kernel_dir s) 0)
        = (\<lambda>v. if unmapped_by (p - 32) pages v \<or> 0x400000 \<le> v then None else Some v)"
proof -
  have t: "heap_lock s = 0" "p \<noteq> 0" "tag_get Magic (p - 32) s = LIBALLOC_MAGIC"
    using client_tag [OF assms(1,2)] by simp_all
  let ?s = "s\<lparr>heap_lock := 1\<rparr>"
  have small: "unat pages * 4096 < 4194304" using assms(7) by simp
  have locked: "identity_map (kernel_dir ?s) table (mem ?s)" "tables_apart (kernel_dir ?s) table ?s"
    "unmap_region table ?s = unmap_region table s"
    using assms(9,10) by (simp_all add: tables_apart_def stray_words_def unmap_region_def [abs_def])
  obtain m where m: "liballoc_free (p - 32) pages ?s = Some (1, ?s\<lparr>mem := m\<rparr>)"
    "same_outside (unmap_region table ?s) (mem ?s) m"
    "mmu_walk m (physical_slot (kernel_dir ?s) 0) = (\<lambda>v. if unmapped_by (p - 32) pages v \<or> 0x400000 \<le> v then None else Some v)"
    using liballoc_free_effect [OF locked(1,2) assms(7)] by blast
  have "liballoc_unlock (?s\<lparr>mem := m\<rparr>) = s\<lparr>mem := m\<rparr>"
    using t(1) by (simp add: liballoc_unlock_def spin_unlock_def)
  then have "kfree p s = Some (s\<lparr>mem := m\<rparr>)"
    unfolding kfree_whole [OF t assms(3-6) small assms(8)] using m(1) by simp
  then show ?thesis using m(2,3) locked(3) by auto
qed

text \<open>The sixth round of the client above.\<close>

theorem kfree_sixth_unmaps_witness:
  "\<exists>s s'. heap_reach (s :: liballoc, [0x188420 \<mapsto> big]) \<and> kfree 0x188420 s = Some s'
    \<and> mmu_walk (mem s') 0x136000 0x188000 = None \<and> mmu_walk (mem s') 0x136000 0x198FFF = None
    \<and> mmu_walk (mem s') 0x136000 0x199000 = Some 0x199000"
proof -
  obtain s where s: "heap_reach (s :: liballoc, Map.empty)" "chained 5 s" "heap_cur s = region_tag 5"
    using chained_rounds [of 5] by auto
  have t5: "region_tag 5 = 0x188400" by (simp add: region_tag_def)
  obtain s1 where s1: "kmalloc big s = Some (0x188420, s1)" "chained 5 s1"
    "\<And>f. tag_get f 0x188400 s1 = (case f of Magic \<Rightarrow> LIBALLOC_MAGIC | Size \<Rightarrow> big
         | Real_size \<Rightarrow> 65536 | Index \<Rightarrow> - 1 | _ \<Rightarrow> 0)"
    using chained_kmalloc [OF s(2,3)] unfolding t5 by auto
  have "heap_use (Request big 0x188420) (s, Map.empty) (s1, [0x188420 \<mapsto> big])"
    using chained_fits [OF s(2,3)] s1(1) by (intro heap_use.request) simp_all
  then have r: "heap_reach (s1, [0x188420 \<mapsto> big])" by (rule heap_reach.step [OF s(1)])
  have c: "kernel_dir s1 = 0x135000" "identity_map (kernel_dir s1) 0x137000 (mem s1)" "l_completePages s1 15 = 5"
    using s1(2) by (simp_all add: chained_def)
  have slot: "physical_slot (kernel_dir s1) 0 = 0x136000" by (simp add: c(1) physical_slot_def)
  have ap: "tables_apart (kernel_dir s1) 0x137000 s1"
    using s1(2) by (simp add: chained_def tables_apart_def stray_words_def stray_offset_def apart_def)
  have "\<exists>m. kfree 0x188420 s1 = Some (s1\<lparr>mem := m\<rparr>) \<and> same_outside (unmap_region 0x137000 s1) (mem s1) m
    \<and> mmu_walk m (physical_slot (kernel_dir s1) 0)
        = (\<lambda>v. if unmapped_by (0x188420 - 32) 16 v \<or> 0x400000 \<le> v then None else Some v)"
    by (rule kfree_sixth_unmaps [OF client_reach [OF r] _ _ _ _ _ _ _ c(2) ap])
      (simp_all add: s1(3) c(3) getexp_big)
  then show ?thesis using r unfolding slot by (auto simp: unmapped_by_def)
qed

end
