(* ===== verification/Heap_Full.thy ===== *)
theory Heap_Full
  imports Heap_Regions
begin

text \<open>
  The heap at its end: what \<^verbatim>\<open>malloc\<close>, \<^verbatim>\<open>calloc\<close> and \<^verbatim>\<open>realloc\<close> (\<^verbatim>\<open>liballoc.c\<close> on the hooks of \<^verbatim>\<open>rise.c\<close>)
  do when neither a list nor the rest of the heap can serve a request, and that every call that a
  client may make has a result.

  \<^verbatim>\<open>malloc\<close> refuses cleanly.  The other two do not look at its answer: they write to the address
  zero, which the identity map makes writable memory.
\<close>

section \<open>The state behind the clients' view\<close>

text \<open>The variables that the clients' view of the heap rests on, beside the memory.\<close>

definition heap_vars where
  "heap_vars s = (heap_cur s, heap_end s, heap_lock s, kernel_dir s, l_initialized s, l_freePages s)"

lemma client_vars:
  "heap_vars s' = heap_vars s \<Longrightarrow> mem s' = mem s \<Longrightarrow> client_of lo T A s' = client_of lo T A s"
  by (simp add: heap_vars_def client_of_def kheap_def heap_ok_def mapped_below_def view_def [abs_def] tag_get_def)

lemma contents_vars: "mem s' = mem s \<Longrightarrow> contents A s' = contents A s"
  by (simp add: contents_def fun_eq_iff)

section \<open>Writes at the bottom of memory\<close>

text \<open>The bytes in front of the page directory and table, which lie below the heap.\<close>

lemma client_low_write:
  assumes T: "client_of lo T A s" and i: "identity_map (kernel_dir s) table (mem s)"
    and k: "k \<le> unat (kernel_dir s)" "k \<le> unat table"
    and m: "same_outside (\<lambda>x. unat x < k) (mem s) m"
  shows "client_of lo T A (s\<lparr>mem := m\<rparr>)" "same_blocks A s (s\<lparr>mem := m\<rparr>)"
    "identity_map (kernel_dir s) table m"
proof -
  have kh: "kheap lo T s" using T by (simp add: client_of_def)
  then have low: "mapped_below lo s" by (simp add: kheap_def)
  have lo: "k \<le> lo" using k(1) low by (auto simp: mapped_below_def)
  have tag: "\<not> tag_region T x" if "unat x < k" for x :: u32
    using that lo tag_region_above [OF kh, of x] by auto
  have table': "identity_map (kernel_dir s) table' m" if t: "identity_map (kernel_dir s) table' (mem s)" for table'
  proof -
    have e: "table' = table" using t i by (simp add: identity_map_def)
    have t4: "unat table \<le> 4294963200"
    proof -
      have "table AND 0xFFFFF000 = table" using i by (intro aligned_mask) (simp add: identity_map_def)
      then show ?thesis using word_and_le1 [of table "0xFFFFF000"] by (simp add: word_le_nat_alt)
    qed
    have d4: "unat (kernel_dir s) + 8192 \<le> 4294967296"
      using low unat_u32_lt [of "heap_cur s"] by (auto simp: mapped_below_def)
    show ?thesis unfolding e
      by (rule identity_map_kept [OF i m]) (use k t4 d4 in \<open>auto simp: in_region_ordered\<close>)
  qed
  then show "identity_map (kernel_dir s) table m" using i by blast
  have "mapped_below lo (s\<lparr>mem := m\<rparr>)" using low table' by (auto simp: mapped_below_def)
  then show "client_of lo T A (s\<lparr>mem := m\<rparr>)" using client_of_outside [OF T m tag] by blast
  show "same_blocks A s (s\<lparr>mem := m\<rparr>)"
    unfolding same_blocks_def
  proof (intro allI impI)
    fix p n and x :: u32
    assume p: "A p = Some n" "unat x \<in> block_bytes p n"
    have "p - 32 \<in> T" using client_block(2) [OF T p(1)] by (simp add: allocated_def)
    then have "lo \<le> unat (p - 32)" using kh by (simp add: kheap_def tags_above_def)
    then have "lo \<le> unat x" using p(2) client_block(3) [OF T p(1)] by (simp add: block_bytes_def)
    then show "mem (s\<lparr>mem := m\<rparr>) x = mem s x" using m lo by (simp add: same_outside_def)
  qed
qed

text \<open>A page directory of zeros maps nothing.\<close>

lemma mmu_walk_blank:
  assumes "dir AND 0xFFF = 0" "\<And>j. j < 8192 \<Longrightarrow> m (dir + of_nat j) = 0"
  shows "mmu_walk m (physical_slot dir 0) v = None"
proof -
  let ?k = "PAGEDIR_INDEX v"
  have "load32 m (dir + of_nat (4096 + unat ?k * 4)) = 0"
  proof -
    have "m (dir + of_nat (4096 + unat ?k * 4) + of_nat i) = 0" if "i < 4" for i
      using assms(2) [of "4096 + unat ?k * 4 + i"] that page_index_word(2) [of v]
      by (simp add: word_less_nat_alt add.assoc)
    from this [of 0] this [of 1] this [of 2] this [of 3] show ?thesis by (simp add: load32_def)
  qed
  then have "load32 m (physical_slot dir ?k) = 0" by (simp only: physical_slot_nat)
  then show ?thesis using assms(1) by (simp add: mmu_walk_def physical_slot_walk)
qed

text \<open>The heap after boot is at its end for a request of four megabytes.\<close>

lemma boot_heap_live: "tx_live boot_heap"
  using paging_init_result [OF boot_vmm_live]
  by (auto simp: boot_heap_def paged_rise_def rise.defs vmm.defs tx_live_def tx_ready_def)

lemma boot_heap_full: "heap_full 0x400000 boot_heap"
proof -
  have p: "pages_for 0x400000 = 1025" by (simp add: pages_for_def Let_def)
  show ?thesis using boot_heap_start boot_heap_live by (simp add: heap_full_def pages_full_def served_def p)
qed

section \<open>Every call has a result\<close>

text \<open>
  The calls that a client may make in a state, whatever they return, and calls that differ in the
  pointer they return alone.
\<close>

abbreviation granted :: "u32 \<Rightarrow> 'a liballoc_scheme \<Rightarrow> bool" where
  "granted n s \<equiv> heap_fits n s \<or> served n s"

fun callable :: "heap_op \<Rightarrow> 'a liballoc_scheme \<Rightarrow> (u32 \<rightharpoonup> u32) \<Rightarrow> bool" where
  "callable (Request n _) s A \<longleftrightarrow> unat n \<le> 4294900000 \<and> (granted n s \<or> heap_full n s)"
| "callable (Zeroed k n _) s A \<longleftrightarrow> unat k * unat n \<le> 4294900000 \<and> granted (k * n) s"
| "callable (Resize p n _) s A \<longleftrightarrow> (p = 0 \<or> p \<in> dom A) \<and> standing_by (- {MAXCOMPLETE, MAXCOMPLETE + 1}) s
     \<and> (n = 0 \<or> unat n \<le> 4294900000 \<and> granted n s)"
| "callable (Release p) s A \<longleftrightarrow> (p = 0 \<or> p \<in> dom A) \<and> standing_by (- {MAXCOMPLETE}) s"
| "callable (Write p i _) s A \<longleftrightarrow> (\<exists>n. A p = Some n \<and> i < n)"

fun same_call :: "heap_op \<Rightarrow> heap_op \<Rightarrow> bool" where
  "same_call (Request n _) (Request n' _) \<longleftrightarrow> n = n'"
| "same_call (Zeroed k n _) (Zeroed k' n' _) \<longleftrightarrow> k = k' \<and> n = n'"
| "same_call (Resize p n _) (Resize p' n' _) \<longleftrightarrow> p = p' \<and> n = n'"
| "same_call op op' \<longleftrightarrow> op = op'"

lemma kfree_returns:
  assumes "client A s" "p = 0 \<or> p \<in> dom A" "standing_by (- {MAXCOMPLETE}) s"
  shows "\<exists>s'. kfree p s = Some s'"
proof (cases "p = 0")
  case False
  have cnt: "l_completePages s i \<noteq> MAXCOMPLETE" for i using assms(3) by (auto simp: standing_by_def)
  show ?thesis using client_kfree [OF assms(1) _ cnt] assms(2) False by blast
qed (simp add: kfree_def free_def)

lemma callable_steps:
  assumes c: "client A s" and op: "callable op s A"
  shows "\<exists>op' t. same_call op op' \<and> heap_use op' (s, A) t"
proof (cases op)
  case (Request n q)
  then have n: "unat n \<le> 4294900000" "granted n s \<or> heap_full n s" using op by simp_all
  show ?thesis
    using n(2)
  proof
    assume g: "granted n s"
    obtain p s' where "kmalloc n s = Some (p, s')" using client_kmalloc [OF c g n(1)] by blast
    then have "heap_use (Request n p) (s, A) (s', A(p \<mapsto> n))" by (rule heap_use.request [OF g n(1)])
    then show ?thesis unfolding Request by (intro exI [of _ "Request n p"]) auto
  next
    assume f: "heap_full n s"
    obtain lo T where T: "client_of lo T A s" using c by (auto simp: client_def)
    obtain s' where "kmalloc n s = Some (0, s')" using client_refused [OF T f] by blast
    then have "heap_use (Request n 0) (s, A) (s', A)" by (rule heap_use.refuse [OF f])
    then show ?thesis unfolding Request by (intro exI [of _ "Request n 0"]) auto
  qed
next
  case (Zeroed k n q)
  then have z: "unat k * unat n \<le> 4294900000" "granted (k * n) s" using op by simp_all
  have "unat (k * n) = unat k * unat n" using z(1) by (intro unat_mult_u32) simp
  then obtain p s' where "kcalloc k n s = Some (p, s')" using client_kcalloc [OF c z(2)] z(1) by auto
  then have "heap_use (Zeroed k n p) (s, A) (s', A(p \<mapsto> k * n))" using z by (intro heap_use.zeroed)
  then show ?thesis unfolding Zeroed by (intro exI [of _ "Zeroed k n p"]) auto
next
  case (Resize p n q)
  then have z: "p = 0 \<or> p \<in> dom A" "standing_by (- {MAXCOMPLETE, MAXCOMPLETE + 1}) s"
    "n = 0 \<or> unat n \<le> 4294900000 \<and> granted n s" using op by simp_all
  have b: "standing_by (- {MAXCOMPLETE}) s" using z(2) by (auto simp: standing_by_def)
  have cnt: "l_completePages s i \<notin> {MAXCOMPLETE, MAXCOMPLETE + 1}" for i using z(2) by (auto simp: standing_by_def)
  consider "n = 0" | "n \<noteq> 0" "p = 0" | "n \<noteq> 0" "p \<in> dom A" using z(1) by blast
  then show ?thesis
  proof cases
    case 1
    obtain s' where "kfree p s = Some s'" using kfree_returns [OF c z(1) b] by blast
    then have "krealloc p 0 s = Some (0, s')" by (simp add: krealloc_def realloc_def kfree_def)
    then have "heap_use (Resize p 0 0) (s, A) (s', A(p := None))" by (rule heap_use.resize_away [OF z(1) b])
    then show ?thesis unfolding Resize 1 by (intro exI [of _ "Resize p 0 0"]) auto
  next
    case 2
    obtain r s' where "kmalloc n s = Some (r, s')" using client_kmalloc [OF c] z(3) 2 by blast
    then have "krealloc 0 n s = Some (r, s')" using 2 by (simp add: krealloc_def realloc_def kmalloc_def)
    then have "heap_use (Resize 0 n r) (s, A) (s', A(r \<mapsto> n))" using z(3) 2 by (intro heap_use.resize_null) simp_all
    then show ?thesis unfolding Resize 2 by (intro exI [of _ "Resize 0 n r"]) auto
  next
    case 3
    obtain r s' where "krealloc p n s = Some (r, s')" using client_krealloc [OF c _ 3(1) _ _ cnt] z(3) 3 by blast
    then have "heap_use (Resize p n r) (s, A) (s', (A(r \<mapsto> n))(p := None))"
      using z(2,3) 3 by (intro heap_use.resize) simp_all
    then show ?thesis unfolding Resize by (intro exI [of _ "Resize p n r"]) auto
  qed
next
  case (Release p)
  then have z: "p = 0 \<or> p \<in> dom A" "standing_by (- {MAXCOMPLETE}) s" using op by simp_all
  then obtain s' where "kfree p s = Some s'" using kfree_returns [OF c] by blast
  then have "heap_use (Release p) (s, A) (s', A(p := None))" by (rule heap_use.release [OF z])
  then show ?thesis unfolding Release by (intro exI [of _ "Release p"]) auto
next
  case (Write p i v)
  then obtain n where "A p = Some n" "i < n" using op by auto
  then have "heap_use (Write p i v) (s, A) (s\<lparr>mem := (mem s)(p + i := v)\<rparr>, A)" by (rule heap_use.store)
  then show ?thesis unfolding Write by (intro exI [of _ "Write p i v"]) auto
qed

section \<open>Properties\<close>



text \<open>
  C26. \<^verbatim>\<open>calloc\<close> does not look at the pointer that \<^verbatim>\<open>malloc\<close> gave it: a refused request returns null
  after clearing memory from the address zero on, over the length of the request.  When that
  reaches the end of the page directory, the processor can translate no address any more.
\<close>

theorem kcalloc_clears_low_memory:
  assumes "client A s" "heap_full (k * n) s"
  shows "\<exists>s'. kcalloc k n s = Some (0, s') \<and> (\<forall>x. mem s' x = (if x < k * n then 0 else mem s x))
    \<and> (unat (kernel_dir s) + 8192 \<le> unat (k * n)
         \<longrightarrow> mmu_walk (mem s') (physical_slot (kernel_dir s) 0) = (\<lambda>_. None))"
proof -
  obtain lo T where T: "client_of lo T A s" using assms(1) by (auto simp: client_def)
  obtain s1 where s1: "kmalloc (k * n) s = Some (0, s1)" "mem s1 = mem s"
    using client_refused [OF T assms(2)] by blast
  let ?m = "filled 0 (unat (k * n)) 0 (mem s)"
  have "liballoc_memset 0 0 (k * n) (mem s) = ?m" unfolding liballoc_memset_def using for_loop_fill [of "k * n" 0 0 "mem s"] by simp
  then have "kcalloc k n s = Some (0, s1\<lparr>mem := ?m\<rparr>)"
    using s1 by (simp add: kcalloc_def calloc_def kmalloc_def)
  moreover have m: "?m x = (if x < k * n then 0 else mem s x)" for x
    by (simp add: filled_def in_region_def word_less_nat_alt)
  moreover have "mmu_walk ?m (physical_slot (kernel_dir s) 0) v = None" if "unat (kernel_dir s) + 8192 \<le> unat (k * n)" for v
  proof (rule mmu_walk_blank)
    show "kernel_dir s AND 0xFFF = 0"
      using T by (auto simp: client_of_def kheap_def mapped_below_def identity_map_def)
    fix j :: nat
    assume "j < 8192"
    then have "unat (kernel_dir s + of_nat j) = unat (kernel_dir s) + j"
      using that unat_u32_lt [of "k * n"] by (intro unat_add_of_nat_u32) simp
    then show "?m (kernel_dir s + of_nat j) = 0" unfolding m using that \<open>j < 8192\<close> by (simp add: word_less_nat_alt)
  qed
  ultimately show ?thesis by (intro exI [of _ "s1\<lparr>mem := ?m\<rparr>"]) auto
qed

theorem kcalloc_clears_low_memory_witness:
  "\<exists>s'. kcalloc 1024 4096 boot_heap = Some (0, s') \<and> mem s' 0 = 0 \<and> mmu_walk (mem s') 0x136000 0x100000 = None"
proof -
  have f: "heap_full (1024 * 4096) boot_heap" using boot_heap_full by simp
  have d: "kernel_dir boot_heap = 0x135000" using paged_rise_map(1) by (simp add: boot_heap_def rise.defs)
  have "physical_slot (kernel_dir boot_heap) 0 = 0x136000" unfolding d by (simp add: physical_slot_def)
  then show ?thesis
    using kcalloc_clears_low_memory [OF client_reach [OF boot_heap_start(1)] f] d by fastforce
qed

text \<open>
  C25. Nor does \<^verbatim>\<open>realloc\<close>: a refused request copies the block to the address zero, releases it and
  returns null, so that its owner loses it, although a failed \<^verbatim>\<open>realloc\<close> has to leave it alone.  Other
  blocks keep their contents as long as the copy ends below the page tables.
\<close>

theorem krealloc_loses_block:
  assumes "client A s" "A p = Some old" "n \<noteq> 0" "heap_full n s" "standing_by (- {MAXCOMPLETE}) s"
    "identity_map (kernel_dir s) table (mem s)" "min (unat old) (unat n) \<le> min (unat (kernel_dir s)) (unat table)"
  shows "\<exists>s'. krealloc p n s = Some (0, s') \<and> client (A(p := None)) s'
    \<and> contents (A(p := None)) s' = (contents A s)(p := None)
    \<and> (\<forall>i < min (unat old) (unat n). mem s' (of_nat i) = mem s (p + of_nat i))"
proof -
  obtain lo T where T: "client_of lo T A s" using assms(1) by (auto simp: client_def)
  note b = client_block [OF T assms(2)]
  have kh: "kheap lo T s" using T by (simp add: client_of_def)
  have lock0: "heap_lock s = 0" using kh by (simp add: kheap_def)
  then have unlocked: "s\<lparr>heap_lock := 0\<rparr> = s" by simp
  have "view s Size (p - 32) = old" using T assms(2) by (simp add: client_of_def)
  then have size: "load32 (mem s) (p - 28) = old" by (simp add: view_def tag_get_def)
  obtain s1 where s1: "kmalloc n s = Some (0, s1)" "client_of lo T A s1" "mem s1 = mem s" "kernel_dir s1 = kernel_dir s"
    "l_completePages s1 = l_completePages s"
    using client_refused [OF T assms(4)] client_initialized [OF assms(1,2)] by auto
  define k where "k = (if old > n then n else old)"
  have k: "unat k = min (unat old) (unat n)" by (auto simp: k_def word_less_nat_alt)
  have low: "unat k \<le> unat (kernel_dir s)" "unat k \<le> unat table" using assms(7) k by simp_all
  have "p - 32 \<in> T" using b(2) by (simp add: allocated_def)
  then have lo: "lo \<le> unat p" "unat k \<le> lo"
    using kh b(3) low(1) by (force simp: kheap_def tags_above_def mapped_below_def)+
  have ap: "apart 0 (unat k) p (unat k)"
  proof (cases "unat k = 0")
    case False
    then show ?thesis using lo b(5) k unat_u32_lt [of "heap_cur s"] by (intro apart_ordered) auto
  qed (simp add: apart_def)
  let ?m = "copied 0 p (unat k) (mem s)" and ?s2 = "s1\<lparr>mem := copied 0 p (unat k) (mem s)\<rparr>"
  have out: "same_outside (\<lambda>x. unat x < unat k) (mem s1) ?m"
    using same_outside_copied [of 0 "unat k" "mem s" p] by (simp add: s1(3) in_region_def [abs_def])
  have i1: "identity_map (kernel_dir s1) table (mem s1)" "unat k \<le> unat (kernel_dir s1)"
    using assms(6) low s1(3,4) by simp_all
  have w: "client_of lo T A ?s2" "same_blocks A s1 ?s2"
    using client_low_write [OF s1(2) i1 low(2) out] by simp_all
  have cnt: "l_completePages ?s2 i \<noteq> MAXCOMPLETE" for i
    using assms(5) s1(5) by (auto simp: standing_by_def)
  obtain s3 where s3: "kfree p ?s2 = Some s3" "client (A(p := None)) s3" "same_blocks A ?s2 s3"
    "same_outside (tag_region T) (mem ?s2) (mem s3)"
    using client_of_kfree [OF w(1) _ cnt] assms(2) by blast
  have cp: "n < old \<Longrightarrow> liballoc_memcpy 0 p n (mem s) = ?m" "\<not> n < old \<Longrightarrow> liballoc_memcpy 0 p old (mem s) = ?m"
    using liballoc_memcpy_copied [OF ap] by (simp_all add: k_def)
  have "krealloc p n s = Some (0, s3)"
    using b(1) assms(3) lock0 s1(1,3) s3(1)
    by (simp add: krealloc_def realloc_def liballoc_lock_eq liballoc_unlock_def spin_unlock_def unlocked tag_get_def
        Let_def size kmalloc_def kfree_def cp)
  moreover have "same_blocks A s s3"
    using same_blocks_trans [OF w(2) s3(3)] s1(3) by (simp add: same_blocks_def)
  then have "contents (A(p := None)) s3 = (contents A s)(p := None)"
    by (simp add: contents_remove contents_same [OF assms(1)])
  moreover have "mem s3 (of_nat i) = mem s (p + of_nat i)" if "i < min (unat old) (unat n)" for i
  proof -
    have i: "i < unat k" "i < 4294967296" using that k unat_u32_lt [of old] by simp_all
    then have u: "unat (of_nat i :: u32) = i" by (simp add: unat_of_nat_u32)
    have "\<not> tag_region T (of_nat i)" using tag_region_above [OF kh, of "of_nat i"] lo(2) i u by auto
    then have "mem s3 (of_nat i) = ?m (of_nat i)" using s3(4) by (simp add: same_outside_def)
    also have "\<dots> = mem s (p + of_nat i)" using copied_byte [of i "unat k" 0 p "mem s"] i(1) unat_u32_lt [of k] by simp
    finally show ?thesis .
  qed
  ultimately show ?thesis using s3(2) by blast
qed

theorem krealloc_loses_block_witness:
  "\<exists>s s'. heap_reach (s :: liballoc, [0x138420 \<mapsto> big]) \<and> krealloc 0x138420 0x400000 s = Some (0, s') \<and> client Map.empty s'
    \<and> mem s' 7 = mem s 0x138427"
proof -
  have c: "chained 0 boot_heap" "heap_cur boot_heap = region_tag 0" using boot_heap_chained boot_heap_start(2) by (simp_all add: region_tag_def)
  have t: "heap_cur boot_heap = 0x138400" "region_tag (Suc 0) = 0x148400" using boot_heap_start(2) by (simp_all add: region_tag_def)
  obtain s where s: "kmalloc big boot_heap = Some (0x138420, s)" "chained 0 s" "heap_cur s = 0x148400"
    "l_initialized s \<noteq> 0" "l_freePages s = (\<lambda>_. 0)" "port_env s = port_env boot_heap"
  proof -
    have r: "page_room 16 boot_heap" using paged_rise_room(1)
      by (simp add: boot_heap_def page_room_def low_heap_def rise.defs)
    have e: "no_lists boot_heap" by (simp add: no_lists_def boot_heap_start)
    then have "find_tag big (l_freePages (fresh_heap boot_heap) 15) (fresh_heap boot_heap) = Some 0" by (simp add: find_tag_empty)
    from kmalloc_region [OF boot_heap_start(4) this r] obtain m where
      m: "kmalloc big boot_heap = Some (0x138420, (fresh_heap boot_heap)\<lparr>heap_cur := 0x148400, mem := m, heap_lock := 0\<rparr>)"
      using t by auto
    from chained_kmalloc [OF c] show thesis
      using m e t that by auto
  qed
  have "heap_use (Request big 0x138420) (boot_heap, Map.empty) (s, [0x138420 \<mapsto> big])"
    using chained_fits [OF c] s(1) by (intro heap_use.request) simp_all
  then have r: "heap_reach (s, [0x138420 \<mapsto> big])" by (rule heap_reach.step [OF boot_heap_start(1)])
  have f: "heap_full 0x400000 s"
  proof -
    have p: "pages_for 0x400000 = 1025" by (simp add: pages_for_def Let_def)
    have "tx_live s" using boot_heap_full s(6) by (simp add: heap_full_def pages_full_def tx_live_def tx_ready_def)
    moreover have "heap_end s = 0x538400" using s(2) by (simp add: chained_def)
    ultimately show ?thesis using s(3,5) by (simp add: heap_full_def pages_full_def served_def p find_tag_empty)
  qed
  have d: "kernel_dir s = 0x135000" "identity_map (kernel_dir s) 0x137000 (mem s)" "standing_by (- {MAXCOMPLETE}) s"
    using s(2) by (simp_all add: chained_def standing_by_def)
  have "\<exists>s'. krealloc 0x138420 0x400000 s = Some (0, s') \<and> client ([0x138420 \<mapsto> big](0x138420 := None)) s'
    \<and> contents ([0x138420 \<mapsto> big](0x138420 := None)) s' = (contents [0x138420 \<mapsto> big] s)(0x138420 := None)
    \<and> (\<forall>i < min (unat big) (unat (0x400000 :: u32)). mem s' (of_nat i) = mem s (0x138420 + of_nat i))"
    by (rule krealloc_loses_block [OF client_reach [OF r] _ _ f d(3,2)]) (simp_all add: d(1))
  then obtain s' where s': "krealloc 0x138420 0x400000 s = Some (0, s')" "client Map.empty s'"
    "\<forall>i < 65480. mem s' (of_nat i) = mem s (0x138420 + of_nat i)" by auto
  have "mem s' 7 = mem s 0x138427" using s'(3) [THEN spec, of 7] by simp
  then show ?thesis using r s'(1,2) by blast
qed

text \<open>
  C7. No client gets stuck: in every state that clients can reach, each call that they may make
  there, on a pointer they hold or null, returns, and leaves a state that clients can reach.
\<close>

theorem heap_progress:
  assumes "heap_reach (s, A)" "callable op s A"
  shows "\<exists>op' s' A'. same_call op op' \<and> heap_use op' (s, A) (s', A') \<and> heap_reach (s', A')"
proof -
  obtain op' t where t: "same_call op op'" "heap_use op' (s, A) t"
    using callable_steps [OF client_reach [OF assms(1)] assms(2)] by blast
  then show ?thesis using heap_reach.step [OF assms(1) t(2)] by (cases t) blast
qed

theorem heap_progress_witness:
  "\<exists>p s' A'. heap_use (Request 10 p) (boot_heap, Map.empty) (s', A') \<and> heap_reach (s', A')"
proof -
  have "callable (Request 10 0) boot_heap Map.empty"
    by (simp add: heap_fits_def boot_heap_start pages_for_small)
  from heap_progress [OF boot_heap_start(1) this] obtain op' s' A' where
    r: "same_call (Request 10 0) op'" "heap_use op' (boot_heap, Map.empty) (s', A')" "heap_reach (s', A')" by blast
  then show ?thesis by (cases op') auto
qed

end
