(* ===== verification/Entry.thy ===== *)
theory Entry
  imports Interrupts
begin

text \<open>
  The way into the interrupt handlers and out again: the stubs of \<^verbatim>\<open>arch/i386/boot.S\<close> around
  \<^verbatim>\<open>fault_handler\<close> and \<^verbatim>\<open>irq_handler\<close>, with the frame that they build on the stack and that C reads
  as \<^verbatim>\<open>struct regs\<close>.

  An instruction is a function on the registers and the memory.  Three things are parameters.
  \<open>hi\<close> is the word that the processor stores when it pushes a segment register: only its lower half
  is documented to be the selector.  \<open>frame\<close> is what the compiled handler does beside its C code:
  it uses the stack below the frame and may change the registers that a caller has to save, as
  the calling convention allows (\<open>cdecl\<close>).  \<open>run\<close> is the effect of a called routine, as in theory
  \<open>Interrupts\<close>.

  The stubs write \<^verbatim>\<open>push 32\<close> where they mean \<^verbatim>\<open>push $32\<close>.  Without the dollar sign the operand is the word of
  memory at the address 32, and that is what the model pushes.
\<close>

record cpu =
  eax :: u32  ecx :: u32  edx :: u32  ebx :: u32
  esp :: u32  ebp :: u32  esi :: u32  edi :: u32
  eip :: u32  eflags :: u32
  cs :: u16  ds :: u16  es :: u16  fs :: u16  gs :: u16

section \<open>Instructions\<close>

definition push :: "u32 \<Rightarrow> cpu \<times> 'a machine_scheme \<Rightarrow> cpu \<times> 'a machine_scheme" where
  "push v = (\<lambda>(c, s). (c\<lparr>esp := esp c - 4\<rparr>, s\<lparr>mem := store32 (mem s) (esp c - 4) v\<rparr>))"

text \<open>The word on top of the stack, and the stack without it.\<close>

abbreviation top :: "cpu \<times> 'a machine_scheme \<Rightarrow> u32" where
  "top x \<equiv> load32 (mem (snd x)) (esp (fst x))"

abbreviation drop_words :: "u32 \<Rightarrow> cpu \<Rightarrow> cpu" where
  "drop_words n c \<equiv> c\<lparr>esp := esp c + 4 * n\<rparr>"

abbreviation word_at :: "u32 \<Rightarrow> cpu \<times> 'a machine_scheme \<Rightarrow> u32" where
  "word_at a x \<equiv> load32 (mem (snd x)) a"

text \<open>A segment register is pushed over the word that is there.\<close>

definition push_seg :: "(u16 \<Rightarrow> u32 \<Rightarrow> u32) \<Rightarrow> u16 \<Rightarrow> cpu \<times> 'a machine_scheme \<Rightarrow> cpu \<times> 'a machine_scheme" where
  "push_seg hi x y = push (hi x (word_at (esp (fst y) - 4) y)) y"

definition pusha :: "cpu \<times> 'a machine_scheme \<Rightarrow> cpu \<times> 'a machine_scheme" where
  "pusha x = (let c = fst x
     in push (edi c) (push (esi c) (push (ebp c) (push (esp c)
          (push (ebx c) (push (edx c) (push (ecx c) (push (eax c) x))))))))"

text \<open>\<^verbatim>\<open>popa\<close> skips the saved stack pointer.\<close>

definition popa :: "cpu \<times> 'a machine_scheme \<Rightarrow> cpu \<times> 'a machine_scheme" where
  "popa = (\<lambda>(c, s). (let w = (\<lambda>k. load32 (mem s) (esp c + 4 * k))
     in (c\<lparr>edi := w 0, esi := w 1, ebp := w 2, ebx := w 4, edx := w 5, ecx := w 6, eax := w 7, esp := esp c + 32\<rparr>, s)))"

definition cli :: "cpu \<Rightarrow> cpu" where
  "cli c = c\<lparr>eflags := eflags c AND NOT 0x200\<rparr>"

text \<open>
  What the processor does before the first instruction of a stub, through an interrupt gate of the
  same privilege, and \<^verbatim>\<open>iret\<close>.
\<close>

definition interrupt :: "(u16 \<Rightarrow> u32 \<Rightarrow> u32) \<Rightarrow> cpu \<times> 'a machine_scheme \<Rightarrow> cpu \<times> 'a machine_scheme" where
  "interrupt hi x = (let c = fst x;
       (c', s) = push (eip c) (push_seg hi (cs c) (push (eflags c) x))
     in (cli (c'\<lparr>cs := 0x08\<rparr>), s))"

definition iret :: "cpu \<times> 'a machine_scheme \<Rightarrow> cpu \<times> 'a machine_scheme" where
  "iret = (\<lambda>(c, s). (let w = (\<lambda>k. load32 (mem s) (esp c + 4 * k))
     in (c\<lparr>eip := w 0, cs := ucast (w 1), eflags := w 2, esp := esp c + 12\<rparr>, s)))"

section \<open>The stubs\<close>

text \<open>The first half of the common stub, up to the call; it leaves the pointer to the frame on top.\<close>

definition save_state :: "(u16 \<Rightarrow> u32 \<Rightarrow> u32) \<Rightarrow> cpu \<times> 'a machine_scheme \<Rightarrow> cpu \<times> 'a machine_scheme" where
  "save_state hi x =
     (let x = pusha x;
          x = push_seg hi (ds (fst x)) x;
          x = push_seg hi (es (fst x)) x;
          x = push_seg hi (fs (fst x)) x;
          x = push_seg hi (gs (fst x)) x;
          (c, s) = x;
          c = c\<lparr>ds := 0x10, es := 0x10, fs := 0x10, gs := 0x10\<rparr>;
          c = c\<lparr>eax := esp c\<rparr>
      in push (eax c) (c, s))"

text \<open>The second half, from \<^verbatim>\<open>pop %eax\<close> to \<^verbatim>\<open>iret\<close>.\<close>

definition restore_state :: "cpu \<times> 'a machine_scheme \<Rightarrow> cpu \<times> 'a machine_scheme" where
  "restore_state x =
     (let (c, s) = x;
          c = drop_words 1 (c\<lparr>eax := top (c, s)\<rparr>);
          c = drop_words 1 (c\<lparr>gs := ucast (top (c, s))\<rparr>);
          c = drop_words 1 (c\<lparr>fs := ucast (top (c, s))\<rparr>);
          c = drop_words 1 (c\<lparr>es := ucast (top (c, s))\<rparr>);
          c = drop_words 1 (c\<lparr>ds := ucast (top (c, s))\<rparr>);
          (c, s) = popa (c, s)
      in iret (drop_words 2 c, s))"

text \<open>\<^verbatim>\<open>struct regs\<close> at an address.\<close>

definition load_regs :: "u32 \<Rightarrow> memory \<Rightarrow> regs" where
  "load_regs p m = \<lparr>r_gs = load32 m p, r_fs = load32 m (p + 4), r_es = load32 m (p + 8), r_ds = load32 m (p + 12),
     r_edi = load32 m (p + 16), r_esi = load32 m (p + 20), r_ebp = load32 m (p + 24), r_esp = load32 m (p + 28),
     r_ebx = load32 m (p + 32), r_edx = load32 m (p + 36), r_ecx = load32 m (p + 40), r_eax = load32 m (p + 44),
     int_no = load32 m (p + 48), err_code = load32 m (p + 52),
     r_eip = load32 m (p + 56), r_cs = load32 m (p + 60), r_eflags = load32 m (p + 64),
     r_useresp = load32 m (p + 68), r_ss = load32 m (p + 72)\<rparr>"

definition regs_words :: "regs \<Rightarrow> u32 list" where
  "regs_words r = [r_gs r, r_fs r, r_es r, r_ds r, r_edi r, r_esi r, r_ebp r, r_esp r, r_ebx r, r_edx r, r_ecx r,
     r_eax r, int_no r, err_code r, r_eip r, r_cs r, r_eflags r, r_useresp r, r_ss r]"

fun store_words :: "u32 \<Rightarrow> u32 list \<Rightarrow> memory \<Rightarrow> memory" where
  "store_words p [] m = m"
| "store_words p (w # ws) m = store_words (p + 4) ws (store32 m p w)"

text \<open>
  The stubs: \<^verbatim>\<open>cli\<close>, an error code, the number of the interrupt and the first half of the common
  stub.  For some exceptions the processor has pushed an error code already, and their stubs leave
  out the first push.
\<close>

definition numbered_stub :: "(u16 \<Rightarrow> u32 \<Rightarrow> u32) \<Rightarrow> u32 \<Rightarrow> cpu \<times> 'a machine_scheme \<Rightarrow> cpu \<times> 'a machine_scheme" where
  "numbered_stub hi n x =
     (let x = (cli (fst x), snd x);
          x = push (word_at 0 x) x;
          x = push (word_at n x) x
      in save_state hi x)"

definition error_code_stub :: "(u16 \<Rightarrow> u32 \<Rightarrow> u32) \<Rightarrow> u32 \<Rightarrow> cpu \<times> 'a machine_scheme \<Rightarrow> cpu \<times> 'a machine_scheme" where
  "error_code_stub hi n x =
     (let x = (cli (fst x), snd x);
          x = push (word_at n x) x
      in save_state hi x)"

text \<open>
  Hardware interrupts, \<^verbatim>\<open>irq0\<close> to \<^verbatim>\<open>irq15\<close> and \<^verbatim>\<open>irq_common_stub\<close>, and exceptions, \<^verbatim>\<open>isr0\<close> to \<^verbatim>\<open>isr31\<close>
  and \<^verbatim>\<open>isr_common_stub\<close>, from the first instruction of the stub to \<^verbatim>\<open>iret\<close>.
\<close>

definition irq_entry ::
  "(u16 \<Rightarrow> u32 \<Rightarrow> u32) \<Rightarrow> (cpu \<times> 'a irq_state_scheme \<Rightarrow> cpu \<times> 'a irq_state_scheme) \<Rightarrow>
   (u32 \<Rightarrow> regs \<Rightarrow> 'a irq_state_scheme \<Rightarrow> (regs \<times> 'a irq_state_scheme) option) \<Rightarrow>
   u32 \<Rightarrow> cpu \<times> 'a irq_state_scheme \<Rightarrow> (cpu \<times> 'a irq_state_scheme) option" where
  "irq_entry hi frame run line x =
     (let (c, s) = numbered_stub hi (32 + line) x;
          p = top (c, s)
      in do {
        (r, s) \<leftarrow> irq_handler run (load_regs p (mem s)) s;
        let s = s\<lparr>mem := store_words p (regs_words r) (mem s)\<rparr>;
        Some (restore_state (frame (c, s)))
      })"

definition has_error_code :: "u32 \<Rightarrow> bool" where
  "has_error_code n \<longleftrightarrow> n \<in> {8, 10, 11, 12, 13, 14}"

definition isr_entry ::
  "(u16 \<Rightarrow> u32 \<Rightarrow> u32) \<Rightarrow> (cpu \<times> 'a desc_scheme \<Rightarrow> cpu \<times> 'a desc_scheme) \<Rightarrow>
   u32 \<Rightarrow> cpu \<times> 'a desc_scheme \<Rightarrow> (cpu \<times> 'a desc_scheme) outcome option" where
  "isr_entry hi frame n x =
     (let (c, s) = (if has_error_code n then error_code_stub hi n x else numbered_stub hi n x);
          p = top (c, s)
      in do {
        result \<leftarrow> fault_handler (load_regs p (mem s)) s;
        Some (case result of Halts s \<Rightarrow> Halts (c, s) | Returns s \<Rightarrow> Returns (restore_state (frame (c, s))))
      })"

section \<open>The frame on the stack\<close>

fun push_words :: "u32 list \<Rightarrow> u32 \<Rightarrow> memory \<Rightarrow> memory" where
  "push_words [] sp m = m"
| "push_words (w # ws) sp m = push_words ws (sp - 4) (store32 m (sp - 4) w)"

lemma push_words_append:
  "push_words (ws @ vs) sp m = push_words vs (sp - of_nat (4 * length ws)) (push_words ws sp m)"
  by (induction ws arbitrary: sp m) (simp_all add: algebra_simps)

lemma push_words_outside:
  "4 * length ws \<le> 4294967296 \<Longrightarrow>
   same_outside (in_region (sp - of_nat (4 * length ws)) (4 * length ws)) m (push_words ws sp m)"
proof (induction ws arbitrary: sp m)
  case (Cons w ws)
  let ?n = "4 * length (w # ws)" and ?a = "sp - of_nat (4 * length (w # ws))"
  have a: "sp - 4 - of_nat (4 * length ws) = ?a" "sp - 4 = ?a + of_nat (4 * length ws)"
    by (simp_all add: algebra_simps)
  have "same_outside (in_region ?a ?n) m (store32 m (sp - 4) w)"
  proof (rule same_outside_store32)
    fix x
    assume "in_region (sp - 4) 4 x"
    then have "in_region (?a + of_nat (4 * length ws)) 4 x" by (simp only: a(2))
    then show "in_region ?a ?n x" by (rule in_region_part) (use Cons.prems in simp_all)
  qed
  moreover have "same_outside (in_region ?a ?n) (store32 m (sp - 4) w) (push_words ws (sp - 4) (store32 m (sp - 4) w))"
    by (rule same_outside_mono [OF Cons.IH]) (use Cons.prems in \<open>simp_all only: a(1), simp_all add: in_region_def\<close>)
  ultimately show ?case using same_outside_trans by simp
qed simp

lemma load_push_words:
  "i < length ws \<Longrightarrow> 4 * length ws \<le> 4294967296 \<Longrightarrow>
   load32 (push_words ws sp m) (sp - of_nat (4 * Suc i)) = ws ! i"
proof (induction ws arbitrary: sp m i)
  case (Cons w ws)
  show ?case
  proof (cases i)
    case 0
    have n: "4 * length ws \<le> 4294967296" using Cons.prems by simp
    have "load32 (push_words ws (sp - 4) (store32 m (sp - 4) w)) (sp - 4) = load32 (store32 m (sp - 4) w) (sp - 4)"
    proof (rule same_outside_load32 [OF push_words_outside [OF n]])
      fix j :: nat
      assume j: "j < 4"
      have "sp - 4 + of_nat j - (sp - 4 - of_nat (4 * length ws)) = (of_nat (4 * length ws + j) :: u32)"
        by (simp add: algebra_simps)
      moreover have "unat (of_nat (4 * length ws + j) :: u32) = 4 * length ws + j"
        using Cons.prems j by (intro unat_of_nat_u32) simp
      ultimately show "\<not> in_region (sp - 4 - of_nat (4 * length ws)) (4 * length ws) (sp - 4 + of_nat j)"
        unfolding in_region_def by (simp add: add.commute)
    qed
    then show ?thesis using 0 by simp
  next
    case (Suc k)
    then have "load32 (push_words ws (sp - 4) (store32 m (sp - 4) w)) (sp - 4 - of_nat (4 * Suc k)) = ws ! k"
      using Cons.prems by (intro Cons.IH) simp_all
    then show ?thesis using Suc by (simp add: algebra_simps)
  qed
qed simp

text \<open>Only the lower half of the word that a push of a segment register stores is documented.\<close>

definition seg_law :: "(u16 \<Rightarrow> u32 \<Rightarrow> u32) \<Rightarrow> bool" where
  "seg_law hi \<longleftrightarrow> (\<forall>x w. ucast (hi x w) = x)"

lemma interrupt_pushes:
  "seg_law hi \<Longrightarrow> \<exists>k. ucast k = cs c \<and> interrupt hi (c, s) =
     (cli (c\<lparr>cs := 0x08, esp := esp c - 12\<rparr>), s\<lparr>mem := push_words [eflags c, k, eip c] (esp c) (mem s)\<rparr>)"
  by (intro exI [of _ "hi (cs c) (load32 (store32 (mem s) (esp c - 4) (eflags c)) (esp c - 8))"])
    (simp add: seg_law_def interrupt_def push_def push_seg_def cli_def)

lemma save_state_pushes:
  assumes "seg_law hi"
  shows "\<exists>d e f g. ucast d = ds c \<and> ucast e = es c \<and> ucast f = fs c \<and> ucast g = gs c \<and>
    save_state hi (c, s) = (c\<lparr>ds := 0x10, es := 0x10, fs := 0x10, gs := 0x10, eax := esp c - 48, esp := esp c - 52\<rparr>,
      s\<lparr>mem := push_words [eax c, ecx c, edx c, ebx c, esp c, ebp c, esi c, edi c, d, e, f, g, esp c - 48] (esp c) (mem s)\<rparr>)"
proof -
  let ?m = "push_words [eax c, ecx c, edx c, ebx c, esp c, ebp c, esi c, edi c] (esp c) (mem s)"
  define d where "d = hi (ds c) (load32 ?m (esp c - 36))"
  define e where "e = hi (es c) (load32 (store32 ?m (esp c - 36) d) (esp c - 40))"
  define f where "f = hi (fs c) (load32 (store32 (store32 ?m (esp c - 36) d) (esp c - 40) e) (esp c - 44))"
  define g where "g = hi (gs c) (load32 (store32 (store32 (store32 ?m (esp c - 36) d) (esp c - 40) e) (esp c - 44) f) (esp c - 48))"
  have "ucast d = ds c" "ucast e = es c" "ucast f = fs c" "ucast g = gs c"
    using assms by (simp_all add: seg_law_def d_def e_def f_def g_def)
  moreover have "save_state hi (c, s) = (c\<lparr>ds := 0x10, es := 0x10, fs := 0x10, gs := 0x10, eax := esp c - 48, esp := esp c - 52\<rparr>,
      s\<lparr>mem := push_words [eax c, ecx c, edx c, ebx c, esp c, ebp c, esi c, edi c, d, e, f, g, esp c - 48] (esp c) (mem s)\<rparr>)"
    by (simp add: save_state_def pusha_def push_def push_seg_def Let_def g_def f_def e_def d_def)
  ultimately show ?thesis by blast
qed

text \<open>
  The frame of a hardware interrupt: \<open>k\<close> to \<open>g\<close> are the words of the segment registers, \<open>err\<close> and
  \<open>n\<close> what the stub pushed for the error code and the number.
\<close>

abbreviation irq_frame :: "cpu \<Rightarrow> u32 \<Rightarrow> u32 \<Rightarrow> u32 \<Rightarrow> u32 \<Rightarrow> u32 \<Rightarrow> u32 \<Rightarrow> u32 \<Rightarrow> u32 list" where
  "irq_frame c k err n d e f g \<equiv> [eflags c, k, eip c, err, n, eax c, ecx c, edx c, ebx c, esp c - 20, ebp c, esi c, edi c,
     d, e, f, g, esp c - 68]"

definition frame_regs :: "cpu \<Rightarrow> memory \<Rightarrow> u32 \<Rightarrow> u32 \<Rightarrow> u32 \<Rightarrow> u32 \<Rightarrow> u32 \<Rightarrow> u32 \<Rightarrow> u32 \<Rightarrow> regs" where
  "frame_regs c m k err n d e f g = \<lparr>r_gs = g, r_fs = f, r_es = e, r_ds = d, r_edi = edi c, r_esi = esi c, r_ebp = ebp c,
     r_esp = esp c - 20, r_ebx = ebx c, r_edx = edx c, r_ecx = ecx c, r_eax = eax c, int_no = n, err_code = err,
     r_eip = eip c, r_cs = k, r_eflags = eflags c, r_useresp = load32 m (esp c), r_ss = load32 m (esp c + 4)\<rparr>"

lemma frame_load:
  assumes "i < 18" "\<And>j. j < 18 \<Longrightarrow> load32 m (sp - of_nat (4 * Suc j)) = ws ! j"
  shows "load32 m (sp - 4 * of_nat (Suc i)) = ws ! i"
  using assms by simp

lemma above_frame:
  assumes "length ws = 18" "j \<le> 4"
  shows "load32 (push_words ws sp m) (sp + of_nat j) = load32 m (sp + of_nat j)"
proof (rule same_outside_load32 [OF push_words_outside])
  fix i :: nat
  assume i: "i < 4"
  have "sp + of_nat j + of_nat i - (sp - of_nat (4 * length ws)) = (of_nat (72 + j + i) :: u32)"
    using assms(1) by (simp add: algebra_simps)
  moreover have "unat (of_nat (72 + j + i) :: u32) = 72 + j + i" using assms(2) i by (intro unat_of_nat_u32) simp
  ultimately show "\<not> in_region (sp - of_nat (4 * length ws)) (4 * length ws) (sp + of_nat j + of_nat i)"
    using assms(1) unfolding in_region_def by (simp add: ac_simps)
qed (use assms(1) in simp)

lemma load_frame_regs:
  assumes m: "m' = push_words (irq_frame c k err n d e f g) (esp c) m"
  shows "load_regs (esp c - 68) m' = frame_regs c m k err n d e f g"
proof -
  have w: "load32 m' (esp c - of_nat (4 * Suc i)) = irq_frame c k err n d e f g ! i" if "i < 18" for i
    unfolding m using that by (intro load_push_words) simp_all
  have a: "load32 m' (esp c) = load32 m (esp c)" "load32 m' (4 + esp c) = load32 m (esp c + 4)"
    unfolding m using above_frame [of "irq_frame c k err n d e f g" 0 "esp c" m] above_frame [of "irq_frame c k err n d e f g" 4 "esp c" m]
    by (simp_all add: add.commute [of 4])
  show ?thesis
    using w [of 0] w [of 1] w [of 2] w [of 3] w [of 4] w [of 5] w [of 6] w [of 7] w [of 8] w [of 9] w [of 10] w [of 11]
      w [of 12] w [of 13] w [of 14] w [of 15] w [of 16] a
    by (simp add: load_regs_def frame_regs_def)
qed

lemma restore_frame:
  assumes w: "\<And>i. i < 17 \<Longrightarrow> load32 (mem s) (esp c - of_nat (4 * Suc i)) = irq_frame c k err n d e f g ! i"
    and seg: "ucast k = cs c" "ucast d = ds c" "ucast e = es c" "ucast f = fs c" "ucast g = gs c"
    and sp: "esp c' = esp c - 72"
  shows "restore_state (c', s) = (c, s)"
  using w [of 0] w [of 1] w [of 2] w [of 5] w [of 6] w [of 7] w [of 8] w [of 10] w [of 11]
      w [of 12] w [of 13] w [of 14] w [of 15] w [of 16] seg sp
  by (simp add: restore_state_def popa_def iret_def Let_def)

lemma store_own_regs: "store_words p (regs_words (load_regs p m)) m = m"
  by (simp add: load_regs_def regs_words_def add.assoc)

section \<open>In and out\<close>

text \<open>
  What the calling convention promises of the compiled handler: it keeps the registers that belong
  to the caller and writes to the stack only below its argument, that included, within \<open>depth\<close> bytes.
\<close>

definition cdecl :: "nat \<Rightarrow> (cpu \<times> 'a machine_scheme \<Rightarrow> cpu \<times> 'a machine_scheme) \<Rightarrow> bool" where
  "cdecl depth frame \<longleftrightarrow> depth + 72 \<le> 4294967296 \<and> (\<forall>c s. \<exists>c' m. frame (c, s) = (c', s\<lparr>mem := m\<rparr>)
     \<and> same_outside (in_region (esp c - of_nat depth) (depth + 4)) (mem s) m
     \<and> esp c' = esp c \<and> ebp c' = ebp c \<and> ebx c' = ebx c \<and> esi c' = esi c \<and> edi c' = edi c)"

text \<open>The part of the stack that an interrupt uses.\<close>

abbreviation irq_stack :: "nat \<Rightarrow> cpu \<Rightarrow> u32 \<Rightarrow> bool" where
  "irq_stack depth c \<equiv> in_region (esp c - of_nat (72 + depth)) (72 + depth)"

lemma mem_of_update: "mem (s\<lparr>mem := m\<rparr>) = m"
  by simp

lemma esp_of_update: "esp (c\<lparr>esp := v\<rparr>) = v"
  by simp

text \<open>The frame that a stub leaves, with the pointer to it on top.\<close>

lemma numbered_stub_frame:
  assumes hi: "seg_law hi"
    and a: "apart (esp c - 16) 16 0 4" "apart (esp c - 16) 16 a 4"
  shows "\<exists>k d e f g c'. ucast k = cs c \<and> ucast d = ds c \<and> ucast e = es c \<and> ucast f = fs c \<and> ucast g = gs c
    \<and> esp c' = esp c - 72 \<and> numbered_stub hi a (interrupt hi (c, s))
      = (c', s\<lparr>mem := push_words (irq_frame c k (load32 (mem s) 0) (load32 (mem s) a) d e f g) (esp c) (mem s)\<rparr>)"
proof -
  obtain k where k: "ucast k = cs c" "interrupt hi (c, s) =
     (cli (c\<lparr>cs := 0x08, esp := esp c - 12\<rparr>), s\<lparr>mem := push_words [eflags c, k, eip c] (esp c) (mem s)\<rparr>)"
    using interrupt_pushes [OF hi] by blast
  let ?C = "cli (cli (c\<lparr>cs := 0x08, esp := esp c - 12\<rparr>))" and ?c = "cli (cli (c\<lparr>cs := 0x08, esp := esp c - 12\<rparr>))\<lparr>esp := esp c - 20\<rparr>"
  let ?m1 = "push_words [eflags c, k, eip c] (esp c) (mem s)"
  have low: "load32 (push_words ws (esp c) (mem s)) b = load32 (mem s) b" if "length ws \<le> 4" "apart (esp c - 16) 16 b 4" for ws b
  proof (rule same_outside_load32 [OF same_outside_mono [OF push_words_outside]])
    show "4 * length ws \<le> 4294967296" using that(1) by simp
    fix x
    assume r: "in_region (esp c - of_nat (4 * length ws)) (4 * length ws) x"
    have e: "esp c - of_nat (4 * length ws) = esp c - 16 + of_nat (16 - 4 * length ws)"
      using that(1) by (simp add: of_nat_diff)
    have "in_region (esp c - 16 + of_nat (16 - 4 * length ws)) (4 * length ws) x" using r unfolding e .
    then show "in_region (esp c - 16) 16 x" by (rule in_region_part) (use that(1) in simp_all)
  next
    fix i :: nat
    assume "i < 4"
    then show "\<not> in_region (esp c - 16) 16 (b + of_nat i)" by (rule apart_not_in_region [OF that(2)])
  qed
  let ?err = "load32 (mem s) 0" and ?n = "load32 (mem s) a"
  have err: "load32 ?m1 0 = ?err" by (rule low) (use a in simp_all)
  have n: "load32 (push_words [eflags c, k, eip c, ?err] (esp c) (mem s)) a = ?n"
    by (rule low) (use a in simp_all)
  have push1: "push (load32 ?m1 0) (?C, s\<lparr>mem := ?m1\<rparr>)
      = (?C\<lparr>esp := esp c - 16\<rparr>, s\<lparr>mem := push_words [eflags c, k, eip c, ?err] (esp c) (mem s)\<rparr>)"
    unfolding err by (simp add: push_def cli_def)
  have push2: "push (load32 (push_words [eflags c, k, eip c, ?err] (esp c) (mem s)) a)
      (?C\<lparr>esp := esp c - 16\<rparr>, s\<lparr>mem := push_words [eflags c, k, eip c, ?err] (esp c) (mem s)\<rparr>)
      = (?c, s\<lparr>mem := push_words [eflags c, k, eip c, ?err, ?n] (esp c) (mem s)\<rparr>)"
    unfolding n by (simp add: push_def cli_def)
  let ?s = "s\<lparr>mem := push_words [eflags c, k, eip c, ?err, ?n] (esp c) (mem s)\<rparr>"
  obtain d e f g where seg: "ucast d = ds c" "ucast e = es c" "ucast f = fs c" "ucast g = gs c"
    and save: "save_state hi (?c, ?s) =
      (?c\<lparr>ds := 0x10, es := 0x10, fs := 0x10, gs := 0x10, eax := esp ?c - 48, esp := esp ?c - 52\<rparr>,
       ?s\<lparr>mem := push_words [eax c, ecx c, edx c, ebx c, esp ?c, ebp c, esi c, edi c, d, e, f, g, esp ?c - 48] (esp ?c) (mem ?s)\<rparr>)"
    using save_state_pushes [OF hi, of ?c ?s] by (auto simp: cli_def)
  have "numbered_stub hi a (interrupt hi (c, s)) = save_state hi (?c, ?s)"
    unfolding numbered_stub_def k(2) Let_def fst_conv snd_conv mem_of_update push1 push2 ..
  also have "\<dots> = (?c\<lparr>ds := 0x10, es := 0x10, fs := 0x10, gs := 0x10, eax := esp ?c - 48, esp := esp ?c - 52\<rparr>,
      s\<lparr>mem := push_words (irq_frame c k ?err ?n d e f g) (esp c) (mem s)\<rparr>)"
    unfolding save by simp
  finally have "numbered_stub hi a (interrupt hi (c, s)) = (?c\<lparr>ds := 0x10, es := 0x10, fs := 0x10, gs := 0x10,
      eax := esp ?c - 48, esp := esp ?c - 52\<rparr>, s\<lparr>mem := push_words (irq_frame c k ?err ?n d e f g) (esp c) (mem s)\<rparr>)" .
  moreover have "esp (?c\<lparr>ds := 0x10, es := 0x10, fs := 0x10, gs := 0x10, eax := esp ?c - 48, esp := esp ?c - 52\<rparr>) = esp c - 72"
    by simp
  ultimately show ?thesis using k(1) seg by blast
qed

lemma frame_top: "load32 (push_words (irq_frame c k err n d e f g) (esp c) m) (esp c - 72) = esp c - 68"
  using load_push_words [of 17 "irq_frame c k err n d e f g" "esp c" m] by simp

lemma frame_survives:
  assumes d: "depth + 72 \<le> 4294967296" and l: "length ws = 18"
    and m: "same_outside (in_region (sp - 72 - of_nat depth) (depth + 4)) (push_words ws sp m) m'"
  shows "i < 17 \<Longrightarrow> load32 m' (sp - of_nat (4 * Suc i)) = ws ! i"
    and "same_outside (in_region (sp - of_nat (72 + depth)) (72 + depth)) m m'"
proof -
  let ?a = "sp - of_nat (72 + depth)"
  have a: "sp - 72 - of_nat depth = ?a" by simp
  show "load32 m' (sp - of_nat (4 * Suc i)) = ws ! i" if i: "i < 17"
  proof -
    have "load32 m' (sp - of_nat (4 * Suc i)) = load32 (push_words ws sp m) (sp - of_nat (4 * Suc i))"
    proof (rule same_outside_load32 [OF m [unfolded a]])
      fix j :: nat
      assume j: "j < 4"
      have "sp - of_nat (4 * Suc i) + of_nat j - ?a = (of_nat (72 + depth) - of_nat (4 * Suc i) + of_nat j :: u32)"
        by (simp add: algebra_simps)
      also have "\<dots> = of_nat (72 + depth - 4 * Suc i + j)" using i by (simp add: of_nat_diff)
      finally have e: "sp - of_nat (4 * Suc i) + of_nat j - ?a = of_nat (72 + depth - 4 * Suc i + j)" .
      have "unat (of_nat (72 + depth - 4 * Suc i + j) :: u32) = 72 + depth - 4 * Suc i + j"
        using d i j by (intro unat_of_nat_u32) simp
      then show "\<not> in_region ?a (depth + 4) (sp - of_nat (4 * Suc i) + of_nat j)"
        unfolding in_region_def e using i by simp
    qed
    also have "\<dots> = ws ! i" using i l by (intro load_push_words) simp_all
    finally show ?thesis .
  qed
  have "same_outside (in_region ?a (72 + depth)) m (push_words ws sp m)"
  proof (rule same_outside_mono [OF push_words_outside])
    fix x
    assume r: "in_region (sp - of_nat (4 * length ws)) (4 * length ws) x"
    have "sp - of_nat (4 * length ws) = ?a + of_nat depth" by (simp add: l)
    then have "in_region (?a + of_nat depth) 72 x" using r by (simp add: l)
    then show "in_region ?a (72 + depth) x" by (rule in_region_part) (use d in simp_all)
  qed (simp add: l)
  moreover have "same_outside (in_region ?a (72 + depth)) (push_words ws sp m) m'"
    by (rule same_outside_mono [OF m [unfolded a]]) (simp add: in_region_def)
  ultimately show "same_outside (in_region ?a (72 + depth)) m m'" by (rule same_outside_trans)
qed

text \<open>
  An interrupt is decided by its handler, which gets the registers \<open>r\<close> of the interrupted code: when
  it leaves them and the memory as they are, all registers are as before afterwards, and the memory
  outside the stack.
\<close>

abbreviation saved :: "cpu \<Rightarrow> regs \<Rightarrow> bool" where
  "saved c r \<equiv> r_eip r = eip c \<and> r_eflags r = eflags c \<and> ucast (r_cs r) = cs c \<and> r_eax r = eax c \<and> r_ecx r = ecx c
    \<and> r_edx r = edx c \<and> r_ebx r = ebx c \<and> r_ebp r = ebp c \<and> r_esi r = esi c \<and> r_edi r = edi c"

lemma irq_entry_handler:
  assumes hi: "seg_law hi" and fr: "cdecl depth frame"
    and a: "apart (esp c - 16) 16 0 4" "apart (esp c - 16) 16 (32 + line) 4"
  shows "\<exists>r m. saved c r \<and> int_no r = load32 (mem s) (32 + line)
    \<and> (irq_handler run r (s\<lparr>mem := m\<rparr>) = None \<longrightarrow> irq_entry hi frame run line (interrupt hi (c, s)) = None)
    \<and> (\<forall>t. irq_handler run r (s\<lparr>mem := m\<rparr>) = Some (r, t) \<longrightarrow> mem t = m \<longrightarrow>
        (\<exists>M. irq_entry hi frame run line (interrupt hi (c, s)) = Some (c, t\<lparr>mem := M\<rparr>) \<and> same_outside (irq_stack depth c) (mem s) M))"
proof -
  let ?n = "load32 (mem s) (32 + line)" and ?err = "load32 (mem s) 0"
  obtain k d e f g c' where seg: "ucast k = cs c" "ucast d = ds c" "ucast e = es c" "ucast f = fs c" "ucast g = gs c"
    and sp: "esp c' = esp c - 72" and stub: "numbered_stub hi (32 + line) (interrupt hi (c, s))
      = (c', s\<lparr>mem := push_words (irq_frame c k ?err ?n d e f g) (esp c) (mem s)\<rparr>)"
    using numbered_stub_frame [OF hi a] by blast
  let ?W = "irq_frame c k ?err ?n d e f g" and ?r = "frame_regs c (mem s) k ?err ?n d e f g"
  define m where "m = push_words ?W (esp c) (mem s)"
  have r: "load_regs (esp c - 68) m = ?r" by (rule load_frame_regs [OF m_def])
  have own: "store_words (esp c - 68) (regs_words ?r) m = m" using store_own_regs [of "esp c - 68" m] unfolding r .
  have top: "load32 m (esp c') = esp c - 68" unfolding m_def sp by (rule frame_top)
  have "\<exists>M. irq_entry hi frame run line (interrupt hi (c, s)) = Some (c, t\<lparr>mem := M\<rparr>) \<and> same_outside (irq_stack depth c) (mem s) M"
    if t: "irq_handler run ?r (s\<lparr>mem := m\<rparr>) = Some (?r, t)" "mem t = m" for t
  proof -
    obtain c2 M where c2: "frame (c', t) = (c2, t\<lparr>mem := M\<rparr>)" "same_outside (in_region (esp c' - of_nat depth) (depth + 4)) (mem t) M"
      "esp c2 = esp c'" and dp: "depth + 72 \<le> 4294967296" using fr unfolding cdecl_def by blast
    have M: "same_outside (in_region (esp c - 72 - of_nat depth) (depth + 4)) (push_words ?W (esp c) (mem s)) M"
      using c2(2) unfolding t(2) sp m_def .
    have "length ?W = 18" by simp
    note fs = frame_survives [OF dp this M]
    have restored: "restore_state (c2, t\<lparr>mem := M\<rparr>) = (c, t\<lparr>mem := M\<rparr>)"
    proof (rule restore_frame [OF _ seg])
      fix i :: nat
      assume "i < 17"
      from fs(1) [OF this] show "load32 (mem (t\<lparr>mem := M\<rparr>)) (esp c - of_nat (4 * Suc i)) = ?W ! i" by simp
    qed (simp add: c2(3) sp)
    have keep: "t\<lparr>mem := m\<rparr> = t" using t(2) by simp
    have "irq_entry hi frame run line (interrupt hi (c, s)) = Some (c, t\<lparr>mem := M\<rparr>)"
      unfolding irq_entry_def stub m_def [symmetric]
      by (simp add: top r t own keep c2(1) restored)
    then show ?thesis using fs(2) by blast
  qed
  moreover have "irq_entry hi frame run line (interrupt hi (c, s)) = None" if "irq_handler run ?r (s\<lparr>mem := m\<rparr>) = None"
    unfolding irq_entry_def stub m_def [symmetric] by (simp add: top r that)
  ultimately show ?thesis using seg(1)
    by (intro exI [of _ ?r] exI [of _ m]) (simp add: frame_regs_def)
qed

lemma irq_entry_returns:
  assumes "seg_law hi" "cdecl depth frame" "apart (esp c - 16) 16 0 4" "apart (esp c - 16) 16 (32 + line) 4"
    and run: "\<And>r m. int_no r = load32 (mem s) (32 + line) \<Longrightarrow> \<exists>t. irq_handler run r (s\<lparr>mem := m\<rparr>) = Some (r, t) \<and> mem t = m"
  shows "\<exists>r m t M. saved c r
    \<and> int_no r = load32 (mem s) (32 + line) \<and> irq_handler run r (s\<lparr>mem := m\<rparr>) = Some (r, t)
    \<and> irq_entry hi frame run line (interrupt hi (c, s)) = Some (c, t\<lparr>mem := M\<rparr>) \<and> same_outside (irq_stack depth c) (mem s) M"
proof -
  obtain r m where r: "saved c r" "int_no r = load32 (mem s) (32 + line)"
    and e: "\<And>t. irq_handler run r (s\<lparr>mem := m\<rparr>) = Some (r, t) \<Longrightarrow> mem t = m \<Longrightarrow>
      \<exists>M. irq_entry hi frame run line (interrupt hi (c, s)) = Some (c, t\<lparr>mem := M\<rparr>) \<and> same_outside (irq_stack depth c) (mem s) M"
    using irq_entry_handler [OF assms(1-4), of s run] by blast
  obtain t where t: "irq_handler run r (s\<lparr>mem := m\<rparr>) = Some (r, t)" "mem t = m" using run [OF r(2)] by blast
  show ?thesis using e [OF t] r t(1) by blast
qed

lemma cdecl_id: "cdecl 4096 id"
proof -
  have "id (c, s) = (c, s\<lparr>mem := mem s\<rparr>)" for c :: cpu and s :: "'a machine_scheme" by simp
  moreover have "same_outside R m m" for R :: "u32 \<Rightarrow> bool" and m by simp
  moreover have "4096 + 72 \<le> (4294967296 :: nat)" by simp
  ultimately show ?thesis unfolding cdecl_def by blast
qed

lemma irq_handler_wild:
  assumes "tx_live s" "length (irq_routines s) \<le> unat (int_no r - 32)" shows "irq_handler run r s = None"
  using irq_handler_steps [OF assms(1), of r run] assms(2) by auto

text \<open>A processor whose stack ends at \<open>0x90000\<close>, and memory in which the word at \<open>32 + line\<close> is \<open>n\<close>.\<close>

definition running :: cpu where
  "running = \<lparr>eax = 1, ecx = 2, edx = 3, ebx = 4, esp = 0x90000, ebp = 0x90010, esi = 5, edi = 6, eip = 0x100000,
     eflags = 0x202, cs = 8, ds = 0x10, es = 0x10, fs = 0x10, gs = 0x10\<rparr>"

abbreviation irq_word :: "u32 \<Rightarrow> u32 \<Rightarrow> irq_state" where
  "irq_word line n \<equiv> idle_irq\<lparr>mem := store32 (mem idle_irq) (32 + line) n\<rparr>"

lemma irq_word_live: "tx_live (irq_word line n)"
  using idle_irq_live by (simp add: tx_live_def tx_ready_def)

lemma seg_law_zero: "seg_law (\<lambda>x w. ucast x)"
  unfolding seg_law_def by (intro allI bit_word_eqI) (simp add: bit_simps)

section \<open>Properties\<close>



text \<open>
  C17. An interrupt on \<open>line\<close> calls the routine in the slot of the handler table for the number that
  memory holds at the address \<open>32 + line\<close>, as long as that number is one of 32 to 47 and the slot is
  not empty; this is the handler installed for \<open>line\<close> only if the number is \<open>32 + line\<close>. The routine
  is called on registers that carry this number and are otherwise those of the interrupted code.
  When it returns with the registers and all of memory as it found them, the interrupted code
  continues with all registers as before, in the state that the routine made, after the end of
  interrupt has been sent, and memory differs at most in the part of the stack below its stack pointer.
\<close>

theorem irq_entry_runs_routine:
  assumes "tx_live s" "length (irq_routines s) = 16" "seg_law hi" "cdecl depth frame"
    "apart (esp c - 16) 16 0 4" "apart (esp c - 16) 16 (32 + line) 4"
    "n = load32 (mem s) (32 + line)" "32 \<le> n" "n < 48" "h = irq_routines s ! unat (n - 32)" "h \<noteq> 0"
    "\<And>r t. int_no r = n \<Longrightarrow> \<exists>t'. run h r t = Some (r, t') \<and> mem t' = mem t"
  shows "\<exists>r t t' M. saved c r \<and> int_no r = n \<and> irq_routines t = irq_routines s \<and> run h r t = Some (r, t')
    \<and> irq_entry hi frame run line (interrupt hi (c, s)) = Some (c, t'\<lparr>io := io t' @ eoi r, mem := M\<rparr>)
    \<and> same_outside (irq_stack depth c) (mem s) M"
proof -
  have u: "unat (n - 32) < 16" using assms(8,9) by (simp add: unat_minus_u32 word_le_nat_alt word_less_nat_alt)
  have h: "\<exists>t t'. irq_routines t = irq_routines s \<and> mem t' = m \<and> run h r t = Some (r, t')
      \<and> irq_handler run r (s\<lparr>mem := m\<rparr>) = Some (r, t'\<lparr>io := io t' @ eoi r\<rparr>)" if r: "int_no r = n" for r m
  proof -
    have "tx_live (s\<lparr>mem := m\<rparr>)" using assms(1) by (simp add: tx_live_def tx_ready_def)
    from irq_handler_steps [OF this, of r run] obtain t where t: "printed (irq_banner r) (s\<lparr>mem := m\<rparr>) t"
      and e: "irq_handler run r (s\<lparr>mem := m\<rparr>) = Option.bind (run h r t) (\<lambda>(r', s2). Some (r', s2\<lparr>io := io s2 @ eoi r'\<rparr>))"
      using u assms(2,10,11) r by auto
    obtain t' where "run h r t = Some (r, t')" "mem t' = mem t" using assms(12) [OF r] by blast
    moreover have "irq_routines t = irq_routines s" "mem t = m" using t by (auto simp: printed_def)
    ultimately show ?thesis using e by (intro exI [of _ t] exI [of _ t']) simp
  qed
  have h': "\<exists>t. irq_handler run r (s\<lparr>mem := m\<rparr>) = Some (r, t) \<and> mem t = m" if "int_no r = load32 (mem s) (32 + line)" for r m
  proof -
    have "int_no r = n" using that assms(7) by simp
    from h [OF this, of m] show ?thesis by force
  qed
  obtain r m t M where r: "saved c r" and e: "int_no r = n" "irq_handler run r (s\<lparr>mem := m\<rparr>) = Some (r, t)"
    "irq_entry hi frame run line (interrupt hi (c, s)) = Some (c, t\<lparr>mem := M\<rparr>)" "same_outside (irq_stack depth c) (mem s) M"
    using irq_entry_returns [OF assms(3-6) h'] unfolding assms(7) by blast
  obtain t0 t' where t': "irq_routines t0 = irq_routines s" "run h r t0 = Some (r, t')" "t = t'\<lparr>io := io t' @ eoi r\<rparr>"
    using h [OF e(1), of m] e(2) by auto
  have "irq_entry hi frame run line (interrupt hi (c, s)) = Some (c, t'\<lparr>io := io t' @ eoi r, mem := M\<rparr>)"
    using e(3) unfolding t'(3) .
  then show ?thesis using r e(1) t'(1,2) e(4) by blast
qed

theorem irq_entry_runs_routine_witness:
  "\<exists>s. irq_entry (\<lambda>x w. ucast x) id (\<lambda>h r s. Some (r, s\<lparr>terminal_row := h\<rparr>)) 1
      (interrupt (\<lambda>x w. ucast x) (running, (irq_word 1 33)\<lparr>irq_routines := (replicate 16 0)[1 := 0x100500]\<rparr>)) = Some (running, s)
     \<and> terminal_row s = 0x100500"
proof -
  let ?s = "(irq_word 1 33)\<lparr>irq_routines := (replicate 16 0)[1 := 0x100500]\<rparr>"
    and ?run = "\<lambda>h r (s :: irq_state). Some (r :: regs, s\<lparr>terminal_row := h\<rparr>)"
  have "tx_live ?s" using irq_word_live [of 1 33] by (simp add: tx_live_def tx_ready_def)
  moreover have "apart (esp running - 16) 16 0 4" "apart (esp running - 16) 16 (32 + 1) 4"
    by (simp_all add: running_def apart_def)
  ultimately show ?thesis
    using irq_entry_runs_routine [OF _ _ seg_law_zero cdecl_id, of ?s running 1 33 "0x100500" ?run] by force
qed

text \<open>
  C28. A number outside the sixteen lines, which a stub passes on whenever memory holds one at the
  address \<open>32 + line\<close>, indexes the table of handlers out of its bounds.
\<close>

theorem irq_entry_out_of_bounds:
  assumes "tx_live s" "length (irq_routines s) = 16" "seg_law hi" "cdecl depth frame"
    "apart (esp c - 16) 16 0 4" "apart (esp c - 16) 16 (32 + line) 4" "16 \<le> unat (load32 (mem s) (32 + line) - 32)"
  shows "irq_entry hi frame run line (interrupt hi (c, s)) = None"
proof -
  obtain r m where r: "int_no r = load32 (mem s) (32 + line)"
    and e: "irq_handler run r (s\<lparr>mem := m\<rparr>) = None \<longrightarrow> irq_entry hi frame run line (interrupt hi (c, s)) = None"
    using irq_entry_handler [OF assms(3-6), of s run] by (elim exE conjE)
  have "irq_handler run r (s\<lparr>mem := m\<rparr>) = None"
    using assms(1,2,7) r by (intro irq_handler_wild) (simp_all add: tx_live_def tx_ready_def)
  with e show ?thesis by (rule mp)
qed

theorem irq_entry_out_of_bounds_witness:
  "irq_entry (\<lambda>x w. ucast x) id (\<lambda>h r s. Some (r, s)) 1 (interrupt (\<lambda>x w. ucast x) (running, irq_word 1 0xF000FF53)) = None"
proof -
  have "length (irq_routines (irq_word 1 0xF000FF53)) = 16" by (simp add: idle_irq_def blank_desc_def desc.defs)
  moreover have "apart (esp running - 16) 16 0 4" "apart (esp running - 16) 16 (32 + 1) 4"
    by (simp_all add: running_def apart_def)
  ultimately show ?thesis
    using irq_entry_out_of_bounds [OF irq_word_live _ seg_law_zero cdecl_id, of 1 "0xF000FF53" running 1 "\<lambda>h r s. Some (r, s)"] by simp
qed

text \<open>
  C27. An exception \<open>v\<close> for which the processor pushes no error code is reported under the number that
  memory holds at the address \<open>v\<close>: below 32 the kernel prints that exception's name and halts, otherwise
  the interrupted code continues as if there had been no exception.
\<close>

theorem isr_entry_reports_word:
  assumes "tx_live s" "seg_law hi" "cdecl depth frame" "\<not> has_error_code v"
    "apart (esp c - 16) 16 0 4" "apart (esp c - 16) 16 v 4" "n = load32 (mem s) v"
  shows "\<exists>x. isr_entry hi frame v (interrupt hi (c, s)) = Some x \<and>
    (if n < 32
     then (\<exists>c' M j. x = Halts (c', s\<lparr>io := io s @ map (Outb PORT)
              (map of_char (exception_messages ! unat n @ '' Exception. System Halted!'' @ [CHR 0x0A])), in_count := j, mem := M\<rparr>))
     else (\<exists>M. x = Returns (c, s\<lparr>mem := M\<rparr>) \<and> same_outside (irq_stack depth c) (mem s) M))"
proof -
  let ?err = "load32 (mem s) 0"
  obtain k d e f g c' where seg: "ucast k = cs c" "ucast d = ds c" "ucast e = es c" "ucast f = fs c" "ucast g = gs c"
    and sp: "esp c' = esp c - 72" and stub: "numbered_stub hi v (interrupt hi (c, s))
      = (c', s\<lparr>mem := push_words (irq_frame c k ?err n d e f g) (esp c) (mem s)\<rparr>)"
    using numbered_stub_frame [OF assms(2,5,6)] unfolding assms(7) by blast
  let ?W = "irq_frame c k ?err n d e f g" and ?r = "frame_regs c (mem s) k ?err n d e f g"
  define m where "m = push_words ?W (esp c) (mem s)"
  have r: "load_regs (esp c - 68) m = ?r" by (rule load_frame_regs [OF m_def])
  have top: "load32 m (esp c') = esp c - 68" unfolding m_def sp by (rule frame_top)
  have live: "tx_live (s\<lparr>mem := m\<rparr>)" using assms(1) by (simp add: tx_live_def tx_ready_def)
  have num: "int_no ?r = n" by (simp add: frame_regs_def)
  have same_io: "io (s\<lparr>mem := m\<rparr>) = io s" by simp
  from fault_handler_result [OF live, of ?r, unfolded num same_io] obtain j where
    fh: "fault_handler ?r (s\<lparr>mem := m\<rparr>) = Some (if n < 32
       then Halts (s\<lparr>mem := m, io := io s @ map (Outb PORT)
              (map of_char (exception_messages ! unat n @ '' Exception. System Halted!'' @ [CHR 0x0A])), in_count := j\<rparr>)
       else Returns (s\<lparr>mem := m\<rparr>))" by blast
  show ?thesis
  proof (cases "n < 32")
    case True
    have "isr_entry hi frame v (interrupt hi (c, s)) = Some (Halts (c', s\<lparr>mem := m, io := io s @ map (Outb PORT)
              (map of_char (exception_messages ! unat n @ '' Exception. System Halted!'' @ [CHR 0x0A])), in_count := j\<rparr>))"
      using True fh unfolding isr_entry_def if_not_P [OF assms(4)] stub m_def [symmetric] by (simp add: top r)
    also have "s\<lparr>mem := m, io := io s @ map (Outb PORT)
              (map of_char (exception_messages ! unat n @ '' Exception. System Halted!'' @ [CHR 0x0A])), in_count := j\<rparr>
        = s\<lparr>io := io s @ map (Outb PORT)
              (map of_char (exception_messages ! unat n @ '' Exception. System Halted!'' @ [CHR 0x0A])), in_count := j, mem := m\<rparr>"
      by (cases s) simp
    finally show ?thesis using True by (intro exI [of _ "Halts _"]) auto
  next
    case False
    let ?s = "s\<lparr>mem := m\<rparr>"
    have "\<exists>c2 M. frame (c', ?s) = (c2, ?s\<lparr>mem := M\<rparr>)
        \<and> same_outside (in_region (esp c' - of_nat depth) (depth + 4)) (mem ?s) M \<and> esp c2 = esp c'"
      and dp: "depth + 72 \<le> 4294967296" using assms(3) unfolding cdecl_def by blast+
    then obtain c2 M where c2: "frame (c', ?s) = (c2, s\<lparr>mem := M\<rparr>)"
      "same_outside (in_region (esp c' - of_nat depth) (depth + 4)) m M" "esp c2 = esp c'" by auto
    have M: "same_outside (in_region (esp c - 72 - of_nat depth) (depth + 4)) (push_words ?W (esp c) (mem s)) M"
      using c2(2) unfolding sp m_def .
    have "length ?W = 18" by simp
    note fs = frame_survives [OF dp this M]
    have restored: "restore_state (c2, s\<lparr>mem := M\<rparr>) = (c, s\<lparr>mem := M\<rparr>)"
    proof (rule restore_frame [OF _ seg])
      fix i :: nat
      assume "i < 17"
      from fs(1) [OF this] show "load32 (mem (s\<lparr>mem := M\<rparr>)) (esp c - of_nat (4 * Suc i)) = ?W ! i" by simp
    qed (simp add: c2(3) sp)
    have "isr_entry hi frame v (interrupt hi (c, s)) = Some (Returns (c, s\<lparr>mem := M\<rparr>))"
      using False fh unfolding isr_entry_def if_not_P [OF assms(4)] stub m_def [symmetric] by (simp add: top r c2(1) restored)
    then show ?thesis using False fs(2) by auto
  qed
qed

theorem isr_entry_reports_word_witness:
  "\<exists>c s. isr_entry (\<lambda>x w. ucast x) id 6 (interrupt (\<lambda>x w. ucast x) (running, idle_irq)) = Some (Halts (c, s))
     \<and> io s = map (\<lambda>c. Outb PORT (of_char c)) (''Division By Zero Exception. System Halted!'' @ [CHR 0x0A])"
proof -
  have "load32 (mem idle_irq) 6 = 0" "io idle_irq = []" by (simp_all add: idle_irq_def blank_desc_def desc.defs load32_def)
  moreover have "apart (esp running - 16) 16 0 4" "apart (esp running - 16) 16 6 4"
    by (simp_all add: running_def apart_def)
  ultimately show ?thesis
    using isr_entry_reports_word [OF idle_irq_live seg_law_zero cdecl_id, of 6 running 0]
    by (auto simp: has_error_code_def exception_messages_def)
qed

end
