(* ===== verification/Heap_Interrupts.thy ===== *)
theory Heap_Interrupts
  imports Heap_Full Entry
begin

text \<open>
  The clients of the heap (\<^verbatim>\<open>liballoc.c\<close> on the hooks of \<^verbatim>\<open>rise.c\<close>) with hardware interrupts between
  their calls, from the stubs of \<^verbatim>\<open>arch/i386/boot.S\<close> through \<^verbatim>\<open>irq_handler\<close> (\<^verbatim>\<open>irq.c\<close>) back to the client.

  \<open>kernel_step\<close> interleaves the steps of \<open>heap_use\<close> with interrupts.  What the compiled code between
  two events does with the registers is open; an interrupt finds them with interrupts enabled and
  the stack pointer in the memory between the words that the stubs read and the page tables, which
  is where the kernel's stack lies.
\<close>

section \<open>Steps\<close>

datatype event = Call heap_op | Interrupt u32

definition stack_room :: "nat \<Rightarrow> cpu \<Rightarrow> 'a vmm_scheme \<Rightarrow> bool" where
  "stack_room depth c s \<longleftrightarrow> 72 + depth + 88 \<le> unat (esp c) \<and> unat (esp c) \<le> unat (kernel_dir s)
     \<and> (\<forall>table. identity_map (kernel_dir s) table (mem s) \<longrightarrow> unat (esp c) \<le> unat table)"

text \<open>Handlers that leave the saved registers, the memory and the variables of the heap alone.\<close>

definition harmless ::
  "(u32 \<Rightarrow> regs \<Rightarrow> 'a liballoc_scheme \<Rightarrow> (regs \<times> 'a liballoc_scheme) option) \<Rightarrow> bool" where
  "harmless run \<longleftrightarrow> (\<forall>h r t r' t'. run h r t = Some (r', t') \<longrightarrow> r' = r \<and> mem t' = mem t \<and> heap_vars t' = heap_vars t)"

inductive kernel_step ::
  "(u16 \<Rightarrow> u32 \<Rightarrow> u32) \<Rightarrow> nat \<Rightarrow> (cpu \<times> 'a liballoc_scheme \<Rightarrow> cpu \<times> 'a liballoc_scheme) \<Rightarrow>
   (u32 \<Rightarrow> regs \<Rightarrow> 'a liballoc_scheme \<Rightarrow> (regs \<times> 'a liballoc_scheme) option) \<Rightarrow> event \<Rightarrow>
   cpu \<times> 'a liballoc_scheme \<times> (u32 \<rightharpoonup> u32) \<Rightarrow> cpu \<times> 'a liballoc_scheme \<times> (u32 \<rightharpoonup> u32) \<Rightarrow> bool"
  for hi depth frame run where
  call: "kernel_step hi depth frame run (Call op) (c, s, A) (c', s', A')" if "heap_use op (s, A) (s', A')"
| interrupt: "kernel_step hi depth frame run (Interrupt line) (c, s, A) (c', s', A)"
    if "eflags c AND 0x200 \<noteq> 0" "line < 16" "stack_room depth c s" "tx_live s"
      "irq_entry hi frame run line (interrupt hi (c, s)) = Some (c', s')"

inductive_cases kernel_step_call [elim]: "kernel_step hi depth frame run (Call op) (c, s, A) (c', s', A')"
inductive_cases kernel_step_interrupt [elim]: "kernel_step hi depth frame run (Interrupt line) (c, s, A) (c', s', A')"

inductive kernel_reach ::
  "(u16 \<Rightarrow> u32 \<Rightarrow> u32) \<Rightarrow> nat \<Rightarrow> (cpu \<times> 'a liballoc_scheme \<Rightarrow> cpu \<times> 'a liballoc_scheme) \<Rightarrow>
   (u32 \<Rightarrow> regs \<Rightarrow> 'a liballoc_scheme \<Rightarrow> (regs \<times> 'a liballoc_scheme) option) \<Rightarrow>
   cpu \<times> 'a liballoc_scheme \<times> (u32 \<rightharpoonup> u32) \<Rightarrow> bool"
  for hi depth frame run where
  start: "kernel_reach hi depth frame run (c, s, Map.empty)" if "mapped_below lo s" "l_initialized s = 0" "heap_lock s = 0"
| step: "kernel_reach hi depth frame run t" if "kernel_reach hi depth frame run s" "kernel_step hi depth frame run e s t"

section \<open>What an interrupt leaves of the heap\<close>

text \<open>A handler's state differs from the interrupted one in ways that the heap does not see.\<close>

lemma irq_handler_harmless:
  assumes "tx_live s" "harmless run" "irq_handler run r s = Some (r', t)"
  shows "r' = r \<and> mem t = mem s \<and> heap_vars t = heap_vars s"
proof -
  obtain s1 where s1: "printed (irq_banner r) s s1" and h: "irq_handler run r s =
      do {
        handler \<leftarrow> (if unat (int_no r - 32) < length (irq_routines s)
                   then Some (irq_routines s ! unat (int_no r - 32)) else None);
        (r', s2) \<leftarrow> (if handler \<noteq> 0 then run handler r s1 else Some (r, s1));
        Some (r', s2\<lparr>io := io s2 @ eoi r'\<rparr>)
      }" using irq_handler_steps [OF assms(1)] by blast
  have p: "mem s1 = mem s" "heap_vars s1 = heap_vars s" using s1 by (auto simp: printed_def heap_vars_def)
  show ?thesis
    using assms(2,3) p unfolding h harmless_def
    by (auto simp: heap_vars_def split: bind_splits if_splits)
qed

lemma stack_room_apart:
  assumes "stack_room depth c s" "line < 16"
  shows "apart (esp c - 16) 16 0 4" "apart (esp c - 16) 16 (32 + line) 4"
proof -
  have e: "160 \<le> unat (esp c)" using assms(1) by (simp add: stack_room_def)
  have "unat (esp c - 16) = unat (esp c) - 16" using e by (subst unat_minus_u32) (simp_all add: word_le_nat_alt)
  moreover have l: "unat line < 16" using assms(2) by (simp add: word_less_nat_alt)
  then have "unat (32 + line) = 32 + unat line" by (subst unat_plus_u32) simp_all
  ultimately show "apart (esp c - 16) 16 0 4" "apart (esp c - 16) 16 (32 + line) 4"
    using e l unat_u32_lt [of "esp c"] by (auto intro!: apart_sym [OF apart_ordered])
qed

lemma irq_stack_low:
  assumes "stack_room depth c s" "irq_stack depth c x" shows "unat x < unat (esp c)"
proof -
  have e: "72 + depth \<le> unat (esp c)" using assms(1) by (simp add: stack_room_def)
  have "unat (esp c - of_nat (72 + depth)) = unat (esp c) - (72 + depth)"
  proof -
    have u: "unat (of_nat (72 + depth) :: u32) = 72 + depth"
      using e unat_u32_lt [of "esp c"] by (intro unat_of_nat_u32) simp
    have "of_nat (72 + depth) \<le> esp c" unfolding word_le_nat_alt u by (rule e)
    from unat_minus_u32 [OF this] show ?thesis by (simp only: u)
  qed
  then show ?thesis using assms(2) e unat_u32_lt [of "esp c"] by (subst (asm) in_region_ordered) simp_all
qed

lemma interrupt_keeps:
  assumes hi: "seg_law hi" and fr: "cdecl depth frame" and run: "harmless run" and c: "client A s"
    and room: "stack_room depth c s" and line: "line < 16" and live: "tx_live s"
    and e: "irq_entry hi frame run line (interrupt hi (c, s)) = Some (c', s')"
  shows "c' = c" "client A s'" "contents A s' = contents A s" "heap_vars s' = heap_vars s"
    "same_outside (irq_stack depth c) (mem s) (mem s')"
proof -
  obtain r m where h: "irq_handler run r (s\<lparr>mem := m\<rparr>) \<noteq> None"
    and M: "\<And>t. irq_handler run r (s\<lparr>mem := m\<rparr>) = Some (r, t) \<Longrightarrow> mem t = m \<Longrightarrow>
      \<exists>M. irq_entry hi frame run line (interrupt hi (c, s)) = Some (c, t\<lparr>mem := M\<rparr>) \<and> same_outside (irq_stack depth c) (mem s) M"
    using irq_entry_handler [OF hi fr stack_room_apart [OF room line], of s run] e by fastforce
  obtain r' t where t: "irq_handler run r (s\<lparr>mem := m\<rparr>) = Some (r', t)" using h by auto
  have "tx_live (s\<lparr>mem := m\<rparr>)" using live by (simp add: tx_live_def tx_ready_def)
  from irq_handler_harmless [OF this run t]
  have t': "r' = r" "mem t = m" "heap_vars t = heap_vars s" by (simp_all add: heap_vars_def)
  obtain M where M': "c' = c" "s' = t\<lparr>mem := M\<rparr>" "same_outside (irq_stack depth c) (mem s) M"
    using M [OF t [unfolded t'(1)] t'(2)] e by auto
  then show "c' = c" "same_outside (irq_stack depth c) (mem s) (mem s')" by simp_all
  show v: "heap_vars s' = heap_vars s" using t'(3) by (simp add: M'(2) heap_vars_def)
  obtain lo T where T: "client_of lo T A s" using c by (auto simp: client_def)
  then obtain table where i: "identity_map (kernel_dir s) table (mem s)"
    by (auto simp: client_of_def kheap_def mapped_below_def)
  have k: "unat (esp c) \<le> unat (kernel_dir s)" "unat (esp c) \<le> unat table" using room i by (auto simp: stack_room_def)
  have out: "same_outside (\<lambda>x. unat x < unat (esp c)) (mem s) M"
    by (rule same_outside_mono [OF M'(3)]) (rule irq_stack_low [OF room])
  note w = client_low_write [OF T i k out]
  have v': "heap_vars s' = heap_vars (s\<lparr>mem := M\<rparr>)" "mem s' = mem (s\<lparr>mem := M\<rparr>)" using v M'(2) by (simp_all add: heap_vars_def)
  show "client A s'" using w(1) client_vars [OF v'] by (auto simp: client_def)
  show "contents A s' = contents A s" using contents_same [OF c w(2)] contents_vars [OF v'(2)] by simp
qed

lemma kernel_step_client:
  assumes "seg_law hi" "cdecl depth frame" "harmless run" "client A s"
    "kernel_step hi depth frame run e (c, s, A) (c', s', A')"
  shows "client A' s'"
proof (cases e)
  case (Call op)
  then show ?thesis using assms(4,5) client_use by blast
next
  case (Interrupt line)
  then show ?thesis using assms interrupt_keeps(2) by blast
qed

lemma kernel_reach_client:
  "kernel_reach hi depth frame run (c, s, A) \<Longrightarrow> seg_law hi \<Longrightarrow> cdecl depth frame \<Longrightarrow> harmless run \<Longrightarrow> client A s"
proof (induction "(c, s, A)" arbitrary: c s A rule: kernel_reach.induct)
  case (start lo s)
  then show ?case by (intro client_start)
next
  case (step t e)
  obtain c0 s0 A0 where t: "t = (c0, s0, A0)" by (cases t)
  then show ?case using step kernel_step_client by blast
qed

section \<open>Properties\<close>

text \<open>
  C6. With interrupts between the calls of its clients, the heap still implements the map from
  pointers to byte strings: in every state that calls and interrupts can reach, a call has on the
  contents of the blocks exactly the effect of its step on the map, and an interrupt is no step at
  all: the client continues with all its registers, its blocks and their contents as they were.
  This is for installed handlers that are \<open>harmless\<close>: when they return, the saved registers, all of
  memory and the variables of the heap are as they found them (they may use ports and other
  variables). A handler that changes a saved register or writes to memory is not covered.
\<close>

theorem interrupted_heap_refines:
  assumes "kernel_reach hi depth frame run (c, s, A)" "kernel_step hi depth frame run e (c, s, A) (c', s', A')"
    "seg_law hi" "cdecl depth frame" "harmless run"
  shows "client A' s' \<and> (case e of Call op \<Rightarrow> block_step op (contents A s) (contents A' s')
    | Interrupt line \<Rightarrow> c' = c \<and> A' = A \<and> contents A' s' = contents A s)"
proof -
  have c: "client A s" by (rule kernel_reach_client [OF assms(1,3-5)])
  have "case e of Call op \<Rightarrow> block_step op (contents A s) (contents A' s')
    | Interrupt line \<Rightarrow> c' = c \<and> A' = A \<and> contents A' s' = contents A s"
  proof (cases e)
    case (Call op)
    then show ?thesis using assms(2) client_use [OF c] by auto
  next
    case (Interrupt line)
    then have i: "A' = A" "stack_room depth c s" "line < 16" "tx_live s"
      "irq_entry hi frame run line (interrupt hi (c, s)) = Some (c', s')" using assms(2) by blast+
    then show ?thesis using interrupt_keeps(1,3) [OF assms(3-5) c i(2-5)] Interrupt by simp
  qed
  then show ?thesis using kernel_step_client [OF assms(3-5) c assms(2)] by simp
qed

text \<open>The heap after boot, in memory where the stub of line 1 finds its number.\<close>

definition ticking_heap :: liballoc where
  "ticking_heap = boot_heap\<lparr>irq_routines := replicate 16 0, mem := store32 (mem boot_heap) 33 33\<rparr>"

lemma boot_heap_map: "identity_map (kernel_dir boot_heap) 0x137000 (mem boot_heap)" "kernel_dir boot_heap = 0x135000"
  using paged_rise_map by (simp_all add: boot_heap_def rise.defs)

lemma ticking_heap_start:
  "kernel_reach hi depth frame run (c, ticking_heap, Map.empty)" "stack_room 4096 running ticking_heap"
proof -
  let ?m = "store32 (mem boot_heap) 33 33"
  obtain lo T where T: "client_of lo T Map.empty boot_heap"
    using client_reach [OF boot_heap_start(1)] by (auto simp: client_def)
  have "same_outside (\<lambda>x. unat x < 64) (mem boot_heap) ?m"
    by (rule same_outside_store32) (subst (asm) in_region_ordered; simp)
  then have k: "client_of lo T Map.empty (boot_heap\<lparr>mem := ?m\<rparr>)" "identity_map (kernel_dir boot_heap) 0x137000 ?m"
    using client_low_write [OF T boot_heap_map(1), of 64 ?m] by (simp_all add: boot_heap_map(2))
  have "mapped_below lo ticking_heap"
    using k(1) by (simp add: client_of_def kheap_def mapped_below_def ticking_heap_def)
  then show "kernel_reach hi depth frame run (c, ticking_heap, Map.empty)"
    by (rule kernel_reach.start) (simp_all add: ticking_heap_def boot_heap_start)
  have "unat (esp running) \<le> unat table" if "identity_map (kernel_dir ticking_heap) table (mem ticking_heap)" for table
  proof -
    have "table = 0x137000" using that k(2) by (simp add: identity_map_def ticking_heap_def boot_heap_map(2))
    then show ?thesis by (simp add: running_def)
  qed
  then show "stack_room 4096 running ticking_heap"
    by (simp add: stack_room_def) (simp add: running_def ticking_heap_def boot_heap_map(2))
qed

lemma ticking_heap_interrupt:
  "\<exists>s'. kernel_step (\<lambda>x w. ucast x) 4096 id (\<lambda>h r s. None) (Interrupt 1) (running, ticking_heap, A) (running, s', A)"
proof -
  have live: "tx_live ticking_heap" using boot_heap_live by (simp add: ticking_heap_def tx_live_def tx_ready_def)
  have n: "load32 (mem ticking_heap) (32 + 1) = 33" by (simp add: ticking_heap_def)
  have h: "\<exists>t. irq_handler (\<lambda>h r s. None) r (ticking_heap\<lparr>mem := m\<rparr>) = Some (r, t) \<and> mem t = m"
    if "int_no r = load32 (mem ticking_heap) (32 + 1)" for r m
  proof -
    have "tx_live (ticking_heap\<lparr>mem := m\<rparr>)" using live by (simp add: tx_live_def tx_ready_def)
    from irq_handler_idle [OF this, of r "\<lambda>h r s. None"] that
    show ?thesis unfolding n by (auto simp: ticking_heap_def word_le_nat_alt word_less_nat_alt)
  qed
  obtain s' where s': "irq_entry (\<lambda>x w. ucast x) id (\<lambda>h r s. None) 1 (interrupt (\<lambda>x w. ucast x) (running, ticking_heap)) = Some (running, s')"
    using irq_entry_returns [OF seg_law_zero cdecl_id stack_room_apart [OF ticking_heap_start(2)] h, of 1] by force
  have "eflags running AND 0x200 \<noteq> 0" "(1 :: u32) < 16" by (simp_all add: running_def)
  then show ?thesis using kernel_step.interrupt [OF _ _ ticking_heap_start(2) live s'] by blast
qed

theorem interrupted_heap_refines_witness:
  "\<exists>s'. kernel_step (\<lambda>x w. ucast x) 4096 id (\<lambda>h r s. None) (Interrupt 1) (running, ticking_heap, Map.empty) (running, s', Map.empty)
     \<and> client Map.empty s'"
proof -
  obtain s' where s': "kernel_step (\<lambda>x w. ucast x) 4096 id (\<lambda>h r s. None) (Interrupt 1) (running, ticking_heap, Map.empty)
    (running, s', Map.empty)" using ticking_heap_interrupt by blast
  have "harmless (\<lambda>h r (s :: liballoc). None)" by (simp add: harmless_def)
  then show ?thesis using interrupted_heap_refines [OF ticking_heap_start(1) s' seg_law_zero cdecl_id] s' by blast
qed

lemma heap_locked:
  assumes "heap_lock s \<noteq> 0"
  shows "kmalloc n s = None" "kcalloc k n s = None" "p \<noteq> 0 \<Longrightarrow> kfree p s = None"
  using assms by (simp_all add: kmalloc_def kcalloc_def kfree_def calloc_def malloc_def free_def liballoc_lock_eq)

text \<open>
  C18. The lock of the heap is taken with interrupts enabled.  An interrupt that comes while it is held,
  for a line whose routine asks for memory or gives some back, never returns: the routine waits for the
  lock, which only the interrupted code could release.
\<close>

theorem handler_waits_forever:
  assumes hi: "seg_law hi" and fr: "cdecl depth frame" and room: "stack_room depth c s" and line: "line < 16"
    and live: "tx_live s" and held: "heap_lock s \<noteq> 0"
    and n: "unat (load32 (mem s) (32 + line) - 32) < length (irq_routines s)"
      "irq_routines s ! unat (load32 (mem s) (32 + line) - 32) = h" "h \<noteq> 0"
    and run: "call \<in> {\<lambda>t. map_option snd (kmalloc k t), \<lambda>t. map_option snd (kcalloc j k t), kfree p}" "p \<noteq> 0"
      "\<And>r t. run h r t = map_option (Pair r) (call t)"
  shows "irq_entry hi frame run line (interrupt hi (c, s)) = None"
proof -
  obtain r m where r: "int_no r = load32 (mem s) (32 + line)"
    and e: "irq_handler run r (s\<lparr>mem := m\<rparr>) = None \<longrightarrow> irq_entry hi frame run line (interrupt hi (c, s)) = None"
    using irq_entry_handler [OF hi fr stack_room_apart [OF room line], of s run] by (elim exE conjE)
  have "tx_live (s\<lparr>mem := m\<rparr>)" using live by (simp add: tx_live_def tx_ready_def)
  from irq_handler_steps [OF this, of r run] obtain s1 where s1: "printed (irq_banner r) (s\<lparr>mem := m\<rparr>) s1"
    "irq_handler run r (s\<lparr>mem := m\<rparr>) = do {
        handler \<leftarrow> (if unat (int_no r - 32) < length (irq_routines (s\<lparr>mem := m\<rparr>))
                   then Some (irq_routines (s\<lparr>mem := m\<rparr>) ! unat (int_no r - 32)) else None);
        (r', s2) \<leftarrow> (if handler \<noteq> 0 then run handler r s1 else Some (r, s1));
        Some (r', s2\<lparr>io := io s2 @ eoi r'\<rparr>)
      }" by blast
  have "heap_lock s1 \<noteq> 0" using s1(1) held by (auto simp: printed_def)
  note l = heap_locked [OF this]
  have "call s1 = None" using run(1,2) l by auto
  then have "irq_handler run r (s\<lparr>mem := m\<rparr>) = None" unfolding s1(2) r using n run(3) by simp
  then show ?thesis using e by (rule rev_mp)
qed

text \<open>A routine at the address 7 asks for ten bytes; the interrupt finds the lock taken.\<close>

theorem handler_waits_forever_witness:
  "irq_entry (\<lambda>x w. ucast x) id (\<lambda>h r t. map_option (Pair r) (map_option snd (kmalloc 10 t))) 1
     (interrupt (\<lambda>x w. ucast x) (running, ticking_heap\<lparr>heap_lock := 1, irq_routines := replicate 16 7\<rparr>)) = None"
proof -
  let ?s = "ticking_heap\<lparr>heap_lock := 1, irq_routines := replicate 16 7\<rparr>"
  have live: "tx_live ?s" using boot_heap_live by (simp add: ticking_heap_def tx_live_def tx_ready_def)
  have room: "stack_room 4096 running ?s" using ticking_heap_start(2) by (simp add: stack_room_def)
  have n: "load32 (mem ?s) (32 + 1) = 33" by (simp add: ticking_heap_def)
  show ?thesis
    by (rule handler_waits_forever [OF seg_law_zero cdecl_id room _ live, where h = 7 and k = 10 and p = 1
        and call = "\<lambda>t. map_option snd (kmalloc 10 t)"])
      (use n in simp_all)
qed

end
