(* ===== verification/Heap_Overrun.thy ===== *)
theory Heap_Overrun
  imports Heap_Full
begin

text \<open>
  How the heap of \<^verbatim>\<open>liballoc.c\<close> meets its end on the hooks of \<^verbatim>\<open>rise.c\<close>: \<^verbatim>\<open>malloc\<close> looks for room on the list
  of the request's own size class alone, so that small requests take a region of 64 KB each; and the
  request whose pages reach beyond the first four megabytes makes \<^verbatim>\<open>allocate_page\<close> (\<^verbatim>\<open>vmm.c\<close>) build a
  page table in the middle of the heap.
\<close>

section \<open>A region for each small request\<close>

abbreviation class_of :: "u32 \<Rightarrow> nat" where
  "class_of n \<equiv> nat (max (getexp n) (int MINEXP))"

lemma class_of_small: "unat n \<le> 32000 \<Longrightarrow> class_of n < 15"
proof -
  assume n: "unat n \<le> 32000"
  show ?thesis
  proof (cases "256 \<le> unat n")
    case True
    then obtain k where k: "getexp n = int k" "2 ^ k \<le> unat n" using getexp_large [of n] by blast
    have "\<not> 15 \<le> k"
    proof
      assume "15 \<le> k"
      then have "(2 :: nat) ^ 15 \<le> 2 ^ k" by (intro power_increasing) auto
      then show False using k(2) n by simp
    qed
    then show ?thesis using k(1) by simp
  next
    case False
    then have "getexp n = - 1" by (simp add: getexp_def word_less_nat_alt push_bit_eq_mult)
    then show ?thesis by simp
  qed
qed

lemma pages_for_region:
  assumes "unat n \<le> 32000" shows "pages_for n = 16"
proof -
  have "unat (n + 32) = unat n + 32" using assms by (subst unat_plus_u32) simp_all
  then have u: "unat ((n + 32) div 4096) = (unat n + 32) div 4096" by (simp add: unat_div)
  have "(unat n + 32) div 4096 \<le> 32032 div 4096" using assms by (intro div_le_mono) simp
  then have q: "unat ((n + 32) div 4096) \<le> 7" using u by simp
  then have "unat ((n + 32) div 4096 + 1) = unat ((n + 32) div 4096) + 1" by (subst unat_plus_u32) simp_all
  then have "(n + 32) div 4096 < 16" "(n + 32) div 4096 + 1 < 16" using q by (simp_all add: word_less_nat_alt)
  then show ?thesis by (simp add: pages_for_def Let_def)
qed

lemma insert_tag_shape:
  assumes "max (getexp (tag_get Real_size a s - sizeof_tag)) (int MINEXP) = 15"
  shows "\<exists>m. insert_tag a (- 1) s = Some (s\<lparr>mem := m, l_freePages := (l_freePages s)(15 := a)\<rparr>)"
proof -
  have e: "(if (- 1 :: int) < 0 then max (getexp (tag_get Real_size a s - sizeof_tag)) (int MINEXP) else - 1) = 15"
    using assms by simp
  show ?thesis unfolding insert_tag_def e Let_def by (cases "l_freePages s 15 = 0"; simp add: tag_put_def; blast)
qed

text \<open>What is left of a fresh region goes to the list of class 15.\<close>

lemma split_fresh_region:
  assumes n: "unat n \<le> 32000" and t: "tag_get Real_size t s = 65536" "tag_get Size t s = n" "tag_get Split_right t s = 0"
    and a: "unat t + 65536 < 4294967296"
  shows "\<exists>m. split_excess t n s = Some (s\<lparr>mem := m, l_freePages := (l_freePages s)(15 := t + 32 + n)\<rparr>)"
proof -
  let ?a = "t + 32 + n" and ?w = "65472 - n"
  have "unat (t + 32) = unat t + 32" using a by (subst unat_plus_u32) simp_all
  then have un: "unat ?a = unat t + 32 + unat n" using n a by (subst unat_plus_u32) simp_all
  have "apart t 32 ?a 32" by (rule apart_ordered) (use n a un in linarith)+
  moreover have "?a \<noteq> t"
  proof
    assume "?a = t"
    then have "unat ?a = unat t" by (rule arg_cong)
    then show False using un by linarith
  qed
  then have "32 + n \<noteq> 0" by (simp add: add.assoc)
  ultimately have ap: "apart t 32 ?a 32" "apart ?a 32 t 32" "32 + n \<noteq> 0" by (simp_all add: apart_sym)
  have w: "unat ?w = 65472 - unat n" using n by (subst unat_minus_u32) (simp_all add: word_le_nat_alt)
  have e: "getexp ?w = 15" by (rule getexp_bits) (use n w in simp_all)
  have "sint ?w = int (unat ?w)" by (rule small_sint) (use w in linarith)
  moreover have "0 < unat ?w" using n w by linarith
  ultimately have pos: "0 < sint ?w" by linarith
  have "tag_get Real_size t s - n - sizeof_tag * 2 = ?w" by (simp add: t)
  then have ex: "split_excess t n s = map_option snd (split_tag t s)"
    unfolding split_excess_def Let_def using pos e by simp
  let ?u = "tag_put Split_left ?a t (tag_put Prev ?a 0 (tag_put Next ?a 0 (tag_put Real_size ?a (65536 - 32 - n)
    (tag_put Magic ?a LIBALLOC_MAGIC s))))"
  let ?v = "tag_put Real_size t (tag_get Real_size t ?u - (65536 - 32 - n)) (tag_put Split_right t ?a (tag_put Split_right ?a 0 ?u))"
  have u: "tag_get Split_right t ?u = 0" using ap by (simp add: tag_get_put t)
  have g: "tag_get Real_size ?a (tag_put Split_right t ?a (tag_put Split_right ?a 0 ?u)) = 65536 - 32 - n"
    "tag_get Real_size t (tag_put Split_right t ?a (tag_put Split_right ?a 0 ?u)) = tag_get Real_size t ?u"
    "tag_get Real_size ?a ?v = 65536 - 32 - n" "tag_get Split_right ?a (tag_put Split_right ?a 0 ?u) = 0"
    using ap by (simp_all add: tag_get_put)
  have split: "split_tag t s = Option.bind (insert_tag ?a (- 1) ?v) (\<lambda>s. Some (?a, s))"
    unfolding split_tag_def Let_def t u by (simp only: g simp_thms if_False)
  have "(65536 - 32 - n) - sizeof_tag = ?w" by simp
  then have i: "max (getexp (tag_get Real_size ?a ?v - sizeof_tag)) (int MINEXP) = 15" unfolding g(3) using e by simp
  have v: "?v = s\<lparr>mem := mem ?v\<rparr>" by (simp add: tag_put_def)
  obtain m where "insert_tag ?a (- 1) ?v = Some (?v\<lparr>mem := m, l_freePages := (l_freePages ?v)(15 := ?a)\<rparr>)"
    using insert_tag_shape [OF i] by blast
  also have "?v\<lparr>mem := m, l_freePages := (l_freePages ?v)(15 := ?a)\<rparr> = s\<lparr>mem := m, l_freePages := (l_freePages s)(15 := ?a)\<rparr>"
    by (subst v) (simp add: frame_simps)
  finally have "insert_tag ?a (- 1) ?v = Some (s\<lparr>mem := m, l_freePages := (l_freePages s)(15 := ?a)\<rparr>)" .
  then show ?thesis unfolding ex split by (intro exI [of _ m]) simp
qed

text \<open>What the heap never changes.\<close>

definition setting where
  "setting s = (kernel_dir s, placementaddr s, bitmap_addr s, heap_end s, port_env s, in_count s)"

lemma setting_live: "setting s' = setting s \<Longrightarrow> tx_live s' = tx_live s"
  by (simp add: setting_def tx_live_def tx_ready_def)

lemma kmalloc_small:
  assumes l: "heap_lock s = 0" and n: "unat n \<le> 32000" and f: "l_freePages (fresh_heap s) (class_of n) = 0"
    and r: "page_room 16 s"
  shows "\<exists>s'. kmalloc n s = Some (heap_cur s + 32, s') \<and> heap_cur s' = heap_cur s + 0x10000 \<and> setting s' = setting s
    \<and> l_initialized s' \<noteq> 0 \<and> l_freePages s' (class_of n) = 0"
proof -
  let ?t = "heap_cur s" and ?s = "fresh_heap s"
  have a: "liballoc_alloc 16 ?s = Some (?t, ?s\<lparr>heap_cur := ?t + 0x10000\<rparr>)"
    using liballoc_alloc_room(1) [of 16 ?s] r by simp
  have room: "?t \<noteq> 0" "unat ?t + 65536 < 4194304" using r by (simp_all add: page_room_def low_heap_def)
  have lock: "liballoc_lock s = Some (s\<lparr>heap_lock := 1\<rparr>)" using l by (simp add: liballoc_lock_eq)
  let ?u = "tag_put Split_right ?t 0 (tag_put Split_left ?t 0 (tag_put Prev ?t 0 (tag_put Next ?t 0
        (tag_put Index ?t (- 1) (tag_put Real_size ?t 65536
          (tag_put Size ?t n (tag_put Magic ?t LIBALLOC_MAGIC (?s\<lparr>heap_cur := ?t + 0x10000\<rparr>))))))))"
  have new: "allocate_new_tag liballoc_alloc n ?s = Some (?t, ?u)"
    unfolding allocate_new_tag_pages pages_for_region [OF n] using a room by simp
  have block: "kernel_pages.block_for n ?s = Some (?t, ?u)"
    unfolding kernel_pages.block_for_def using f new by (simp add: find_tag.simps)
  let ?v = "tag_put Size ?t n ?u"
  have v: "tag_get Real_size ?t ?v = 65536" "tag_get Size ?t ?v = n" "tag_get Split_right ?t ?v = 0"
    by (simp_all add: tag_get_put)
  obtain m where split: "split_excess ?t n ?v = Some (?v\<lparr>mem := m, l_freePages := (l_freePages ?v)(15 := ?t + 32 + n)\<rparr>)"
    using split_fresh_region [OF n v] room(2) by auto
  let ?w = "?v\<lparr>mem := m, l_freePages := (l_freePages ?v)(15 := ?t + 32 + n)\<rparr>"
  have "kmalloc n s = Some (?t + 32, liballoc_unlock ?w)"
    unfolding kmalloc_def kernel_pages.malloc_block_for Let_def
    using lock block split room(1) by (simp add: fresh_heap_def Let_def)
  moreover have "l_freePages ?w (class_of n) = 0" using class_of_small [OF n] f by (simp add: frame_simps)
  ultimately show ?thesis
    by (intro exI [of _ "liballoc_unlock ?w"]) (simp add: setting_def liballoc_unlock_def spin_unlock_def tag_put_def fresh_heap_def Let_def)
qed

lemma small_requests:
  assumes c: "client A s" and n: "unat n \<le> 32000" and f: "l_initialized s = 0 \<or> l_freePages s (class_of n) = 0"
    and r: "unat (heap_cur s) + unat k * 65536 < min (unat (heap_end s)) 4194304"
  shows "\<exists>s' A'. for_loop_opt 0 k (\<lambda>i s. map_option snd (kmalloc n s)) s = Some s'
    \<and> unat (heap_cur s') = unat (heap_cur s) + unat k * 65536 \<and> setting s' = setting s \<and> client A' s' \<and> A \<subseteq>\<^sub>m A'
    \<and> (\<forall>j < k. A' (heap_cur s + j * 0x10000 + 32) = Some n)"
proof -
  let ?P = "\<lambda>(j :: u32) u. \<exists>B. heap_cur u = heap_cur s + j * 0x10000 \<and> setting u = setting s \<and> client B u \<and> A \<subseteq>\<^sub>m B
    \<and> (l_initialized u = 0 \<or> l_freePages u (class_of n) = 0) \<and> (\<forall>i < j. B (heap_cur s + i * 0x10000 + 32) = Some n)"
  have cur: "unat (heap_cur s + j * 0x10000) = unat (heap_cur s) + unat j * 65536" if "j \<le> k" for j
  proof -
    have "unat j \<le> unat k" using that by (simp add: word_le_nat_alt)
    then have "unat (j * 0x10000) = unat j * 65536" using r by (subst unat_mult_u32) simp_all
    then show ?thesis using r \<open>unat j \<le> unat k\<close> by (subst unat_plus_u32) simp_all
  qed
  have "\<exists>s'. for_loop_opt 0 k (\<lambda>i s. map_option snd (kmalloc n s)) s = Some s' \<and> ?P k s'"
  proof (rule for_loop_opt_rule [where P = ?P])
    show "?P 0 s" using c f by (intro exI [of _ A]) simp
    fix j :: u32 and u
    assume j: "j < k" and "?P j u"
    then obtain B where B: "heap_cur u = heap_cur s + j * 0x10000" "setting u = setting s" "client B u" "A \<subseteq>\<^sub>m B"
      "l_initialized u = 0 \<or> l_freePages u (class_of n) = 0" "\<forall>i < j. B (heap_cur s + i * 0x10000 + 32) = Some n" by blast
    have "unat j + 1 \<le> unat k" using j by (simp add: word_less_nat_alt)
    then have fits: "heap_fits n u" using cur [of j] j r B(1,2) by (simp add: heap_fits_def pages_for_region [OF n] setting_def)
    obtain lo T where T: "client_of lo T B u" using B(3) by (auto simp: client_def)
    then have low: "mapped_below lo u" and l: "heap_lock u = 0" by (simp_all add: client_of_def kheap_def)
    have p: "page_room 16 u" using heap_fits_room [OF low fits] pages_for_region [OF n] by simp
    have e: "l_freePages (fresh_heap u) (class_of n) = 0" using B(5) by (auto simp: fresh_heap_def Let_def)
    obtain v where v: "kmalloc n u = Some (heap_cur u + 32, v)" "heap_cur v = heap_cur u + 0x10000" "setting v = setting u"
      "l_freePages v (class_of n) = 0" using kmalloc_small [OF l n e p] by blast
    have n': "unat n \<le> 4294900000" using n by simp
    have g: "B (heap_cur u + 32) = None" "client (B(heap_cur u + 32 \<mapsto> n)) v"
      using client_kmalloc [OF B(3) disjI1 [OF fits] n'] v(1) by auto
    have "A \<subseteq>\<^sub>m B(heap_cur u + 32 \<mapsto> n)" using B(4) g(1) by (fastforce simp: map_le_def dom_def)
    moreover have "heap_cur v = heap_cur s + (j + 1) * 0x10000" using v(2) B(1) by (simp add: algebra_simps)
    moreover have "(B(heap_cur u + 32 \<mapsto> n)) (heap_cur s + i * 0x10000 + 32) = Some n" if "i < j + 1" for i
    proof (cases "i = j")
      case False
      then have "i < j" using that unat_suc_u32 [OF j] by (simp add: word_less_nat_alt word_unat_eq_iff)
      then show ?thesis using B(6) by simp
    qed (simp add: B(1))
    ultimately have "?P (j + 1) v" using v(3,4) B(2) g(2) by (intro exI [of _ "B(heap_cur u + 32 \<mapsto> n)"]) simp
    then show "\<exists>v. map_option snd (kmalloc n u) = Some v \<and> ?P (j + 1) v" using v(1) by simp
  qed simp
  then show ?thesis using cur [of k] by auto
qed

section \<open>A page table in the heap\<close>

text \<open>
  The first table beyond four megabytes: \<open>d\<close> is the directory, and \<open>p\<close> where the placement address
  puts the table.  From there on four megabytes are cleared.
\<close>

definition wiped :: "u32 \<Rightarrow> u32 \<Rightarrow> memory \<Rightarrow> bool" where
  "wiped d p m \<longleftrightarrow> load32 m (tables_slot d 1) = p \<and> (\<forall>x. unat p + 4096 \<le> unat x \<longrightarrow> unat x < 4194304 \<longrightarrow> m x = 0)"

definition quiet :: "'a vmm_scheme \<Rightarrow> 'a vmm_scheme \<Rightarrow> bool" where
  "quiet s s' \<longleftrightarrow> (tx_live s \<longrightarrow> tx_live s') \<and> bitmap_addr s' = bitmap_addr s \<and> heap_cur s' = heap_cur s"

lemma quiet_trans: "quiet s t \<Longrightarrow> quiet t u \<Longrightarrow> quiet s u"
  by (simp add: quiet_def)

lemma wiped_kept:
  assumes w: "wiped d p m" and d: "unat d + 8192 \<le> unat p" and o: "same_outside R m m'"
    and R: "\<And>x. R x \<Longrightarrow> unat x < unat d \<or> unat p \<le> unat x \<and> unat x < unat p + 4096"
  shows "wiped d p m'"
proof -
  have d': "unat d + 8192 \<le> 4294967296" using d unat_u32_lt [of p] by linarith
  have "load32 m' (tables_slot d 1) = load32 m (tables_slot d 1)"
  proof (rule load32_cong)
    fix i :: nat
    assume "i < 4"
    then have "unat (tables_slot d 1 + of_nat i) = unat d + 4 + i"
      unfolding tables_slot_nat using d' unat_add_of_nat_u32 [of d "4 + i"] by (simp add: add.assoc)
    then have "\<not> R (tables_slot d 1 + of_nat i)" using R [of "tables_slot d 1 + of_nat i"] d \<open>i < 4\<close> by linarith
    then show "m' (tables_slot d 1 + of_nat i) = m (tables_slot d 1 + of_nat i)" using o by (simp add: same_outside_def)
  qed
  moreover have "m' x = 0" if x: "unat p + 4096 \<le> unat x" "unat x < 4194304" for x
  proof -
    have "\<not> R x" using R [of x] x(1) d by linarith
    then show ?thesis using o w x by (simp add: same_outside_def wiped_def)
  qed
  ultimately show ?thesis using w by (simp add: wiped_def)
qed

text \<open>Taking a frame writes below the directory at most.\<close>

lemma kalloc_page_frame_quiet:
  assumes live: "tx_live s" and b: "unat (bitmap_addr s) + 140288 \<le> unat (d :: u32)"
  shows "\<exists>f s'. kalloc_page_frame s = Some (f, s') \<and> quiet s s' \<and> same_outside (\<lambda>x. unat x < unat d) (mem s) (mem s')"
proof (cases s rule: kalloc_page_frame_cases)
  case (frame i)
  have o: "unat i div 8 * 4 + 4 \<le> 140288" using frame(1) by (simp add: word_less_nat_alt)
  then have u: "unat (bucket i s) = unat (bitmap_addr s) + unat i div 8 * 4"
    unfolding bucket_eq using b unat_u32_lt [of d] by (intro unat_add_of_nat_u32) linarith
  have "same_outside (\<lambda>x. unat x < unat d) (mem s) (mem (SETBIT i s))"
    unfolding SETBIT_def
  proof (simp, rule same_outside_store32)
    fix x
    assume "in_region (bucket i s) 4 x"
    then show "unat x < unat d" using u o b unat_u32_lt [of d] by (subst (asm) in_region_ordered) linarith+
  qed
  moreover have "quiet s (SETBIT i s)" by (simp add: quiet_def SETBIT_def tx_live_def tx_ready_def)
  ultimately show ?thesis using frame(4) by blast
next
  case full
  have "CHR ''%'' \<notin> set (''Failed to allocate page frame: out of mem!'' @ [CHR 0x0A])" by simp
  from qemu_printf_message [OF live this, of "[]"] obtain s' where
    s': "qemu_printf (''Failed to allocate page frame: out of mem!'' @ [CHR 0x0A]) [] s = Some s'"
    "printed (map of_char (''Failed to allocate page frame: out of mem!'' @ [CHR 0x0A])) s s'" by blast
  have "quiet s s'" "mem s' = mem s" using s'(2) by (auto simp: printed_def quiet_def tx_live_def tx_ready_def)
  then show ?thesis using full(2) s'(1) by (intro exI [of _ "- 1"] exI [of _ s']) simp
qed

lemma map_page_wiped:
  assumes w: "wiped d p (mem s)" and d: "unat d + 8192 \<le> unat p" and p: "unat p + 4096 \<le> 4294967296"
    and live: "tx_live s" and b: "unat (bitmap_addr s) + 140288 \<le> unat d" and v: "PAGEDIR_INDEX v = 1"
  shows "\<exists>s'. allocate_page d v s = Some s' \<and> quiet s s' \<and> wiped d p (mem s')"
proof -
  have t: "load32 (mem s) (tables_slot d (PAGEDIR_INDEX v)) = p" using w v by (simp add: wiped_def)
  have nz: "p \<noteq> 0" using d by auto
  let ?e = "page_slot p (PAGETBL_INDEX v)"
  show ?thesis
  proof (cases "page_present (load32 (mem s) ?e) = 0")
    case True
    obtain f s1 where s1: "kalloc_page_frame s = Some (f, s1)" "quiet s s1" "same_outside (\<lambda>x. unat x < unat d) (mem s) (mem s1)"
      using kalloc_page_frame_quiet [OF live b] by blast
    have w1: "wiped d p (mem s1)" by (rule wiped_kept [OF w d s1(3)]) simp
    let ?u = "upd_word ?e (mapped_pte f) s1"
    have i: "unat (PAGETBL_INDEX v) * 4 + 4 \<le> 4096" using PAGETBL_INDEX_lt [of v] by linarith
    then have e: "unat ?e = unat p + unat (PAGETBL_INDEX v) * 4"
      unfolding page_slot_nat using p by (intro unat_add_of_nat_u32) linarith
    have o: "same_outside (\<lambda>x. unat p \<le> unat x \<and> unat x < unat p + 4096) (mem s1) (mem ?u)"
      unfolding mem_upd_word
    proof (rule same_outside_store32)
      fix x
      assume "in_region ?e 4 x"
      then show "unat p \<le> unat x \<and> unat x < unat p + 4096" using e i p by (subst (asm) in_region_ordered) linarith+
    qed
    have "wiped d p (mem ?u)" by (rule wiped_kept [OF w1 d o]) simp
    moreover have "quiet s1 ?u" by (simp add: quiet_def upd_word_def tx_live_def tx_ready_def)
    ultimately show ?thesis using allocate_page_absent [OF t nz True] s1(1) quiet_trans [OF s1(2)] by auto
  next
    case False
    then show ?thesis using allocate_page_present [OF t nz False] w by (simp add: quiet_def)
  qed
qed

lemma new_table_wiped:
  assumes i: "identity_map d table (mem s)" and p: "page_up (placementaddr s) = p" "unat d + 8192 \<le> unat p" "unat p + 4194304 \<le> 4294967296"
    and live: "tx_live s" and b: "unat (bitmap_addr s) + 140288 \<le> unat d" and v: "PAGEDIR_INDEX v = 1"
  shows "\<exists>s'. allocate_page d v s = Some s' \<and> quiet s s' \<and> wiped d p (mem s')"
proof -
  have "(0 :: u32) < 1 \<and> (1 :: u32) < 1024" by simp
  then have z: "load32 (mem s) (tables_slot d 1) = 0" using i unfolding identity_map_def by blast
  have nz: "p \<noteq> 0" using p(2) by auto
  have dd: "dumballoc sz s = (p, s\<lparr>placementaddr := p + sz\<rparr>)" for sz
    unfolding dumballoc_eq using p(1) by (simp add: page_up_def Let_def)
  let ?F = "filled p 4194304 0 (mem s)"
  let ?D = "physical_slot d 1" and ?T = "tables_slot d 1"
  let ?M = "store32 (store32 ?F ?D (dir_entry p (load32 ?F ?D))) ?T p"
  let ?s = "s\<lparr>placementaddr := p + 4096, mem := ?M\<rparr>"
  have "wiped d p ?M"
  proof -
    have e: "unat ?D = unat d + 4100" "unat ?T = unat d + 4"
      unfolding physical_slot_nat tables_slot_nat using p(2) unat_u32_lt [of p]
      by (subst unat_add_of_nat_u32; simp)+
    have o: "same_outside (\<lambda>x. unat x < unat p) ?F ?M"
    proof (rule same_outside_trans)
      show "same_outside (\<lambda>x. unat x < unat p) ?F (store32 ?F ?D (dir_entry p (load32 ?F ?D)))"
        by (rule same_outside_store32) (subst (asm) in_region_ordered; use e p(2) unat_u32_lt [of p] in linarith)
      show "same_outside (\<lambda>x. unat x < unat p) (store32 ?F ?D (dir_entry p (load32 ?F ?D))) ?M"
        by (rule same_outside_store32) (subst (asm) in_region_ordered; use e p(2) unat_u32_lt [of p] in linarith)
    qed
    have "?M x = 0" if x: "unat p + 4096 \<le> unat x" "unat x < 4194304" for x
    proof -
      have "in_region p 4194304 x" using x p(3) by (subst in_region_ordered) simp_all
      then have "?F x = 0" by (simp add: filled_def)
      moreover have "\<not> unat x < unat p" using x(1) by linarith
      ultimately show ?thesis using o by (simp add: same_outside_def)
    qed
    then show ?thesis by (simp add: wiped_def)
  qed
  moreover have "tx_live ?s" using live by (simp add: tx_live_def tx_ready_def)
  moreover have "unat p + 4096 \<le> 4294967296" using p(3) by simp
  ultimately obtain s' where s': "allocate_page d v ?s = Some s'" "quiet ?s s'" "wiped d p (mem s')"
    using map_page_wiped [of d p ?s v] p(2) b v by auto
  have "allocate_page d v s = allocate_page d v ?s"
    unfolding allocate_page_def Let_def v using z nz
    by (simp add: dd memset_eq upd_word_def mem_simps dir_entry_def comp_def)
  moreover have "quiet s s'" using s'(2) live \<open>tx_live ?s\<close> by (simp add: quiet_def)
  ultimately show ?thesis using s' by auto
qed

lemma run_all_append: "run_all body (xs @ ys) s = Option.bind (run_all body xs s) (run_all body ys)"
proof (induction xs arbitrary: s)
  case (Cons x xs)
  then show ?case by (cases "body x s") simp_all
qed simp

lemma run_all_wiped:
  assumes "wiped d p (mem s)" "unat d + 8192 \<le> unat p" "unat p + 4096 \<le> 4294967296" "tx_live s"
    "unat (bitmap_addr s) + 140288 \<le> unat d" "\<And>v. v \<in> set vs \<Longrightarrow> PAGEDIR_INDEX v = 1"
  shows "\<exists>s'. run_all (allocate_page d) vs s = Some s' \<and> quiet s s' \<and> wiped d p (mem s')"
  using assms
proof (induction vs arbitrary: s)
  case (Cons v vs)
  obtain t where t: "allocate_page d v s = Some t" "quiet s t" "wiped d p (mem t)"
    using map_page_wiped [OF Cons.prems(1-5), of v] Cons.prems(6) by auto
  then have "tx_live t" "unat (bitmap_addr t) + 140288 \<le> unat d" using Cons.prems(4,5) by (auto simp: quiet_def)
  from Cons.IH [OF t(3) Cons.prems(2,3) this] Cons.prems(6) obtain u where
    "run_all (allocate_page d) vs t = Some u" "quiet t u" "wiped d p (mem u)" by auto
  then show ?case using t(1) quiet_trans [OF t(2)] by auto
qed (simp add: quiet_def)

text \<open>A region that begins below four megabytes and ends above.\<close>

lemma pages_across:
  assumes r: "unat start < 4194304" "4194304 \<le> unat stop" "unat stop < 8388608"
  shows "\<exists>lows v highs. region_pages (start AND 0xFFFFF000) (stop AND 0xFFFFF000) = lows @ v # highs
    \<and> (\<forall>x \<in> set lows. unat x < 4194304) \<and> (\<forall>x \<in> set (v # highs). PAGEDIR_INDEX x = 1)"
proof -
  let ?a = "start AND 0xFFFFF000" and ?b = "stop AND 0xFFFFF000"
  let ?at = "\<lambda>k. ?a + of_nat k * 0x1000"
  define m where "m = 1024 - unat start div 4096"
  define n where "n = unat stop div 4096 - unat start div 4096"
  have a: "unat ?a = unat start div 4096 * 4096" "unat ?b = unat stop div 4096 * 4096" by (rule page_floor)+
  have div: "unat start div 4096 < 1024" "1024 \<le> unat stop div 4096" "unat stop div 4096 < 2048" using r by linarith+
  then have mn: "m \<le> n" "unat start div 4096 + m = 1024" "unat start div 4096 + n < 2048" by (simp_all add: m_def n_def)
  have at: "unat (?at k) = (unat start div 4096 + k) * 4096" if "k \<le> n" for k
  proof -
    have "unat (?a + of_nat (k * 4096)) = unat ?a + k * 4096" using that mn(3) a(1) by (intro unat_add_of_nat_u32) linarith
    then show ?thesis using a(1) by (simp add: algebra_simps)
  qed
  have le: "?a \<le> ?b" using div a by (simp add: word_le_nat_alt)
  have "(unat ?b - unat ?a) div 4096 = n" unfolding a n_def by (simp add: diff_mult_distrib [symmetric])
  then have pages: "region_pages ?a ?b = map ?at [0 ..< n + 1]"
    unfolding region_pages_def if_P [OF le] by (simp del: upt_Suc)
  have "[0 ..< n + 1] = [0 ..< m] @ m # [m + 1 ..< n + 1]"
    using mn(1) upt_add_eq_append [of 0 m "n + 1 - m"] upt_conv_Cons [of m "n + 1"] by (simp del: upt_Suc)
  then have split: "region_pages ?a ?b = map ?at [0 ..< m] @ ?at m # map ?at [m + 1 ..< n + 1]" unfolding pages by (simp del: upt_Suc)
  have low: "unat (?at k) < 4194304" if k: "k < m" for k
  proof -
    have "unat start div 4096 + k < 1024" using k mn(2) by linarith
    then show ?thesis using at [of k] k mn(1) by simp
  qed
  have "PAGEDIR_INDEX (?at k) = 1" if k: "m \<le> k" "k \<le> n" for k
  proof -
    have "r * 4096 div 4194304 = 1" if "1024 \<le> r" "r < 2048" for r :: nat
      by (rule div_nat_eqI) (use that in simp_all)
    moreover have "1024 \<le> unat start div 4096 + k" "unat start div 4096 + k < 2048" using k mn by linarith+
    ultimately have "(unat start div 4096 + k) * 4096 div 4194304 = 1" by blast
    then show ?thesis using at [OF k(2)] by (simp add: word_unat_eq_iff PAGEDIR_INDEX_unat)
  qed
  then have "\<forall>x \<in> set (?at m # map ?at [m + 1 ..< n + 1]). PAGEDIR_INDEX x = 1" using mn(1) by auto
  moreover have "\<forall>x \<in> set (map ?at [0 ..< m]). unat x < 4194304" using low by auto
  ultimately show ?thesis using split by blast
qed

lemma allocate_region_wiped:
  assumes i: "identity_map d table (mem s)" and p: "page_up (placementaddr s) = p" "unat d + 8192 \<le> unat p" "unat p + 4194304 \<le> 4294967296"
    and live: "tx_live s" and b: "unat (bitmap_addr s) + 140288 \<le> unat d"
    and r: "unat start < 4194304" "4194304 \<le> unat stop" "unat stop < 8388608"
  shows "\<exists>s'. allocate_region d start stop s = Some s' \<and> quiet s s' \<and> wiped d p (mem s')"
proof -
  let ?a = "start AND 0xFFFFF000" and ?b = "stop AND 0xFFFFF000"
  obtain lows v highs where split: "region_pages ?a ?b = lows @ v # highs" and l: "\<And>x. x \<in> set lows \<Longrightarrow> unat x < 4194304"
    and h: "\<And>x. x \<in> set (v # highs) \<Longrightarrow> PAGEDIR_INDEX x = 1" using pages_across [OF r] by blast
  have low: "run_all (allocate_page d) lows s = Some s"
  proof (rule run_all_fixed)
    fix x
    assume "x \<in> set lows"
    note e = identity_map_entry [OF i l [OF this]]
    have "page_present (load32 (mem s) (page_slot table (PAGETBL_INDEX x))) \<noteq> 0"
      using e(3) by (simp add: identity_pte_def)
    then show "allocate_page d x s = Some s" by (rule allocate_page_present [OF e(1,2)])
  qed
  obtain t where t: "allocate_page d v s = Some t" "quiet s t" "wiped d p (mem t)"
    using new_table_wiped [OF i p live b, of v] h by auto
  then have "tx_live t" "unat (bitmap_addr t) + 140288 \<le> unat d" using live b by (auto simp: quiet_def)
  moreover have "unat p + 4096 \<le> 4294967296" using p(3) by simp
  ultimately obtain u where u: "run_all (allocate_page d) highs t = Some u" "quiet t u" "wiped d p (mem u)"
    using run_all_wiped [OF t(3) p(2), of highs] h by auto
  have "unat ?b < 8388608" using r(3) word_and_le2 [of stop "0xFFFFF000"] by (simp add: word_le_nat_alt)
  then have "?b \<noteq> 0xFFFFF000" by auto
  then have "allocate_region d start stop s = run_all (allocate_page d) (region_pages ?a ?b) s"
    by (simp add: allocate_region_def region_loop)
  also have "\<dots> = Some u" unfolding split run_all_append low using t(1) u(1) by simp
  finally show ?thesis using u(2,3) quiet_trans [OF t(2)] by blast
qed

text \<open>A block whose tag and bytes are zeros is lost.\<close>

lemma wiped_block:
  assumes T: "client_of lo T A s" and q: "A q = Some n"
    and z: "\<And>x. unat q \<le> unat x + 32 \<Longrightarrow> unat x < unat (heap_cur s) \<Longrightarrow> mem u x = 0" and l: "heap_lock u = 0"
  shows "contents A u q = Some (replicate (unat n) 0)" "kfree q u = Some u"
proof -
  note k = client_block [OF T q]
  have b: "unat (heap_cur s) < 4294967296" by (rule unat_u32_lt)
  have "mem u (q + of_nat j) = 0" if "j < unat n" for j
  proof (rule z)
    have "unat (q + of_nat j) = unat q + j" using that k(5) b by (intro unat_add_of_nat_u32) simp
    then show "unat q \<le> unat (q + of_nat j) + 32" "unat (q + of_nat j) < unat (heap_cur s)" using that k(5) by simp_all
  qed
  then show "contents A u q = Some (replicate (unat n) 0)" using q by (simp add: contents_def list_eq_iff_nth_eq)
  have "load32 (mem u) (q - 32) = load32 (\<lambda>_. 0) (q - 32)"
  proof (rule load32_cong)
    fix j :: nat
    assume j: "j < 4"
    have "unat (q - 32 + of_nat j) = unat (q - 32) + j" using j k(3,5) b by (intro unat_add_of_nat_u32) simp
    then show "mem u (q - 32 + of_nat j) = 0" using j k(3,5) by (intro z) simp_all
  qed
  then have "tag_get Magic (q - 32) u \<noteq> LIBALLOC_MAGIC" by (simp add: tag_get_def load32_def)
  then show "kfree q u = Some u" using l by (intro kfree_unmarked) simp_all
qed

section \<open>Properties\<close>

text \<open>
  C23. \<^verbatim>\<open>malloc\<close> looks on the list of the request's own size class alone, and what it splits off goes to
  the list of a larger class: while that list is empty, each of \<open>k\<close> requests of at most 32000 bytes
  takes a region of 64 KB of its own, however small the requests are.
\<close>

theorem small_requests_take_regions:
  assumes c: "client A s" and n: "unat n \<le> 32000" and f: "l_initialized s = 0 \<or> l_freePages s (class_of n) = 0"
    and r: "unat (heap_cur s) + unat k * 65536 < min (unat (heap_end s)) 4194304"
  shows "\<exists>s' A'. for_loop_opt 0 k (\<lambda>i s. map_option snd (kmalloc n s)) s = Some s'
    \<and> unat (heap_cur s') = unat (heap_cur s) + unat k * 65536 \<and> client A' s' \<and> A \<subseteq>\<^sub>m A'
    \<and> (\<forall>j < k. A' (heap_cur s + j * 0x10000 + 32) = Some n)"
  using small_requests [OF assms] by blast

theorem small_requests_take_regions_witness:
  "\<exists>s' A'. for_loop_opt 0 44 (\<lambda>i s. map_option snd (kmalloc 100 s)) boot_heap = Some s' \<and> client A' s'
    \<and> unat (heap_cur s') = 0x3F8400 \<and> A' 0x138420 = Some 100 \<and> A' 0x148420 = Some 100"
proof -
  have r: "unat (heap_cur boot_heap) + unat (44 :: u32) * 65536 < min (unat (heap_end boot_heap)) 4194304"
    by (simp add: boot_heap_start)
  have "unat (100 :: u32) \<le> 32000" by simp
  from small_requests_take_regions [OF client_reach [OF boot_heap_start(1)] this disjI1 [OF boot_heap_start(5)] r]
  obtain s' A' where s': "for_loop_opt 0 44 (\<lambda>i s. map_option snd (kmalloc 100 s)) boot_heap = Some s'" "client A' s'"
    "unat (heap_cur s') = 0x3F8400" "\<forall>j < 44. A' (heap_cur boot_heap + j * 0x10000 + 32) = Some 100"
    by (auto simp: boot_heap_start)
  show ?thesis using s'(1-3) s'(4) [THEN spec, of 0] s'(4) [THEN spec, of 1] by (auto simp: boot_heap_start)
qed

text \<open>
  C22. As \<^verbatim>\<open>paging_init\<close> leaves the machine, the placement address lies in the heap.  The first request for pages
  that reaches beyond four megabytes is granted, but building the page table for them clears memory
  from the second page behind the heap's start up to four megabytes: every block there is lost, and the
  tags in front of them, so that giving one back changes nothing.
\<close>

theorem heap_overrun_wipes:
  assumes c: "client A s" and live: "tx_live s" and p: "placementaddr s = kernel_dir s + 0x3400"
    and b: "unat (bitmap_addr s) + 140288 \<le> unat (kernel_dir s)"
    and r: "unat (heap_cur s) < 4194304" "4194304 \<le> unat (heap_cur s) + unat pages * 4096"
      "unat (heap_cur s) + unat pages * 4096 < unat (heap_end s)" "unat (heap_end s) \<le> 8388608"
  shows "\<exists>s'. liballoc_alloc pages (s\<lparr>heap_lock := 1\<rparr>) = Some (heap_cur s, s')
    \<and> (\<forall>q n. A q = Some n \<longrightarrow> unat (kernel_dir s) + 0x5020 \<le> unat q \<longrightarrow>
         contents A s' q = Some (replicate (unat n) 0) \<and> kfree q (s'\<lparr>heap_lock := 0\<rparr>) = Some (s'\<lparr>heap_lock := 0\<rparr>))"
proof -
  let ?d = "kernel_dir s" and ?s = "s\<lparr>heap_lock := 1\<rparr>"
  obtain lo T where T: "client_of lo T A s" using c by (auto simp: client_def)
  then have low: "mapped_below lo s" by (simp add: client_of_def kheap_def)
  then obtain table where i: "identity_map ?d table (mem s)" and d: "unat ?d + 8192 \<le> unat (heap_cur s)"
    by (auto simp: mapped_below_def)
  have al: "?d AND 0xFFF = 0" using i by (simp add: identity_map_def)
  have "page_up (?d + 0x3400) = ?d + 0x4000"
    unfolding page_up_def BLOCK_ALIGN_def page_mask placement_offset [OF al] by simp
  then have up: "page_up (placementaddr ?s) = ?d + 0x4000" using p by simp
  have u: "unat (?d + 0x4000) = unat ?d + 0x4000" using d r(1) by (subst unat_plus_u32) simp_all
  have m: "unat (pages * 0x1000) = unat pages * 4096" using r by (subst unat_mult_u32) simp_all
  have e: "unat (heap_cur s + pages * 0x1000) = unat (heap_cur s) + unat pages * 4096" using r m by (subst unat_plus_u32) simp_all
  have "tx_live ?s" using live by (simp add: tx_live_def tx_ready_def)
  then obtain s1 where s1: "allocate_region ?d (heap_cur s) (heap_cur s + pages * 0x1000) ?s = Some s1" "quiet ?s s1"
    "wiped ?d (?d + 0x4000) (mem s1)"
    using allocate_region_wiped [of ?d table ?s "?d + 0x4000" "heap_cur s" "heap_cur s + pages * 0x1000"] i up u d r e b by auto
  have "sint (heap_cur s + pages * 0x1000) < sint (heap_end s)"
  proof -
    have a: "unat (heap_cur s + pages * 0x1000) < 2147483648" "unat (heap_end s) < 2147483648" using e r by simp_all
    show ?thesis unfolding small_sint [OF a(1)] small_sint [OF a(2)] of_nat_less_iff e by (rule r(3))
  qed
  then have run: "liballoc_alloc pages ?s = Some (heap_cur s, s1\<lparr>heap_cur := heap_cur s + pages * 0x1000\<rparr>)" (is "_ = Some (_, ?u)")
    using s1(1,2) by (simp add: liballoc_alloc_def Let_def add.commute quiet_def)
  have z: "mem ?u x = 0" if "unat ?d + 0x5000 \<le> unat x" "unat x < 4194304" for x
    using s1(3) that u by (simp add: wiped_def)
  have "contents A ?u q = Some (replicate (unat n) 0) \<and> kfree q (?u\<lparr>heap_lock := 0\<rparr>) = Some (?u\<lparr>heap_lock := 0\<rparr>)"
    if q: "A q = Some n" "unat ?d + 0x5020 \<le> unat q" for q n
    using wiped_block [OF T q(1), of "?u\<lparr>heap_lock := 0\<rparr>"] z q(2) r(1) by (simp add: contents_def)
  then show ?thesis using run by blast
qed

text \<open>The request for more pages after 44 requests of 100 bytes in the heap after boot.\<close>

theorem heap_overrun_wipes_witness:
  "\<exists>s A s'. for_loop_opt 0 44 (\<lambda>i s. map_option snd (kmalloc 100 s)) boot_heap = Some s
    \<and> liballoc_alloc 16 (s\<lparr>heap_lock := 1\<rparr>) = Some (0x3F8400, s') \<and> contents A s' 0x148420 = Some (replicate 100 0)"
proof -
  have r: "unat (heap_cur boot_heap) + unat (44 :: u32) * 65536 < min (unat (heap_end boot_heap)) 4194304"
    by (simp add: boot_heap_start)
  have "unat (100 :: u32) \<le> 32000" by simp
  from small_requests [OF client_reach [OF boot_heap_start(1)] this disjI1 [OF boot_heap_start(5)] r]
  obtain s A where s: "for_loop_opt 0 44 (\<lambda>i s. map_option snd (kmalloc 100 s)) boot_heap = Some s"
    "unat (heap_cur s) = 0x3F8400" "setting s = setting boot_heap" "client A s"
    "\<forall>j < 44. A (heap_cur boot_heap + j * 0x10000 + 32) = Some 100" by (auto simp: boot_heap_start)
  have A: "A 0x148420 = Some 100" using s(5) [THEN spec, of 1] by (simp add: boot_heap_start)
  have live: "tx_live s" using boot_heap_live setting_live [OF s(3)] by simp
  have "kernel_dir boot_heap = 0x135000" "placementaddr boot_heap = 0x138400" "bitmap_addr boot_heap = 0x110000"
    using paging_init_result [OF boot_vmm_live]
    by (auto simp: boot_heap_def paged_rise_def rise.defs vmm.defs page_up_def)
  then have v: "kernel_dir s = 0x135000" "placementaddr s = 0x138400" "bitmap_addr s = 0x110000" "heap_end s = 0x538400"
    using s(3) boot_heap_start(3) by (simp_all add: setting_def)
  have "heap_cur s = 0x3F8400" using s(2) by (simp add: word_unat_eq_iff)
  then obtain s' where "liballoc_alloc 16 (s\<lparr>heap_lock := 1\<rparr>) = Some (0x3F8400, s')"
    "\<forall>q n. A q = Some n \<longrightarrow> 0x13A020 \<le> unat q \<longrightarrow> contents A s' q = Some (replicate (unat n) 0)"
    using heap_overrun_wipes [OF s(4) live, of 16] v by auto
  then show ?thesis using s(1) A by fastforce
qed

end
