(* ===== verification/Kernel.thy ===== *)
theory Kernel
  imports Stdio Heap_Limits
begin

text \<open>
  The entry point of the kernel and its self-tests, \<^verbatim>\<open>kernel/kernel/kernel.c\<close>.

  \<^verbatim>\<open>kernel/timer.h\<close> and its code are not in the repository: \<open>timer_install\<close> and \<open>timer_wait\<close> are
  parameters.  So are the addresses of the assembly stubs (\<open>isr\<close>, \<open>irq\<close>) and of the two string
  literals that \<^verbatim>\<open>test_memory\<close> stores.  The endless loop at the end of \<^verbatim>\<open>kernel_main\<close> is the outcome
  \<open>Halts\<close>. The code sets the interrupt flag with \<^verbatim>\<open>sti\<close>; what interrupts do to the state while the
  processor waits is part of the parameter \<open>timer_wait\<close>, and what one interrupt does is the matter of the
  theories \<open>Interrupts\<close>, \<open>Entry\<close> and \<open>Heap_Interrupts\<close>.
\<close>

abbreviation nl :: string where "nl \<equiv> [CHR 0x0A]"

definition test_memory :: "u32 \<Rightarrow> u32 \<Rightarrow> 'a liballoc_scheme \<Rightarrow> 'a liballoc_scheme option" where
  "test_memory lit_A lit_B s =
     do {
       (_, s) \<leftarrow> printf (''Testing memeory manager'' @ nl) [] s;
       s \<leftarrow> qemu_printf (''HELLO WORLD FROM QEMU'' @ nl) [] s;
       s \<leftarrow> for_loop_opt 0 8 (\<lambda>i s. do {
              (frame, s) \<leftarrow> kalloc_page_frame s;
              qemu_printf (''Loaded Page Frame At 0x%p '' @ nl) [frame] s
            }) s;
       s \<leftarrow> qemu_printf (''Testing Heap...'' @ nl) [] s;
       (arr, s) \<leftarrow> kmalloc 10 s;
       let s = for_loop 0 10 (\<lambda>i s. s\<lparr>mem := (mem s)(arr + i := ucast lit_A)\<rparr>) s;
       s \<leftarrow> for_loop_opt 0 10 (\<lambda>i s. qemu_printf (''This is cool 0x%p'' @ nl) [arr + i] s) s;
       s \<leftarrow> qemu_printf (''________________'' @ nl) [] s;
       (arr2, s) \<leftarrow> kmalloc 10 s;
       let s = for_loop 5 10 (\<lambda>i s. s\<lparr>mem := (mem s)(arr2 + i := ucast lit_B)\<rparr>) s;
       s \<leftarrow> for_loop_opt 0 10 (\<lambda>i s. qemu_printf (''This is cool 0x%p'' @ nl) [arr2 + i] s) s;
       s \<leftarrow> kfree arr s;
       kfree arr2 s
     }"

definition test_spinlock :: "'a machine_scheme \<Rightarrow> 'a machine_scheme option" where
  "test_spinlock s =
     do {
       let lock = 0;
       s \<leftarrow> qemu_printf (''Testing Spin Lock'' @ nl) [] s;
       lock \<leftarrow> spin_lock lock;
       s \<leftarrow> qemu_printf (''COOL COOL '' @ nl) [] s;
       let lock = spin_unlock lock;
       Some s
     }"

definition use_all_mem :: "'a liballoc_scheme \<Rightarrow> 'a liballoc_scheme option" where
  "use_all_mem s =
     do {
       s \<leftarrow> qemu_printf (''Let'' @ [CHR 0x27] @ ''s try to exhaust our memory!'' @ nl) [] s;
       s \<leftarrow> for_loop_opt 0 10000 (\<lambda>i s. map_option snd (kmalloc 100 s)) s;
       qemu_printf (''Finished!'' @ nl) [] s
     }"

definition sti :: "'a desc_scheme \<Rightarrow> 'a desc_scheme" where
  "sti s = s\<lparr>iflag := True\<rparr>"

definition kernel_main ::
  "(nat \<Rightarrow> u32) \<Rightarrow> (nat \<Rightarrow> u32) \<Rightarrow> ('a liballoc_scheme \<Rightarrow> 'a liballoc_scheme option) \<Rightarrow>
   (u32 \<Rightarrow> 'a liballoc_scheme \<Rightarrow> 'a liballoc_scheme option) \<Rightarrow>
   'a liballoc_scheme \<Rightarrow> 'a liballoc_scheme outcome option" where
  "kernel_main isr irq timer_install timer_wait s =
     do {
       let s = terminal_initialize s;
       let s = serial_init s;
       s \<leftarrow> gdt_install s;
       let s = idt_install s;
       let s = isrs_install isr s;
       let s = irq_install irq s;
       s \<leftarrow> timer_install s;
       let s = sti s;
       s \<leftarrow> qemu_printf (''Hello, kernel World!'' @ nl) [] s;
       s \<leftarrow> timer_wait 5 s;
       s \<leftarrow> qemu_printf (''WORKS'' @ nl) [] s;
       Some (Halts s)
     }"

section \<open>What the parts leave alone\<close>

text \<open>The state that neither the console nor a timer has a reason to touch.\<close>

definition core_state where
  "core_state s = (gdtr s, cs_sel s, data_sel s, idtr s, idt s, iflag s, cr0 s, port_env s)"

definition heap_state where
  "heap_state s = (heap_cur s, heap_end s, heap_lock s, l_initialized s, l_freePages s)"

lemma printed_core: "printed bs s s' \<Longrightarrow> core_state s' = core_state s \<and> heap_state s' = heap_state s"
  by (auto simp: printed_def core_state_def heap_state_def)

lemma core_live: "core_state s' = core_state s \<Longrightarrow> tx_live s \<Longrightarrow> tx_live s'"
  by (simp add: core_state_def tx_live_def tx_ready_def)

lemma terminal_initialize_frame:
  "\<exists>m. terminal_initialize s = (s\<lparr>terminal_row := 0, terminal_column := 0,
     terminal_color := vga_entry_color VGA_COLOR_LIGHT_GREY VGA_COLOR_BLACK, terminal_buffer := VGA_MEMORY\<rparr>)
       \<lparr>mem := m\<rparr>"
proof -
  have fill: "\<exists>m. for_loop 0 h (\<lambda>y. for_loop 0 w (\<lambda>x s. buffer_store (f x y) (g s) s)) t = t\<lparr>mem := m\<rparr>"
    for h w f g and t :: "'a tty_scheme"
  proof (rule for_loop_rule [where P = "\<lambda>_ u. \<exists>m. u = t\<lparr>mem := m\<rparr>"])
    show "\<exists>m. t = t\<lparr>mem := m\<rparr>" by (rule exI [of _ "mem t"]) simp
    fix y u
    assume u: "\<exists>m. u = t\<lparr>mem := m\<rparr>"
    show "\<exists>m. for_loop 0 w (\<lambda>x s. buffer_store (f x y) (g s) s) u = t\<lparr>mem := m\<rparr>"
      by (rule for_loop_rule [where P = "\<lambda>_ u. \<exists>m. u = t\<lparr>mem := m\<rparr>"])
        (use u in \<open>auto simp: buffer_store_def\<close>)
  qed simp
  show ?thesis unfolding terminal_initialize_def Let_def by (rule fill)
qed

lemma installed_frame:
  "\<exists>p t. irq_install irq (isrs_install isr (idt_install s)) =
     s\<lparr>idtp := \<lparr>idtp_limit = 8 * 256 - 1, idtp_base = idt_addr s\<rparr>,
       idtr := \<lparr>idtp_limit = 8 * 256 - 1, idtp_base = idt_addr s\<rparr>, io := p, idt := t\<rparr>"
proof -
  let ?s = "idt_install s"
  obtain t1 where t1: "isrs_install isr ?s = ?s\<lparr>idt := t1\<rparr>"
    using set_gates_only_idt [of 0 "map isr [0..<32]" ?s] unfolding isrs_install_def by blast
  obtain t2 where t2: "irq_install irq (?s\<lparr>idt := t1\<rparr>) = (irq_remap (?s\<lparr>idt := t1\<rparr>))\<lparr>idt := t2\<rparr>"
    using set_gates_only_idt [of 32 "map irq [0..<16]" "irq_remap (?s\<lparr>idt := t1\<rparr>)"] unfolding irq_install_def by blast
  show ?thesis unfolding t1 t2
    unfolding irq_remap_def outportb_all_eq idt_install_def idt_load_def Let_def
    by (rule exI, rule exI [of _ t2]) simp
qed

section \<open>Properties\<close>


text \<open>A \<^verbatim>\<open>timer_wait\<close> that returns exactly when it finds the machine as stated, and one that never returns.\<close>

definition inspecting :: "u32 \<Rightarrow> 'a liballoc_scheme \<Rightarrow> 'a liballoc_scheme option" where
  "inspecting ticks t =
     (if iflag t \<and> cs_sel t = 0x08 \<and> data_sel t = 0x10 \<and> gate_offset (idt t 14) = 0x1000E0
         \<and> map_option fst (mallocs [10, 2147479520] t) = Some [0, 0]
      then Some t else None)"


text \<open>
  On a live UART the lock test returns after printing its two messages: a free lock is taken,
  and released again.
\<close>

theorem test_spinlock_returns:
  assumes "tx_live s"
  shows "\<exists>n. test_spinlock s = Some (s\<lparr>io := io s @ map (Outb PORT)
    (map of_char (''Testing Spin Lock'' @ nl @ ''COOL COOL '' @ nl)), in_count := n\<rparr>)"
proof -
  have "CHR ''%'' \<notin> set (''Testing Spin Lock'' @ nl)" by simp
  from qemu_printf_message [OF assms this] obtain s1 where s1: "qemu_printf (''Testing Spin Lock'' @ nl) [] s = Some s1"
    "printed (map of_char (''Testing Spin Lock'' @ nl)) s s1" by blast
  have "CHR ''%'' \<notin> set (''COOL COOL '' @ nl)" by simp
  from qemu_printf_message [OF printed_live [OF s1(2) assms] this] obtain s2 where
    s2: "qemu_printf (''COOL COOL '' @ nl) [] s1 = Some s2" "printed (map of_char (''COOL COOL '' @ nl)) s1 s2" by blast
  have "test_spinlock s = Some s2" using s1(1) s2(1) by (simp add: test_spinlock_def spin_lock_eq)
  then show ?thesis using s1(2) s2(2) by (auto simp: printed_def)
qed

theorem test_spinlock_returns_witness:
  "\<exists>s'. test_spinlock early_heap = Some s' \<and> length (io s') = length (io early_heap) + 29"
  using test_spinlock_returns [of early_heap] early_heap_unpaged by (auto simp: heap_unpaged_def)

text \<open>
  Without paging, asking for all memory ends: each of the ten thousand requests is answered with
  the message that the heap is too small, and memory is not touched.
\<close>

abbreviation oom :: string where "oom \<equiv> ''Out of memory: You need a bigger heap pal'' @ nl"

theorem use_all_mem_unpaged:
  assumes "heap_unpaged s"
  shows "\<exists>s'. use_all_mem s = Some s' \<and> mem s' = mem s \<and> heap_unpaged s'
    \<and> io s' = io s @ map (Outb PORT) (map of_char (''Let'' @ [CHR 0x27] @ ''s try to exhaust our memory!'' @ nl
        @ concat (replicate 10000 oom) @ ''Finished!'' @ nl))"
proof -
  let ?first = "''Let'' @ [CHR 0x27] @ ''s try to exhaust our memory!'' @ nl"
  let ?say = "\<lambda>k. concat (replicate k oom)"
  have pr: "\<exists>t'. qemu_printf f [] t = Some t' \<and> mem t' = mem t \<and> heap_unpaged t'
      \<and> io t' = io t @ map (Outb PORT) (map of_char f)" if t: "heap_unpaged t" and f: "CHR ''%'' \<notin> set f" for t :: "'a liballoc_scheme" and f
  proof -
    have "tx_live t" using t by (simp add: heap_unpaged_def)
    from qemu_printf_message [OF this f, of "[]"] show ?thesis
      using t by (auto simp: printed_def heap_unpaged_def no_lists_def)
  qed
  have "CHR ''%'' \<notin> set ?first" by simp
  from pr [OF assms this] obtain s1 where s1: "qemu_printf ?first [] s = Some s1" "mem s1 = mem s" "heap_unpaged s1"
    "io s1 = io s @ map (Outb PORT) (map of_char ?first)" by blast
  define P where "P i t \<longleftrightarrow> heap_unpaged t \<and> mem t = mem s
    \<and> io t = io s1 @ map (Outb PORT) (map of_char (?say (unat i)))" for i :: u32 and t :: "'a liballoc_scheme"
  have "\<exists>t. for_loop_opt 0 10000 (\<lambda>i s. map_option snd (kmalloc 100 s)) s1 = Some t \<and> P 10000 t"
  proof (rule for_loop_opt_rule)
    show "P 0 s1" using s1 by (simp add: P_def)
    fix j t
    assume j: "j < (10000 :: u32)" and t: "P j t"
    obtain t' where t': "kmalloc 100 t = Some (0, t')" "mem t' = mem t" "heap_unpaged t'"
      "io t' = io t @ map (Outb PORT) (map of_char oom)"
      using kmalloc_refused [of t 100] t by (auto simp: P_def)
    have "?say (Suc k) = ?say k @ oom" for k by (induction k) simp_all
    then have "P (j + 1) t'" using t t'(2-4) unat_suc_u32 [OF j] by (simp add: P_def del: replicate.simps)
    then show "\<exists>t'. map_option snd (kmalloc 100 t) = Some t' \<and> P (j + 1) t'" using t'(1) by simp
  qed simp
  then obtain t where t: "for_loop_opt 0 10000 (\<lambda>i s. map_option snd (kmalloc 100 s)) s1 = Some t" "P 10000 t" by blast
  have "CHR ''%'' \<notin> set (''Finished!'' @ nl)" "heap_unpaged t" using t(2) by (simp_all add: P_def)
  from pr [OF this(2,1)] obtain s2 where s2: "qemu_printf (''Finished!'' @ nl) [] t = Some s2" "mem s2 = mem t"
    "heap_unpaged s2" "io s2 = io t @ map (Outb PORT) (map of_char (''Finished!'' @ nl))" by blast
  have "use_all_mem s = Some s2" using s1(1) t(1) s2(1) by (simp add: use_all_mem_def)
  moreover have "io t = io s1 @ map (Outb PORT) (map of_char (?say 10000))" "mem t = mem s"
    using t(2) by (simp_all add: P_def)
  then have "io s2 = io s @ map (Outb PORT) (map of_char (?first @ ?say 10000 @ ''Finished!'' @ nl))" "mem s2 = mem s"
    by (simp_all only: s2(2,4) s1(4) map_append append_assoc)
  ultimately show ?thesis using s2(3) unfolding append_assoc by blast
qed

theorem use_all_mem_unpaged_witness: "\<exists>s'. use_all_mem early_heap = Some s' \<and> mem s' = mem early_heap"
  using use_all_mem_unpaged [OF early_heap_unpaged] by (elim exE conjE) blast

end
