(* ===== verification/Selftest.thy ===== *)
theory Selftest
  imports Kernel Heap_Full
begin

text \<open>
  The kernel's self-tests, \<^verbatim>\<open>kernel/kernel/kernel.c\<close>, on the machine that they exercise: terminal,
  serial line, page frames and heap together.
\<close>

section \<open>What a call of the heap leaves alone\<close>

definition surroundings where
  "surroundings s = (io s, in_count s, port_env s, bitmap_addr s, placementaddr s, kernel_dir s, heap_end s,
     terminal_row s, terminal_column s, terminal_buffer s)"

interpretation kernel_around: page_source liballoc_lock liballoc_unlock "\<lambda>s. heap_lock s \<noteq> 0" heap_cur
  surroundings liballoc_alloc page_room
proof unfold_locales
  fix n and s :: "'a liballoc_scheme"
  assume r: "page_room n s"
  show "\<exists>s'. liballoc_alloc n s = Some (heap_cur s, s') \<and> heap_same s s' \<and> heap_cur s \<noteq> 0
    \<and> unat (heap_cur s') = unat (heap_cur s) + unat n * 4096 \<and> surroundings s' = surroundings s"
    using liballoc_alloc_room [OF r] r by (simp add: heap_same_def page_room_def low_heap_def surroundings_def)
qed (auto simp: liballoc_lock_eq liballoc_unlock_def spin_unlock_def heap_same_def surroundings_def split: if_splits)

text \<open>Everything below the page tables' end, \<open>lo\<close> as in \<open>mapped_below\<close>.\<close>

definition low_kept :: "'a liballoc_scheme \<Rightarrow> 'a liballoc_scheme \<Rightarrow> bool" where
  "low_kept s s' \<longleftrightarrow> surroundings s' = surroundings s
     \<and> (\<exists>lo. mapped_below lo s \<and> same_outside (\<lambda>x. lo \<le> unat x) (mem s) (mem s'))"

lemma low_kept_byte: "low_kept s s' \<Longrightarrow> unat x < unat (kernel_dir s) \<Longrightarrow> mem s' x = mem s x"
  by (auto simp: low_kept_def mapped_below_def same_outside_def)

lemma low_kept_map:
  assumes k: "low_kept s s'" and i: "identity_map (kernel_dir s) table (mem s)"
  shows "identity_map (kernel_dir s') table (mem s')"
proof -
  obtain lo where lo: "mapped_below lo s" "same_outside (\<lambda>x. lo \<le> unat x) (mem s) (mem s')"
    and d: "kernel_dir s' = kernel_dir s" using k by (auto simp: low_kept_def surroundings_def)
  obtain t where t: "identity_map (kernel_dir s) t (mem s)" "unat (kernel_dir s) + 0x2000 \<le> lo" "unat t + 0x1000 \<le> lo"
    "lo \<le> unat (heap_cur s)" using lo(1) by (auto simp: mapped_below_def)
  have e: "t = table" using t(1) i by (simp add: identity_map_def)
  have "unat (heap_cur s) < 4294967296" by (rule unat_u32_lt)
  then show ?thesis unfolding d
    using t by (intro identity_map_kept [OF i lo(2)]) (auto simp: in_region_ordered e)
qed

lemma kmalloc_around:
  assumes "heap_ok (unat (heap_cur s)) T s" "\<not> heap_lock s \<noteq> 0" "page_room (pages_for n) s \<or> served n s" "unat n \<le> 4294900000"
  shows "\<exists>t s1 T'. kmalloc n s = Some (t + 32, s1) \<and> heap_ok (unat (heap_cur s1)) T' s1 \<and> l_initialized s1 \<noteq> 0
    \<and> same_outside (tag_region T') (mem s) (mem s1) \<and> (\<forall>lo. lo \<le> unat (heap_cur s) \<longrightarrow> tags_above lo T \<longrightarrow> tags_above lo T')
    \<and> surroundings s1 = surroundings s"
  using kernel_around.malloc_spec [OF assms] unfolding kmalloc_def by blast

lemma kmalloc_low:
  assumes c: "client A s" and r: "heap_fits n s \<or> served n s" and n: "unat n \<le> 4294900000" and e: "kmalloc n s = Some (p, s')"
  shows "low_kept s s'"
proof -
  obtain lo T where T: "client_of lo T A s" using c by (auto simp: client_def)
  then have h: "heap_ok (unat (heap_cur s)) T s" "\<not> heap_lock s \<noteq> 0" and a: "tags_above lo T" and m: "mapped_below lo s"
    by (simp_all add: client_of_def kheap_def)
  have r': "page_room (pages_for n) s \<or> served n s" using r heap_fits_room [OF m] by blast
  obtain t s1 T' where s1: "kmalloc n s = Some (t + 32, s1)" "heap_ok (unat (heap_cur s1)) T' s1" "l_initialized s1 \<noteq> 0"
    "same_outside (tag_region T') (mem s) (mem s1)" "\<forall>lo. lo \<le> unat (heap_cur s) \<longrightarrow> tags_above lo T \<longrightarrow> tags_above lo T'"
    "surroundings s1 = surroundings s" using kmalloc_around [OF h r' n] by blast
  have "s1 = s'" using s1(1) e by simp
  note s' = s1(2,3,6,4,5) [unfolded this]
  have a': "tags_above lo T'" using s'(5) m a by (auto simp: mapped_below_def)
  have c: "chunks T' (view s')" using s'(1,2) heap_inv_parts(1) by (auto simp: heap_ok_def)
  have above_lo: "lo \<le> unat x" if x: "tag_region T' x" for x
  proof -
    obtain u where u: "u \<in> T'" "in_region u 32 x" using x by (auto simp: tag_region_def)
    have "unat u \<le> unat x" using chunksD(2,3) [OF c u(1)] u(2) in_region_ordered [of u 32 x] by simp
    then show ?thesis using a' u(1) by (force simp: tags_above_def)
  qed
  have "same_outside (\<lambda>x. lo \<le> unat x) (mem s) (mem s')" by (rule same_outside_mono [OF s'(4) above_lo])
  then show ?thesis unfolding low_kept_def using m s'(3) by blast
qed

lemma kfree_low:
  assumes c: "client A s" and p: "p \<in> dom A" and m: "\<And>i. l_completePages s i \<noteq> MAXCOMPLETE" and e: "kfree p s = Some s'"
  shows "low_kept s s'"
proof -
  obtain lo T where T: "client_of lo T A s" using c by (auto simp: client_def)
  then have k: "kheap lo T s" by (simp add: client_of_def)
  obtain n where n: "A p = Some n" using p by auto
  note b = client_block [OF T n]
  have "T \<noteq> {}" using b(2) by (auto simp: allocated_def)
  then have I: "heap_inv T (view s) (l_freePages s)" and l: "\<not> heap_lock s \<noteq> 0" and low: "mapped_below lo s"
    using k by (auto simp: kheap_def heap_ok_def split: if_splits)
  have nz: "(p - 32) + 32 \<noteq> 0" using b(1) by simp
  have "\<exists>s1. kfree p s = Some s1 \<and> same_outside (tag_region T) (mem s) (mem s1) \<and> surroundings s1 = surroundings s"
    using kernel_around.free_spec [OF I b(2) nz l m, where dealloc = liballoc_free] unfolding kfree_def diff_add_cancel
    by (elim exE conjE, intro exI conjI)
  then obtain s1 where s1: "kfree p s = Some s1" "same_outside (tag_region T) (mem s) (mem s1)" "surroundings s1 = surroundings s"
    by (elim exE conjE)
  have "s1 = s'" using s1(1) e by simp
  note s' = s1(2,3) [unfolded this]
  have "same_outside (\<lambda>x. lo \<le> unat x) (mem s) (mem s')" by (rule same_outside_mono [OF s'(1) tag_region_above [OF k]])
  then show ?thesis unfolding low_kept_def using low s'(2) by blast
qed

text \<open>The counters of whole regions.\<close>

lemma insert_tag_counts: "insert_tag t i s = Some s' \<Longrightarrow> l_completePages s' = l_completePages s"
  by (auto simp: insert_tag_def Let_def tag_put_def split: if_splits)

lemma remove_tag_counts: "remove_tag t s = Some s' \<Longrightarrow> l_completePages s' = l_completePages s"
  by (auto simp: remove_tag_def Let_def tag_put_def split: if_splits)

lemma melt_left_counts: "melt_left t s = (u, s') \<Longrightarrow> l_completePages s' = l_completePages s"
  by (auto simp: melt_left_def Let_def tag_put_def split: if_splits)

lemma absorb_right_counts: "absorb_right t s = Some (u, s') \<Longrightarrow> l_completePages s' = l_completePages s"
  by (auto simp: absorb_right_def Let_def tag_put_def bind_eq_Some_conv dest!: remove_tag_counts split: if_splits)

lemma melt_loop_counts_aux: "melt_loop t s = Some x \<Longrightarrow> l_completePages (snd x) = l_completePages s"
proof (induction rule: melt_loop.raw_induct [rotated 1, consumes 1])
  case (1 melt t s x)
  then show ?case 
    by (cases x) (fastforce simp: bind_eq_Some_conv dest!: remove_tag_counts melt_left_counts split: if_splits prod.splits)
qed

lemma absorb_loop_counts_aux: "absorb_loop t s = Some x \<Longrightarrow> l_completePages (snd x) = l_completePages s"
proof (induction rule: absorb_loop.raw_induct [rotated 1, consumes 1])
  case (1 absorb t s x)
  then show ?case 
    by (cases x) (fastforce simp: bind_eq_Some_conv dest!: absorb_right_counts split: if_splits prod.splits)
qed

lemma kfree_counts:
  assumes "\<And>i. l_completePages s i \<noteq> MAXCOMPLETE" "kfree p s = Some s'"
  shows "l_completePages s' i \<in> {l_completePages s i, l_completePages s i + 1}"
  using assms
  by (auto simp: kfree_def free_def liballoc_lock_eq liballoc_unlock_def Let_def bind_eq_Some_conv
      dest!: insert_tag_counts melt_loop_counts_aux absorb_loop_counts_aux split: if_splits)

section \<open>The test bench\<close>

text \<open>
  A machine on which the tests can run: the serial line is live, paging is on, and the bitmap of the
  page frames lies between the screen and the page tables, which lie below the heap.
\<close>

definition bench :: "u32 \<Rightarrow> 'a liballoc_scheme \<Rightarrow> bool" where
  "bench table s \<longleftrightarrow> tx_live s \<and> identity_map (kernel_dir s) table (mem s)
     \<and> 757664 \<le> unat (bitmap_addr s) \<and> unat (bitmap_addr s) + 131072 \<le> unat (kernel_dir s) \<and> unat (bitmap_addr s) + 131072 \<le> unat table"

text \<open>The frames that the bitmap marks.\<close>

definition marks :: "'a pmm_scheme \<Rightarrow> u32 set" where
  "marks s = {j. j < 262144 \<and> ISSET j s}"

lemma bitmap_bucket:
  assumes "j < 262144" "in_region (bucket j s) 4 x" "unat (bitmap_addr s) + 131072 \<le> k" "k < 4294967296"
  shows "unat (bitmap_addr s) \<le> unat x" "unat x < unat (bitmap_addr s) + 131072"
proof -
  have j: "unat j div 8 * 4 + 4 \<le> 131072" using assms(1) by (simp add: word_less_nat_alt)
  then have u: "unat (bucket j s) = unat (bitmap_addr s) + unat j div 8 * 4"
    unfolding bucket_eq using assms(3,4) by (intro unat_add_of_nat_u32) simp
  have "unat (bucket j s) \<le> unat x \<and> unat x < unat (bucket j s) + 4"
    using assms(2-4) u j by (subst (asm) in_region_ordered) simp_all
  then show "unat (bitmap_addr s) \<le> unat x" "unat x < unat (bitmap_addr s) + 131072" using u j by simp_all
qed

lemma marks_same:
  assumes "\<And>x. unat (bitmap_addr s) \<le> unat x \<Longrightarrow> unat x < unat (bitmap_addr s) + 131072 \<Longrightarrow> mem s' x = mem s x"
    and "bitmap_addr s' = bitmap_addr s" "unat (bitmap_addr s) + 131072 < 4294967296"
  shows "marks s' = marks s"
proof -
  have "ISSET j s' = ISSET j s" if j: "j < 262144" for j
  proof -
    have b: "bucket j s' = bucket j s" by (simp add: bucket_def assms(2))
    have "load32 (mem s') (bucket j s) = load32 (mem s) (bucket j s)"
    proof (rule load32_cong)
      fix i :: nat
      assume "i < 4"
      then have r: "in_region (bucket j s) 4 (bucket j s + of_nat i)" by (intro in_region_offset) simp_all
      show "mem s' (bucket j s + of_nat i) = mem s (bucket j s + of_nat i)"
        by (rule assms(1)) (use bitmap_bucket [OF j r order_refl assms(3)] in simp_all)
    qed
    then show ?thesis by (simp add: ISSET_def b)
  qed
  then show ?thesis by (auto simp: marks_def)
qed

text \<open>Calls and writes of the heap keep the bench and the marks.\<close>

lemma low_kept_bench:
  assumes "low_kept s s'" "bench table s" shows "bench table s'" "marks s' = marks s"
proof -
  have v: "surroundings s' = surroundings s" using assms(1) by (simp add: low_kept_def)
  then have "tx_live s'" using assms(2) by (simp add: surroundings_def bench_def tx_live_def tx_ready_def)
  then show "bench table s'"
    using v low_kept_map [OF assms(1)] assms(2) by (auto simp: bench_def surroundings_def)
  have b: "unat (bitmap_addr s) + 131072 \<le> unat (kernel_dir s)" using assms(2) by (simp add: bench_def)
  show "marks s' = marks s"
    by (rule marks_same) (use b v low_kept_byte [OF assms(1)] unat_u32_lt [of "kernel_dir s"] in \<open>auto simp: surroundings_def\<close>)
qed

lemma block_write_low:
  assumes c: "client A s" and p: "A p = Some n" and m: "same_outside R (mem s) m" "\<And>x. R x \<Longrightarrow> unat x \<in> block_bytes p n"
  shows "low_kept s (s\<lparr>mem := m\<rparr>)"
proof -
  obtain lo T where T: "client_of lo T A s" using c by (auto simp: client_def)
  then have k: "kheap lo T s" by (simp add: client_of_def)
  note b = client_block [OF T p]
  have lo: "lo \<le> unat x" if "R x" for x :: u32
  proof -
    have "unat x \<in> user_bytes (view s) (p - 32)" using m(2) [OF that] b(4) by blast
    moreover have "p - 32 \<in> T" using b(2) by (simp add: allocated_def)
    ultimately show ?thesis using k by (force simp: kheap_def tags_above_def user_bytes_def)
  qed
  have "same_outside (\<lambda>x. lo \<le> unat x) (mem s) m" by (rule same_outside_mono [OF m(1) lo])
  moreover have "mapped_below lo s" using k by (simp add: kheap_def)
  ultimately show ?thesis by (auto simp: low_kept_def surroundings_def)
qed

text \<open>A write below the page tables keeps the heap and the bench.\<close>

lemma low_write:
  assumes b: "bench table s" and c: "client A s"
    and m: "same_outside (\<lambda>x. unat x < min (unat (kernel_dir s)) (unat table)) (mem s) m"
  shows "bench table (s\<lparr>mem := m\<rparr>)" "client A (s\<lparr>mem := m\<rparr>)" "contents A (s\<lparr>mem := m\<rparr>) = contents A s"
proof -
  obtain lo T where T: "client_of lo T A s" using c by (auto simp: client_def)
  have i: "identity_map (kernel_dir s) table (mem s)" using b by (simp add: bench_def)
  note w = client_low_write [OF T i _ _ m]
  show "bench table (s\<lparr>mem := m\<rparr>)" using w(3) b by (simp add: bench_def tx_live_def tx_ready_def)
  show "client A (s\<lparr>mem := m\<rparr>)" using w(1) by (auto simp: client_def)
  show "contents A (s\<lparr>mem := m\<rparr>) = contents A s" using contents_same [OF c w(2)] by simp
qed

text \<open>Printing keeps everything but the port traffic.\<close>

definition room_vars where
  "room_vars s = (heap_cur s, heap_end s, l_initialized s, l_completePages s, placementaddr s, kernel_dir s)"

lemma client_same_vars: "heap_vars s' = heap_vars s \<Longrightarrow> mem s' = mem s \<Longrightarrow> client A s' = client A s"
  using client_vars [of s' s] by (simp add: client_def)

lemma printed_keeps:
  assumes "printed bs s s'"
  shows "bench table s' = bench table s" "client A s' = client A s" "contents A s' = contents A s" "marks s' = marks s"
    "room_vars s' = room_vars s" "io s' = io s @ map (Outb PORT) bs" "mem s' = mem s"
proof -
  obtain n where s': "s' = s\<lparr>io := io s @ map (Outb PORT) bs, in_count := n\<rparr>" using assms by (auto simp: printed_def)
  show "bench table s' = bench table s" "room_vars s' = room_vars s" "io s' = io s @ map (Outb PORT) bs"
    "mem s' = mem s" by (simp_all add: s' bench_def room_vars_def tx_live_def tx_ready_def)
  show "contents A s' = contents A s" by (rule contents_vars) (simp add: s')
  show "client A s' = client A s" by (rule client_same_vars) (simp_all add: s' heap_vars_def)
  show "marks s' = marks s" by (simp add: s' marks_def ISSET_def bucket_def)
qed

section \<open>The stages of the tests\<close>

text \<open>One line without a newline on the screen.\<close>

lemma tty_puts_line:
  "on_screen s \<Longrightarrow> terminal_buffer s = VGA_MEMORY \<Longrightarrow> 0x0A \<notin> set bs \<Longrightarrow>
   \<exists>m r c. tty_puts bs s = s\<lparr>mem := m, terminal_row := r, terminal_column := c\<rparr>
     \<and> same_outside (\<lambda>x. unat x < 757664) (mem s) m"
proof (induction bs arbitrary: s)
  case Nil
  have "s = s\<lparr>mem := mem s, terminal_row := terminal_row s, terminal_column := terminal_column s\<rparr>" by simp
  then show ?case by (metis tty_puts.simps(1) same_outside_refl)
next
  case (Cons b bs)
  let ?s = "terminal_putchar b s"
  have b: "b \<noteq> 0x0A" "0x0A \<notin> set bs" using Cons.prems(3) by auto
  note f = terminal_putchar_frame [OF Cons.prems(1), of b]
  obtain m r c where IH: "tty_puts bs ?s = ?s\<lparr>mem := m, terminal_row := r, terminal_column := c\<rparr>"
    "same_outside (\<lambda>x. unat x < 757664) (mem ?s) m"
    using Cons.IH [OF f(2) _ b(2)] f(4) Cons.prems(2) by auto
  have eq: "?s\<lparr>mem := m, terminal_row := r, terminal_column := c\<rparr> = s\<lparr>mem := m, terminal_row := r, terminal_column := c\<rparr>"
    by (simp add: terminal_putchar_def terminal_putentryat_def buffer_store_def Let_def)
  have "same_outside (\<lambda>x. unat x < 757664) (mem s) (mem ?s)"
    unfolding f(1)
  proof (rule same_outside_store16)
    fix x
    assume "in_region (cell (terminal_buffer s) (cursor s)) 2 x"
    then have "in_region VGA_MEMORY (2000 * 2) x"
      using cell_in_region [of VGA_MEMORY "cursor s" x 2000] cursor_word(2) [OF Cons.prems(1)] Cons.prems(2) by simp
    then show "unat x < 757664" by (subst (asm) in_region_ordered) simp_all
  qed
  then have "same_outside (\<lambda>x. unat x < 757664) (mem s) m" using IH(2) by (rule same_outside_trans)
  then show ?case using b(1) IH(1) eq by auto
qed

lemma printf_line:
  assumes s: "on_screen s" "terminal_buffer s = VGA_MEMORY" and f: "CHR ''%'' \<notin> set f" "0x0A \<notin> set (lit f)" "length f < 2000"
  shows "\<exists>n m r c. printf (f @ [CHR 0x0A]) [] s = Some (n, s\<lparr>mem := m, terminal_row := r, terminal_column := c\<rparr>)
    \<and> same_outside (\<lambda>x. unat x < 757664) (mem s) m"
proof -
  from tty_puts_line [OF s f(2)] obtain m r c where
    t: "tty_puts (lit f) s = s\<lparr>mem := m, terminal_row := r, terminal_column := c\<rparr>" "same_outside (\<lambda>x. unat x < 757664) (mem s) m" by blast
  have "printf_text (f @ [CHR 0x0A]) [] = Some (lit f @ [0x0A])"
    using printf_text_plain [OF f(1), of "[CHR 0x0A]" "[]"] by simp
  then have "printf (f @ [CHR 0x0A]) [] s = Some (of_nat (length (lit f @ [0x0A])), tty_puts (lit f @ [0x0A]) s)"
    using printf_loop_text [of "f @ [CHR 0x0A]" "[]" "lit f @ [0x0A]" 0 s] f(3) by (simp add: printf_def lit_def)
  moreover have "tty_puts (lit f @ [0x0A]) s = s\<lparr>mem := m, terminal_row := r + 1, terminal_column := 0\<rparr>"
    by (simp add: t(1) terminal_newline_def)
  ultimately show ?thesis using t(2) by (intro exI conjI) simp_all
qed

text \<open>The bytes that an interrupted loop of writes stores into a block.\<close>

lemma fill_block:
  assumes c: "client A s" "A p = Some 10" and l: "lo \<le> 10"
  shows "\<exists>m. for_loop lo 10 (\<lambda>i s. s\<lparr>mem := (mem s)(p + i := v)\<rparr>) s = s\<lparr>mem := m\<rparr>
    \<and> same_outside (\<lambda>x. unat x \<in> block_bytes p 10) (mem s) m"
proof (rule for_loop_rule [OF l, where P = "\<lambda>_ u. \<exists>m. u = s\<lparr>mem := m\<rparr> \<and> same_outside (\<lambda>x. unat x \<in> block_bytes p 10) (mem s) m"])
  show "\<exists>m. s = s\<lparr>mem := m\<rparr> \<and> same_outside (\<lambda>x. unat x \<in> block_bytes p 10) (mem s) m"
    by (intro exI [of _ "mem s"]) simp
  fix j and u :: "'a liballoc_scheme"
  assume "lo \<le> j" and j: "j < 10" and "\<exists>m. u = s\<lparr>mem := m\<rparr> \<and> same_outside (\<lambda>x. unat x \<in> block_bytes p 10) (mem s) m"
  then obtain m where u: "u = s\<lparr>mem := m\<rparr>" "same_outside (\<lambda>x. unat x \<in> block_bytes p 10) (mem s) m" by blast
  have "unat (p + of_nat (unat j)) \<in> block_bytes p 10"
    using j by (intro client_byte [OF c]) (simp add: word_less_nat_alt)
  then have "same_outside (\<lambda>x. unat x \<in> block_bytes p 10) (mem s) (m(p + j := v))"
    using u(2) by (auto simp: same_outside_def)
  then show "\<exists>m. u\<lparr>mem := (mem u)(p + j := v)\<rparr> = s\<lparr>mem := m\<rparr> \<and> same_outside (\<lambda>x. unat x \<in> block_bytes p 10) (mem s) m"
    unfolding u(1) by auto
qed

text \<open>The lines that the tests print.\<close>

definition loaded_line :: "u32 \<Rightarrow> u8 list" where
  "loaded_line a = map of_char ''Loaded Page Frame At 0x'' @ number_text 16 (unat a) @ map of_char ('' '' @ nl)"

definition cool_line :: "u32 \<Rightarrow> u8 list" where
  "cool_line a = map of_char ''This is cool 0x'' @ number_text 16 (unat a) @ map of_char nl"

lemma render_lines:
  "render m (''Loaded Page Frame At 0x%p '' @ nl) [a] = Some (loaded_line a)"
  "render m (''This is cool 0x%p'' @ nl) [a] = Some (cool_line a)"
  by (simp_all add: loaded_line_def cool_line_def conv_text_def)

lemma print_addresses:
  assumes "bench table s"
  shows "\<exists>s'. for_loop_opt 0 10 (\<lambda>i s. qemu_printf (''This is cool 0x%p'' @ nl) [p + i] s) s = Some s'
    \<and> printed (concat (map (\<lambda>i. cool_line (p + of_nat i)) [0 ..< 10])) s s'"
proof -
  let ?P = "\<lambda>(i :: u32) u. printed (concat (map (\<lambda>i. cool_line (p + of_nat i)) [0 ..< unat i])) s u"
  have "\<exists>s'. for_loop_opt 0 10 (\<lambda>i s. qemu_printf (''This is cool 0x%p'' @ nl) [p + i] s) s = Some s' \<and> ?P 10 s'"
  proof (rule for_loop_opt_rule [where P = ?P])
    have "s = s\<lparr>io := io s, in_count := in_count s\<rparr>" by simp
    then show "?P 0 s" unfolding printed_def by (intro exI [of _ "in_count s"]) simp
    fix j :: u32 and u
    assume j: "j < 10" and P: "?P j u"
    have "tx_live u" using assms printed_live [OF P] by (simp add: bench_def)
    from qemu_printf_printed [OF this render_lines(2)] obtain u' where
      u': "qemu_printf (''This is cool 0x%p'' @ nl) [p + j] u = Some u'" "printed (cool_line (p + j)) u u'" by blast
    have "?P (j + 1) u'" using P u'(2) unat_suc_u32 [OF j] by (auto simp: printed_def)
    then show "\<exists>u'. qemu_printf (''This is cool 0x%p'' @ nl) [p + j] u = Some u' \<and> ?P (j + 1) u'" using u'(1) by blast
  qed simp
  then show ?thesis by simp
qed

text \<open>One page frame: the lowest free bit of the bitmap is set.\<close>

definition lowest_free :: "nat \<Rightarrow> 'a pmm_scheme \<Rightarrow> u32 list \<Rightarrow> bool" where
  "lowest_free k s F \<longleftrightarrow> length F = k \<and> sorted_wrt (<) F \<and> set F \<subseteq> {j. j < 262144} - marks s
     \<and> (\<forall>f \<in> set F. \<forall>j < f. j \<in> marks s \<union> set F)"

definition at_frame :: "u32 \<Rightarrow> (u32 \<rightharpoonup> u32) \<Rightarrow> 'a liballoc_scheme \<Rightarrow> 'a liballoc_scheme \<Rightarrow> bool" where
  "at_frame table A s s' \<longleftrightarrow> bench table s' \<and> client A s' \<and> contents A s' = contents A s \<and> room_vars s' = room_vars s"

lemma kalloc_step:
  assumes b: "bench table s" and c: "client A s" and free: "{j. j < 262144} - marks s \<noteq> {}"
  shows "\<exists>i s'. kalloc_page_frame s = Some (frame_address (placementaddr s) i, s') \<and> i < 262144 \<and> i \<notin> marks s
    \<and> (\<forall>j < i. j \<in> marks s) \<and> marks s' = insert i (marks s) \<and> at_frame table A s s' \<and> io s' = io s"
proof (cases s rule: kalloc_page_frame_cases)
  case (frame i)
  obtain k where k: "k < 262144" "k \<notin> marks s" using free by auto
  have "i \<le> k" using frame(3) [of k] k by (auto simp: marks_def not_less [symmetric])
  then have i: "i < 262144" using k(1) by simp
  have m: "marks (SETBIT i s) = insert i (marks s)" using i by (auto simp: marks_def ISSET_SETBIT)
  define m' where "m' = store32 (mem s) (bucket i s) (load32 (mem s) (bucket i s) OR push_bit (unat (i mod BLOCKS_PER_BUCKET)) 1)"
  have e: "SETBIT i s = s\<lparr>mem := m'\<rparr>" by (simp add: SETBIT_def m'_def)
  have d: "unat (bitmap_addr s) + 131072 \<le> unat (kernel_dir s)" "unat (bitmap_addr s) + 131072 \<le> unat table"
    using b by (simp_all add: bench_def)
  have "same_outside (\<lambda>x. unat x < min (unat (kernel_dir s)) (unat table)) (mem s) m'"
    unfolding m'_def
  proof (rule same_outside_store32)
    fix x
    assume "in_region (bucket i s) 4 x"
    from bitmap_bucket(2) [OF i this d(1) unat_u32_lt] d show "unat x < min (unat (kernel_dir s)) (unat table)" by simp
  qed
  from low_write [OF b c this] have "at_frame table A s (SETBIT i s)" by (simp add: at_frame_def e room_vars_def)
  moreover have "j \<in> marks s" if "j < i" for j using frame(3) [OF that] that i by (simp add: marks_def)
  ultimately show ?thesis using frame(2,4) i m by (intro exI [of _ i] exI [of _ "SETBIT i s"]) (simp add: marks_def e)
next
  case full
  have "ISSET j s" if "j < 262144" for j by (rule full(1)) (use that in \<open>simp add: word_less_nat_alt\<close>)
  then show ?thesis using free unfolding marks_def by blast
qed

text \<open>The loop that loads frames, at a state \<open>u\<close> after \<open>k\<close> of them.\<close>

definition frames_loaded :: "u32 \<Rightarrow> (u32 \<rightharpoonup> u32) \<Rightarrow> 'a liballoc_scheme \<Rightarrow> nat \<Rightarrow> u32 list \<Rightarrow> 'a liballoc_scheme \<Rightarrow> bool" where
  "frames_loaded table A s k F u \<longleftrightarrow> lowest_free k s F \<and> marks u = marks s \<union> set F \<and> at_frame table A s u
     \<and> io u = io s @ map (Outb PORT) (concat (map (\<lambda>i. loaded_line (frame_address (placementaddr s) i)) F))"

lemma lowest_free_add:
  assumes F: "lowest_free k s F" and i: "i < 262144" "i \<notin> marks s \<union> set F" "\<forall>j < i. j \<in> marks s \<union> set F"
  shows "lowest_free (Suc k) s (F @ [i])"
proof -
  have "f < i" if f: "f \<in> set F" for f
  proof (rule ccontr)
    assume "\<not> f < i"
    then have "i = f \<or> i < f" by auto
    then have "i \<in> marks s \<union> set F" using f F by (auto simp: lowest_free_def)
    then show False using i(2) by simp
  qed
  then show ?thesis using F i by (auto simp: lowest_free_def sorted_wrt_append)
qed

lemma load_frame:
  assumes F: "frames_loaded table A s k F u" and k: "k < card ({j. j < 262144} - marks s)"
  shows "\<exists>i w. (do {
              (frame, s) \<leftarrow> kalloc_page_frame u;
              qemu_printf (''Loaded Page Frame At 0x%p '' @ nl) [frame] s
            }) = Some w \<and> frames_loaded table A s (Suc k) (F @ [i]) w"
proof -
  let ?line = "\<lambda>i. loaded_line (frame_address (placementaddr s) i)"
  have u: "bench table u" "client A u" "placementaddr u = placementaddr s" "marks u = marks s \<union> set F"
    using F by (simp_all add: frames_loaded_def at_frame_def room_vars_def)
  have "{j. j < 262144} - marks u \<noteq> {}"
  proof
    assume "{j. j < 262144} - marks u = {}"
    then have "{j. j < 262144} - marks s \<subseteq> set F" using u(4) by blast
    from card_mono [OF finite_set this] show False
      using F k card_length [of F] by (simp add: frames_loaded_def lowest_free_def)
  qed
  from kalloc_step [OF u(1,2) this] obtain i v where i: "kalloc_page_frame u = Some (frame_address (placementaddr s) i, v)"
    "i < 262144" "i \<notin> marks u" "\<forall>j < i. j \<in> marks u" "marks v = insert i (marks u)" "at_frame table A u v" "io v = io u"
    unfolding u(3) by blast
  have "tx_live v" using i(6) by (simp add: at_frame_def bench_def)
  from qemu_printf_printed [OF this render_lines(1)] obtain w where
    w: "qemu_printf (''Loaded Page Frame At 0x%p '' @ nl) [frame_address (placementaddr s) i] v = Some w"
    "printed (?line i) v w" by blast
  note k = printed_keeps [OF w(2)]
  have "lowest_free (Suc k) s (F @ [i])"
    by (rule lowest_free_add) (use F i(2-4) u(4) in \<open>auto simp: frames_loaded_def\<close>)
  moreover have "at_frame table A s w" using i(6) F k by (simp add: at_frame_def frames_loaded_def)
  moreover have "io w = io s @ map (Outb PORT) (concat (map ?line (F @ [i])))" using k(6) i(7) F by (simp add: frames_loaded_def)
  ultimately have "frames_loaded table A s (Suc k) (F @ [i]) w" using i(5) u(4) k(4) by (auto simp: frames_loaded_def)
  then show ?thesis using i(1) w(1) by (intro exI [of _ i] exI [of _ w]) simp
qed

lemma load_frames:
  assumes b: "bench table s" and c: "client A s" and free: "8 \<le> card ({j. j < 262144} - marks s)"
  shows "\<exists>s' F. for_loop_opt 0 8 (\<lambda>i s. do {
              (frame, s) \<leftarrow> kalloc_page_frame s;
              qemu_printf (''Loaded Page Frame At 0x%p '' @ nl) [frame] s
            }) s = Some s' \<and> frames_loaded table A s 8 F s'"
proof -
  let ?P = "\<lambda>(k :: u32) u. \<exists>F. frames_loaded table A s (unat k) F u"
  have "\<exists>s'. for_loop_opt 0 8 (\<lambda>i s. do {
              (frame, s) \<leftarrow> kalloc_page_frame s;
              qemu_printf (''Loaded Page Frame At 0x%p '' @ nl) [frame] s
            }) s = Some s' \<and> ?P 8 s'"
  proof (rule for_loop_opt_rule [where P = ?P])
    show "?P 0 s" using b c by (intro exI [of _ "[]"]) (simp add: frames_loaded_def lowest_free_def at_frame_def)
    fix j :: u32 and u
    assume j: "j < 8" and "?P j u"
    then obtain F where F: "frames_loaded table A s (unat j) F u" by blast
    have "unat j < card ({j. j < 262144} - marks s)" using j free by (simp add: word_less_nat_alt)
    from load_frame [OF F this] show "\<exists>w. (do { (frame, s) \<leftarrow> kalloc_page_frame u;
         qemu_printf (''Loaded Page Frame At 0x%p '' @ nl) [frame] s }) = Some w \<and> ?P (j + 1) w"
      unfolding unat_suc_u32 [OF j] by blast
  qed simp
  then show ?thesis by auto
qed

text \<open>One exercise of the heap: a block of ten bytes is taken, written from index \<open>i\<close> on, and its addresses printed.\<close>

lemma same_blocks_fewer: "A \<subseteq>\<^sub>m B \<Longrightarrow> same_blocks B s s' \<Longrightarrow> same_blocks A s s'"
  by (auto simp: same_blocks_def map_le_def dom_def)

lemma exercise_block:
  assumes b: "bench table s" and c: "client A s" and f: "unat (heap_cur s) + 65536 < min (unat (heap_end s)) 4194304"
    and i: "i \<le> 10"
  shows "\<exists>p s1 s2. kmalloc 10 s = Some (p, s1)
    \<and> for_loop_opt 0 10 (\<lambda>i s. qemu_printf (''This is cool 0x%p'' @ nl) [p + i] s)
        (for_loop i 10 (\<lambda>i s. s\<lparr>mem := (mem s)(p + i := v)\<rparr>) s1) = Some s2
    \<and> A p = None \<and> bench table s2 \<and> client (A(p \<mapsto> 10)) s2 \<and> same_blocks A s s2 \<and> marks s2 = marks s
    \<and> unat (heap_cur s2) \<le> unat (heap_cur s) + 65536 \<and> heap_end s2 = heap_end s \<and> l_initialized s2 \<noteq> 0
    \<and> counts_kept (if l_initialized s = 0 then \<lambda>_. 0 else l_completePages s) (l_completePages s2)
    \<and> io s2 = io s @ map (Outb PORT) (concat (map (\<lambda>i. cool_line (p + of_nat i)) [0 ..< 10]))"
proof -
  have r: "heap_fits 10 s \<or> served 10 s" using f by (simp add: heap_fits_def pages_for_small)
  have n: "unat (10 :: u32) \<le> 4294900000" by simp
  let ?C = "if l_initialized s = 0 then \<lambda>_. 0 else l_completePages s"
  obtain p s1 where s1: "kmalloc 10 s = Some (p, s1)" "A p = None" "client (A(p \<mapsto> 10)) s1" "same_blocks A s s1" "grows 10 s s1"
    "counts_kept ?C (l_completePages s1)" using client_kmalloc [OF c r n] by blast
  note low = kmalloc_low [OF c r n s1(1)]
  have Ap: "(A(p \<mapsto> 10)) p = Some 10" by simp
  obtain m where m: "for_loop i 10 (\<lambda>i s. s\<lparr>mem := (mem s)(p + i := v)\<rparr>) s1 = s1\<lparr>mem := m\<rparr>"
    "same_outside (\<lambda>x. unat x \<in> block_bytes p 10) (mem s1) m" using fill_block [OF s1(3) Ap i] by blast
  let ?s = "s1\<lparr>mem := m\<rparr>"
  note w = client_write [OF s1(3) Ap m(2)] and lw = block_write_low [OF s1(3) Ap m(2)]
  note b1 = low_kept_bench [OF low b] and b2 = low_kept_bench [OF lw low_kept_bench(1) [OF low b]]
  obtain s2 where s2: "for_loop_opt 0 10 (\<lambda>i s. qemu_printf (''This is cool 0x%p'' @ nl) [p + i] s) ?s = Some s2"
    "printed (concat (map (\<lambda>i. cool_line (p + of_nat i)) [0 ..< 10])) ?s s2" using print_addresses [OF b2(1)] by blast
  note k = printed_keeps [OF s2(2)]
  have e: "(A(p \<mapsto> 10))(p := None) = A" using s1(2) by auto
  have "same_blocks A s1 ?s" using w(2) unfolding e .
  then have "same_blocks A s ?s" by (rule same_blocks_trans [OF s1(4)])
  then have "same_blocks A s s2" using k(7) by (simp add: same_blocks_def)
  moreover have "room_vars s2 = room_vars s1" using k(5) by (simp add: room_vars_def)
  then have v: "heap_cur s2 = heap_cur s1" "heap_end s2 = heap_end s1" "l_initialized s2 = l_initialized s1"
    "l_completePages s2 = l_completePages s1" by (simp_all add: room_vars_def)
  moreover have "l_initialized s2 \<noteq> 0" using client_initialized [OF s1(3), of p] v(3) by simp
  moreover have "io s1 = io s" using low by (simp add: low_kept_def surroundings_def)
  then have "io s2 = io s @ map (Outb PORT) (concat (map (\<lambda>i. cool_line (p + of_nat i)) [0 ..< 10]))" using k(6) by simp
  moreover have "bench table s2" "marks s2 = marks s" using k b1 b2 by simp_all
  moreover have "client (A(p \<mapsto> 10)) s2" unfolding k(2) by (rule w(1))
  moreover have "unat (heap_cur s2) \<le> unat (heap_cur s) + 65536" "heap_end s2 = heap_end s"
    using s1(5) v by (simp_all add: grows_def pages_for_small)
  moreover have "counts_kept ?C (l_completePages s2)" using s1(6) v by simp
  moreover have "for_loop_opt 0 10 (\<lambda>i s. qemu_printf (''This is cool 0x%p'' @ nl) [p + i] s)
        (for_loop i 10 (\<lambda>i s. s\<lparr>mem := (mem s)(p + i := v)\<rparr>) s1) = Some s2" using s2(1) unfolding m(1) .
  ultimately show ?thesis using s1(1,2) by (intro exI [of _ p] exI [of _ s1] exI [of _ s2] conjI)
qed

text \<open>The greeting on the screen.\<close>

lemma greeting:
  assumes b: "bench table s" and c: "client A s" and v: "on_screen s" "terminal_buffer s = VGA_MEMORY"
  shows "\<exists>n s'. printf (''Testing memeory manager'' @ nl) [] s = Some (n, s') \<and> at_frame table A s s' \<and> marks s' = marks s
    \<and> io s' = io s \<and> l_initialized s' = l_initialized s \<and> l_completePages s' = l_completePages s"
proof -
  have "CHR ''%'' \<notin> set ''Testing memeory manager''" "0x0A \<notin> set (lit ''Testing memeory manager'')"
    "length ''Testing memeory manager'' < 2000" by (simp_all add: lit_def)
  from printf_line [OF v this] obtain n m r k where
    e: "printf (''Testing memeory manager'' @ nl) [] s = Some (n, s\<lparr>mem := m, terminal_row := r, terminal_column := k\<rparr>)"
    and m: "same_outside (\<lambda>x. unat x < 757664) (mem s) m" by blast
  let ?s = "s\<lparr>mem := m\<rparr>" and ?s' = "s\<lparr>mem := m, terminal_row := r, terminal_column := k\<rparr>"
  have d: "757664 \<le> unat (bitmap_addr s)" "unat (bitmap_addr s) + 131072 \<le> unat (kernel_dir s)"
    "unat (bitmap_addr s) + 131072 \<le> unat table" using b by (simp_all add: bench_def)
  have "same_outside (\<lambda>x. unat x < min (unat (kernel_dir s)) (unat table)) (mem s) m"
    by (rule same_outside_mono [OF m]) (use d in simp)
  note w = low_write [OF b c this]
  have "heap_vars ?s' = heap_vars ?s" "mem ?s' = mem ?s" by (simp_all add: heap_vars_def)
  from client_same_vars [OF this] have "client A ?s'" using w(2) by blast
  moreover have "contents A ?s' = contents A ?s" by (rule contents_vars) simp
  moreover have "bench table ?s'" using w(1) by (simp add: bench_def tx_live_def tx_ready_def)
  moreover have "marks ?s' = marks s"
    by (rule marks_same) (use m d unat_u32_lt [of "kernel_dir s"] in \<open>auto simp: same_outside_def\<close>)
  ultimately show ?thesis using e w(3) by (intro exI [of _ n] exI [of _ ?s']) (simp add: at_frame_def room_vars_def)
qed

text \<open>The lines of the whole run, with the frames \<open>F\<close> and the blocks \<open>a\<close> and \<open>b\<close>.\<close>

definition test_lines :: "u32 \<Rightarrow> u32 list \<Rightarrow> u32 \<Rightarrow> u32 \<Rightarrow> u8 list" where
  "test_lines p F a b = map of_char (''HELLO WORLD FROM QEMU'' @ nl) @ concat (map (\<lambda>i. loaded_line (frame_address p i)) F)
     @ map of_char (''Testing Heap...'' @ nl) @ concat (map (\<lambda>i. cool_line (a + of_nat i)) [0 ..< 10])
     @ map of_char (''________________'' @ nl) @ concat (map (\<lambda>i. cool_line (b + of_nat i)) [0 ..< 10])"

lemma kfree_step:
  assumes "bench table s" "client A s" "p \<in> dom A" "\<And>i. l_completePages s i \<noteq> MAXCOMPLETE"
  shows "\<exists>s'. kfree p s = Some s' \<and> client (A(p := None)) s' \<and> same_blocks A s s' \<and> bench table s'
    \<and> marks s' = marks s \<and> io s' = io s \<and> (\<forall>i. l_completePages s' i \<in> {l_completePages s i, l_completePages s i + 1})"
proof -
  obtain s' where s': "kfree p s = Some s'" "client (A(p := None)) s'" "same_blocks A s s'"
    using client_kfree [OF assms(2-4)] by blast
  note low = kfree_low [OF assms(2-4) s'(1)]
  have "l_completePages s' i \<in> {l_completePages s i, l_completePages s i + 1}" for i
    by (rule kfree_counts [OF assms(4) s'(1)])
  moreover have "io s' = io s" using low by (simp add: low_kept_def surroundings_def)
  ultimately show ?thesis using s' low_kept_bench [OF low assms(1)] by blast
qed

lemma message_step:
  assumes "bench table s" "CHR ''%'' \<notin> set f"
  shows "\<exists>s'. qemu_printf f [] s = Some s' \<and> printed (map of_char f) s s'"
  using qemu_printf_message [of s f "[]"] assms by (simp add: bench_def)

text \<open>The two halves of the test: the frames, and the blocks of the heap.\<close>

lemma test_frames:
  assumes b: "bench table s" and c: "client A s" and v: "on_screen s" "terminal_buffer s = VGA_MEMORY"
    and free: "8 \<le> card ({j. j < 262144} - marks s)"
  shows "\<exists>n s1 s2 s3 s4 F. printf (''Testing memeory manager'' @ nl) [] s = Some (n, s1)
    \<and> qemu_printf (''HELLO WORLD FROM QEMU'' @ nl) [] s1 = Some s2
    \<and> for_loop_opt 0 8 (\<lambda>i s. do {
              (frame, s) \<leftarrow> kalloc_page_frame s;
              qemu_printf (''Loaded Page Frame At 0x%p '' @ nl) [frame] s
            }) s2 = Some s3
    \<and> qemu_printf (''Testing Heap...'' @ nl) [] s3 = Some s4 \<and> lowest_free 8 s F \<and> marks s4 = marks s \<union> set F
    \<and> at_frame table A s s4 \<and> io s4 = io s @ map (Outb PORT) (map of_char (''HELLO WORLD FROM QEMU'' @ nl)
        @ concat (map (\<lambda>i. loaded_line (frame_address (placementaddr s) i)) F) @ map of_char (''Testing Heap...'' @ nl))"
proof -
  obtain n s1 where s1: "printf (''Testing memeory manager'' @ nl) [] s = Some (n, s1)" "at_frame table A s s1" "marks s1 = marks s"
    "io s1 = io s" using greeting [OF b c v] by blast
  have "bench table s1" using s1(2) by (simp add: at_frame_def)
  from message_step [OF this, of "''HELLO WORLD FROM QEMU'' @ nl"] obtain s2 where
    s2: "qemu_printf (''HELLO WORLD FROM QEMU'' @ nl) [] s1 = Some s2"
    "printed (map of_char (''HELLO WORLD FROM QEMU'' @ nl)) s1 s2" by auto
  note k2 = printed_keeps [OF s2(2)]
  have a2: "bench table s2" "client A s2" "8 \<le> card ({j. j < 262144} - marks s2)"
    "placementaddr s2 = placementaddr s" using s1 k2 free by (simp_all add: at_frame_def room_vars_def)
  obtain s3 F where s3: "for_loop_opt 0 8 (\<lambda>i s. do {
              (frame, s) \<leftarrow> kalloc_page_frame s;
              qemu_printf (''Loaded Page Frame At 0x%p '' @ nl) [frame] s
            }) s2 = Some s3" "frames_loaded table A s2 8 F s3"
    using load_frames [OF a2(1-3)] by blast
  have "bench table s3" using s3(2) by (simp add: at_frame_def frames_loaded_def)
  from message_step [OF this, of "''Testing Heap...'' @ nl"] obtain s4 where
    s4: "qemu_printf (''Testing Heap...'' @ nl) [] s3 = Some s4" "printed (map of_char (''Testing Heap...'' @ nl)) s3 s4" by auto
  note k4 = printed_keeps [OF s4(2)]
  have "lowest_free 8 s F" "marks s4 = marks s \<union> set F" "at_frame table A s s4"
    using s3(2) s1(2,3) k2 k4 by (simp_all add: frames_loaded_def lowest_free_def at_frame_def)
  moreover have "io s4 = io s @ map (Outb PORT) (map of_char (''HELLO WORLD FROM QEMU'' @ nl)
      @ concat (map (\<lambda>i. loaded_line (frame_address (placementaddr s) i)) F) @ map of_char (''Testing Heap...'' @ nl))"
    using s3(2) unfolding k4(6) frames_loaded_def a2(4) k2(6) s1(4) by simp
  ultimately show ?thesis using s1(1) s2(1) s3(1) s4(1) by (intro exI conjI)
qed

lemma release_both:
  assumes s: "bench table s" "client (A(p \<mapsto> n, q \<mapsto> k)) s" "p \<noteq> q" "A p = None" "A q = None"
    and cnt: "\<And>i. l_completePages s i \<notin> {4, 5}"
  shows "\<exists>t u. kfree p s = Some t \<and> kfree q t = Some u \<and> client A u \<and> same_blocks A s u \<and> marks u = marks s \<and> io u = io s"
proof -
  let ?B = "A(p \<mapsto> n, q \<mapsto> k)"
  have m: "l_completePages s i \<noteq> MAXCOMPLETE" for i using cnt [of i] by simp
  have "p \<in> dom ?B" by simp
  from kfree_step [OF s(1,2) this m] obtain t where t: "kfree p s = Some t" "client (?B(p := None)) t" "same_blocks ?B s t"
    "bench table t" "marks t = marks s" "io t = io s" "\<forall>i. l_completePages t i \<in> {l_completePages s i, l_completePages s i + 1}"
    by blast
  have m': "l_completePages t i \<noteq> MAXCOMPLETE" for i using cnt [of i] t(7) [THEN spec, of i] by auto
  have "q \<in> dom (?B(p := None))" using s(3) by simp
  from kfree_step [OF t(4,2) this m'] obtain u where u: "kfree q t = Some u" "client (?B(p := None, q := None)) u"
    "same_blocks (?B(p := None)) t u" "marks u = marks t" "io u = io t" by blast
  have B: "?B(p := None, q := None) = A" using s(3-5) by auto
  have "A \<subseteq>\<^sub>m ?B" "A \<subseteq>\<^sub>m ?B(p := None)" using s(4,5) by (auto simp: map_le_def)
  from same_blocks_trans [OF same_blocks_fewer [OF this(1) t(3)] same_blocks_fewer [OF this(2) u(3)]]
  show ?thesis using t(1,5,6) u(1,4,5) u(2) [unfolded B] by (intro exI [of _ t] exI [of _ u]) simp
qed

lemma test_blocks:
  assumes a: "bench table s" "client A s" and r: "unat (heap_cur s) + 131072 < min (unat (heap_end s)) 4194304"
    and counts: "l_initialized s = 0 \<or> standing_by (- {4, 5, 6, 7}) s"
  shows "\<exists>s' p q. do {
       (arr, s) \<leftarrow> kmalloc 10 s;
       s \<leftarrow> for_loop_opt 0 10 (\<lambda>i s. qemu_printf (''This is cool 0x%p'' @ nl) [arr + i] s)
          (for_loop 0 10 (\<lambda>i s. s\<lparr>mem := (mem s)(arr + i := v)\<rparr>) s);
       s \<leftarrow> qemu_printf (''________________'' @ nl) [] s;
       (arr2, s) \<leftarrow> kmalloc 10 s;
       s \<leftarrow> for_loop_opt 0 10 (\<lambda>i s. qemu_printf (''This is cool 0x%p'' @ nl) [arr2 + i] s)
          (for_loop 5 10 (\<lambda>i s. s\<lparr>mem := (mem s)(arr2 + i := w)\<rparr>) s);
       s \<leftarrow> kfree arr s;
       kfree arr2 s
     } = Some s' \<and> client A s' \<and> contents A s' = contents A s \<and> marks s' = marks s \<and> p \<noteq> q \<and> A p = None \<and> A q = None
    \<and> io s' = io s @ map (Outb PORT) (concat (map (\<lambda>i. cool_line (p + of_nat i)) [0 ..< 10])
        @ map of_char (''________________'' @ nl) @ concat (map (\<lambda>i. cool_line (q + of_nat i)) [0 ..< 10]))"
proof -
  have r4: "unat (heap_cur s) + 65536 < min (unat (heap_end s)) 4194304" using r by simp
  obtain p u1 s5 where s5: "kmalloc 10 s = Some (p, u1)"
    "for_loop_opt 0 10 (\<lambda>i s. qemu_printf (''This is cool 0x%p'' @ nl) [p + i] s)
        (for_loop 0 10 (\<lambda>i s. s\<lparr>mem := (mem s)(p + i := v)\<rparr>) u1) = Some s5"
    "A p = None" "bench table s5" "client (A(p \<mapsto> 10)) s5" "same_blocks A s s5" "marks s5 = marks s"
    "unat (heap_cur s5) \<le> unat (heap_cur s) + 65536" "heap_end s5 = heap_end s" "l_initialized s5 \<noteq> 0"
    "counts_kept (if l_initialized s = 0 then \<lambda>_. 0 else l_completePages s) (l_completePages s5)"
    "io s5 = io s @ map (Outb PORT) (concat (map (\<lambda>i. cool_line (p + of_nat i)) [0 ..< 10]))"
    using exercise_block [OF a r4, of 0 v] by auto
  obtain s6 where s6: "qemu_printf (''________________'' @ nl) [] s5 = Some s6"
    "printed (map of_char (''________________'' @ nl)) s5 s6" using message_step [OF s5(4)] by force
  note k6 = printed_keeps [OF s6(2)]
  have a6: "bench table s6" "client (A(p \<mapsto> 10)) s6" "unat (heap_cur s6) + 65536 < min (unat (heap_end s6)) 4194304"
    using s5(4,5,8,9) k6 r by (simp_all add: room_vars_def)
  obtain q u2 s7 where s7: "kmalloc 10 s6 = Some (q, u2)"
    "for_loop_opt 0 10 (\<lambda>i s. qemu_printf (''This is cool 0x%p'' @ nl) [q + i] s)
        (for_loop 5 10 (\<lambda>i s. s\<lparr>mem := (mem s)(q + i := w)\<rparr>) u2) = Some s7"
    "(A(p \<mapsto> 10)) q = None" "bench table s7" "client (A(p \<mapsto> 10, q \<mapsto> 10)) s7"
    "same_blocks (A(p \<mapsto> 10)) s6 s7" "marks s7 = marks s6"
    "counts_kept (l_completePages s6) (l_completePages s7)"
    "io s7 = io s6 @ map (Outb PORT) (concat (map (\<lambda>i. cool_line (q + of_nat i)) [0 ..< 10]))"
    using exercise_block [OF a6, of 5 w] s5(10) k6(5) by (auto simp: room_vars_def)
  have n7: "l_completePages s7 i \<notin> {4, 5}" for i
  proof -
    let ?C = "if l_initialized s = 0 then \<lambda>_. 0 else l_completePages s"
    have "?C i \<notin> {4, 5, 6, 7}" using counts by (auto simp: room_vars_def standing_by_def)
    moreover have "l_completePages s5 i \<in> {?C i, ?C i - 1}" using s5(11) by (simp add: counts_kept_def)
    moreover have "l_completePages s7 i \<in> {l_completePages s5 i, l_completePages s5 i - 1}"
      using s7(8) k6(5) by (simp add: counts_kept_def room_vars_def)
    ultimately show ?thesis by auto
  qed
  have pq: "p \<noteq> q" "A q = None" using s7(3) s5(3) by (auto split: if_splits)
  obtain s8 s9 where s9: "kfree p s7 = Some s8" "kfree q s8 = Some s9" "client A s9" "same_blocks A s7 s9"
    "marks s9 = marks s7" "io s9 = io s7" using release_both [OF s7(4,5) pq(1) s5(3) pq(2) n7] by blast
  have "A \<subseteq>\<^sub>m A(p \<mapsto> 10)" using s5(3) by (auto simp: map_le_def)
  from same_blocks_fewer [OF this s7(6)] have "same_blocks A s6 s7" .
  moreover have "same_blocks A s5 s6" using k6(7) by (simp add: same_blocks_def)
  ultimately have "same_blocks A s s9" using s5(6) s9(4) by (blast intro: same_blocks_trans)
  then have "contents A s9 = contents A s" by (rule contents_same [OF a(2)])
  moreover have "marks s9 = marks s" using s9(5) s7(7) k6(4) s5(7) by simp
  moreover have "io s9 = io s @ map (Outb PORT) (concat (map (\<lambda>i. cool_line (p + of_nat i)) [0 ..< 10])
      @ map of_char (''________________'' @ nl) @ concat (map (\<lambda>i. cool_line (q + of_nat i)) [0 ..< 10]))"
    unfolding s9(6) s7(9) k6(6) s5(12) by simp
  ultimately show ?thesis
    unfolding s5(1) Option.bind_lunit prod.case s5(2) s6(1) s7(1,2) s9(1,2) using pq s5(3) s9(3)
    by (intro exI [of _ s9] exI [of _ p] exI [of _ q]) simp
qed

section \<open>Properties\<close>

text \<open>
  C9. Take a machine as in \<open>bench\<close> (live serial line, the first four megabytes mapped, the bitmap
  between the screen and the page tables), with the cursor on the screen, room for two heap regions
  below the end of the heap and four megabytes, eight free page frames, and a heap that is not in
  use yet or has no size class with four to seven whole free regions standing by. There
  \<^verbatim>\<open>test_memory\<close> returns.  It takes the eight lowest free frames, which stay marked, and two blocks
  of the heap that nobody held, which it gives back: the blocks of other clients, their contents and the heap's
  fitness for the next call are as before.  The serial line carries exactly the lines with these
  frames and the addresses of these blocks.
\<close>

theorem test_memory_passes:
  assumes b: "bench table s" and c: "client A s" and v: "on_screen s" "terminal_buffer s = VGA_MEMORY"
    and r: "unat (heap_cur s) + 131072 < min (unat (heap_end s)) 4194304"
    and free: "8 \<le> card ({j. j < 262144} - marks s)"
    and counts: "l_initialized s = 0 \<or> standing_by (- {4, 5, 6, 7}) s"
  shows "\<exists>s' F a b. test_memory lit_A lit_B s = Some s' \<and> client A s' \<and> contents A s' = contents A s
    \<and> lowest_free 8 s F \<and> marks s' = marks s \<union> set F \<and> a \<noteq> b \<and> a \<notin> dom A \<and> b \<notin> dom A
    \<and> io s' = io s @ map (Outb PORT) (test_lines (placementaddr s) F a b)"
proof -
  obtain n s1 s2 s3 s4 F where f: "printf (''Testing memeory manager'' @ nl) [] s = Some (n, s1)"
    "qemu_printf (''HELLO WORLD FROM QEMU'' @ nl) [] s1 = Some s2"
    "for_loop_opt 0 8 (\<lambda>i s. do {
              (frame, s) \<leftarrow> kalloc_page_frame s;
              qemu_printf (''Loaded Page Frame At 0x%p '' @ nl) [frame] s
            }) s2 = Some s3"
    "qemu_printf (''Testing Heap...'' @ nl) [] s3 = Some s4" "lowest_free 8 s F" "marks s4 = marks s \<union> set F"
    "at_frame table A s s4" "io s4 = io s @ map (Outb PORT) (map of_char (''HELLO WORLD FROM QEMU'' @ nl)
        @ concat (map (\<lambda>i. loaded_line (frame_address (placementaddr s) i)) F) @ map of_char (''Testing Heap...'' @ nl))"
    using test_frames [OF b c v free] by (elim exE conjE)
  have a: "bench table s4" "client A s4" "contents A s4 = contents A s" "room_vars s4 = room_vars s"
    using f(7) by (simp_all add: at_frame_def)
  then have "unat (heap_cur s4) + 131072 < min (unat (heap_end s4)) 4194304" "l_initialized s4 = 0 \<or> standing_by (- {4, 5, 6, 7}) s4"
    using r counts by (simp_all add: room_vars_def standing_by_def)
  from test_blocks [OF a(1,2) this, of "ucast lit_A" "ucast lit_B"] obtain s5 p q where
    run: "test_memory lit_A lit_B s = Some s5" and h: "client A s5" "contents A s5 = contents A s4" "marks s5 = marks s4"
    "p \<noteq> q" "A p = None" "A q = None"
    "io s5 = io s4 @ map (Outb PORT) (concat (map (\<lambda>i. cool_line (p + of_nat i)) [0 ..< 10])
        @ map of_char (''________________'' @ nl) @ concat (map (\<lambda>i. cool_line (q + of_nat i)) [0 ..< 10]))"
    unfolding test_memory_def Let_def f(1-4) Option.bind_lunit prod.case by (elim exE conjE)
  have "io s5 = io s @ map (Outb PORT) (test_lines (placementaddr s) F p q)"
    unfolding h(7) f(8) test_lines_def by simp
  then show ?thesis using run h(1-6) f(5,6) a(3) by (intro exI [of _ s5] exI [of _ F] exI [of _ p] exI [of _ q]) auto
qed

definition test_machine :: liballoc where
  "test_machine = boot_heap\<lparr>mem := \<lambda>x. if unat x < 0x135000 then 0 else mem boot_heap x,
     terminal_row := 0, terminal_column := 0, terminal_buffer := VGA_MEMORY\<rparr>"

lemma boot_heap_bench: "bench 0x137000 boot_heap"
proof -
  have "bitmap_addr boot_heap = 0x110000"
    using paging_init_result [OF boot_vmm_live] by (auto simp: boot_heap_def paged_rise_def rise.defs vmm.defs)
  then show ?thesis using boot_heap_live paged_rise_map
    by (simp add: bench_def boot_heap_def rise.defs)
qed

lemma test_machine_ready:
  "bench 0x137000 test_machine" "client Map.empty test_machine" "marks test_machine = {}"
  "on_screen test_machine" "terminal_buffer test_machine = VGA_MEMORY"
  "unat (heap_cur test_machine) + 131072 < min (unat (heap_end test_machine)) 4194304" "l_initialized test_machine = 0"
proof -
  have d: "kernel_dir boot_heap = 0x135000" using paged_rise_map by (simp add: boot_heap_def rise.defs)
  let ?m = "\<lambda>x. if unat x < 0x135000 then 0 else mem boot_heap x"
  have m: "same_outside (\<lambda>x. unat x < min (unat (kernel_dir boot_heap)) (unat (0x137000 :: u32))) (mem boot_heap) ?m"
    by (simp add: same_outside_def d)
  note w = low_write [OF boot_heap_bench client_reach [OF boot_heap_start(1)] m]
  have "heap_vars test_machine = heap_vars (boot_heap\<lparr>mem := ?m\<rparr>)" "mem test_machine = ?m"
    by (simp_all add: test_machine_def heap_vars_def)
  then show "client Map.empty test_machine" using client_same_vars [of test_machine "boot_heap\<lparr>mem := ?m\<rparr>"] w(2) by simp
  show "bench 0x137000 test_machine" using w(1) by (simp add: bench_def tx_live_def tx_ready_def test_machine_def)
  show "unat (heap_cur test_machine) + 131072 < min (unat (heap_end test_machine)) 4194304" "l_initialized test_machine = 0"
    "on_screen test_machine" "terminal_buffer test_machine = VGA_MEMORY"
    by (simp_all add: test_machine_def boot_heap_start on_screen_def)
  have b: "unat (bitmap_addr boot_heap) + 131072 \<le> 0x135000" using boot_heap_bench d by (simp add: bench_def)
  have "marks test_machine = marks (boot_heap\<lparr>mem := \<lambda>_. 0\<rparr>)"
    by (rule marks_same) (use b in \<open>auto simp: test_machine_def\<close>)
  also have "\<dots> = {}" by (simp add: marks_def ISSET_def load32_def)
  finally show "marks test_machine = {}" .
qed

theorem test_memory_passes_witness:
  "\<exists>s' F. test_memory 0x101000 0x101010 test_machine = Some s' \<and> lowest_free 8 test_machine F \<and> marks s' = set F
    \<and> client Map.empty s'"
proof -
  note r = test_machine_ready
  have "card {0 :: u32, 1, 2, 3, 4, 5, 6, 7} \<le> card {j :: u32. j < 262144}" by (rule card_mono) auto
  then have "8 \<le> card ({j. j < 262144} - marks test_machine)" using r(3) by simp
  from test_memory_passes [OF r(1,2,4,5,6) this disjI1 [OF r(7)], of "0x101000" "0x101010"]
  show ?thesis unfolding r(3) by auto
qed

text \<open>
  C11. Page frames and heap share memory: both start where \<^verbatim>\<open>paging_init\<close> leaves the placement
  address. Take a machine as in \<open>bench\<close> with a heap that is not in use yet, a free frame \<open>i\<close>, and a request of \<open>n\<close> bytes that fits
  in the heap and is at least \<open>0x1BE0 + i * 0x1000\<close>, that is long enough to reach the end of that
  frame. Then \<^verbatim>\<open>kalloc_page_frame\<close> hands out a page, the lowest free one, that lies as a whole in the
  block that \<^verbatim>\<open>malloc\<close> then grants for the request.
\<close>

theorem frame_inside_block:
  assumes b: "bench table s" and c: "client A s" and h: "heap_fits n s" "l_initialized s = 0"
    and p: "placementaddr s = kernel_dir s + 0x3400" "heap_cur s = kernel_dir s + 0x3400"
    and i: "i \<notin> marks s" "0x1BE0 + unat i * 0x1000 \<le> unat n" and n: "unat n \<le> 4294900000"
  shows "\<exists>f s1 p s2. kalloc_page_frame s = Some (f, s1) \<and> kmalloc n s1 = Some (p, s2)
    \<and> {unat f ..< unat f + 4096} \<subseteq> block_bytes p n"
proof -
  have room: "unat (heap_cur s) + unat (pages_for n) * 4096 < 4194304" using h(1) by (simp add: heap_fits_def)
  have small: "unat n + 32 \<le> unat (pages_for n) * 4096" by (rule pages_for_enough(1) [OF n])
  have i1024: "unat i < 1024" using i(2) small room by linarith
  then have "i < 262144" by (simp add: word_less_nat_alt)
  then have free: "{j. j < 262144} - marks s \<noteq> {}" using i(1) by blast
  obtain k s1 where k: "kalloc_page_frame s = Some (frame_address (placementaddr s) k, s1)" "k \<notin> marks s" "\<forall>j < k. j \<in> marks s"
    "at_frame table A s s1" using kalloc_step [OF b c free] by blast
  have "k \<le> i" using k(3) i(1) by (meson not_le)
  then have ki: "unat k \<le> unat i" by (simp add: word_le_nat_alt)
  have s1: "client A s1" "heap_cur s1 = heap_cur s" "heap_end s1 = heap_end s" "l_initialized s1 = 0"
    using k(4) h(2) by (simp_all add: at_frame_def room_vars_def)
  obtain lo T where T: "client_of lo T A s1" using s1(1) by (auto simp: client_def)
  then have low: "mapped_below lo s1" and l: "heap_lock s1 = 0" by (simp_all add: client_of_def kheap_def)
  have "heap_fits n s1" using h(1) s1 by (simp add: heap_fits_def)
  from kmalloc_first [OF l _ heap_fits_room [OF low this]] s1(4)
  obtain s2 where s2: "kmalloc n s1 = Some (heap_cur s + 32, s2)" unfolding s1(2) by (auto simp: no_lists_def)
  let ?d = "unat (kernel_dir s)"
  have a: "kernel_dir s AND 0xFFF = 0" using b by (simp add: bench_def identity_map_def)
  have "unat (kernel_dir s1) + 8192 \<le> unat (heap_cur s1)" using low by (auto simp: mapped_below_def)
  moreover have "kernel_dir s1 = kernel_dir s" using k(4) by (simp add: at_frame_def room_vars_def)
  ultimately have cur: "unat (heap_cur s) = ?d + 13312"
    using s1(2) room unfolding p(2) by (subst unat_plus_u32) simp_all
  have off: "placementaddr s AND 0xFFF = 1024" unfolding p(1) by (rule placement_offset [OF a])
  have "frame_address (placementaddr s) k = kernel_dir s + of_nat (12288 + (unat k + 1) * 4096)"
    unfolding frame_address_eq off unfolding p(1) by simp
  then have "unat (frame_address (placementaddr s) k) = ?d + (12288 + (unat k + 1) * 4096)"
    using ki i1024 cur room by (subst \<open>frame_address _ _ = _\<close>, intro unat_add_of_nat_u32) simp
  moreover have "unat (heap_cur s + 32) = unat (heap_cur s) + 32" using room by (subst unat_plus_u32) simp_all
  ultimately have "{unat (frame_address (placementaddr s) k) ..< unat (frame_address (placementaddr s) k) + 4096}
     \<subseteq> block_bytes (heap_cur s + 32) n" using ki i(2) cur by (simp add: block_bytes_def)
  then show ?thesis using k(1) s2 by blast
qed

theorem frame_inside_block_witness:
  "\<exists>f s1 p s2. kalloc_page_frame test_machine = Some (f, s1) \<and> kmalloc 0x1BE0 s1 = Some (p, s2)
    \<and> unat f \<in> block_bytes p 0x1BE0 \<and> unat f + 4095 \<in> block_bytes p 0x1BE0"
proof -
  note r = test_machine_ready
  have d: "kernel_dir test_machine = 0x135000" "placementaddr test_machine = 0x138400"
    using paging_init_result [OF boot_vmm_live]
    by (auto simp: test_machine_def boot_heap_def paged_rise_def rise.defs vmm.defs page_up_def)
  have "pages_for 0x1BE0 = 16" by (simp add: pages_for_def Let_def)
  then have "heap_fits 0x1BE0 test_machine" using r(6) by (simp add: heap_fits_def)
  from frame_inside_block [OF r(1,2) this r(7) _ _ _, of 0] obtain f s1 p s2 where
    "kalloc_page_frame test_machine = Some (f, s1)" "kmalloc 0x1BE0 s1 = Some (p, s2)"
    "{unat f ..< unat f + 4096} \<subseteq> block_bytes p 0x1BE0"
    using d r(3) by (auto simp: test_machine_def boot_heap_start)
  then show ?thesis by (intro exI conjI) auto
qed

end
